(* ===== verification/Prelude.thy ===== *)
theory Prelude
  imports Main "HOL-Library.Word"
begin

text \<open>
  Shared vocabulary of the development: the named theorem collections, the result type that
  stands for \<^verbatim>\<open>anyhow::Result\<close>, the fixed-size byte array \<^verbatim>\<open>[u8; 32]\<close> behind identifiers and
  membership vectors, the standard-library formatting that the sources use, and the generic
  lemmas on lists and byte sequences that the component theories apply.
\<close>

section \<open>Collections\<close>

named_theorems size_defs \<open>the size constants of the model\<close>
named_theorems id_order \<open>rewriting comparisons of identifiers to comparisons of numbers\<close>
named_theorems slot_simps \<open>what a lookup-table slot holds after an operation\<close>
named_theorems node_simps \<open>projections of a node after an operation\<close>
named_theorems keeps \<open>operations that keep the table invariant\<close>

section \<open>Results\<close>

text \<open>
  \<^verbatim>\<open>anyhow::Error\<close> carries a message and an optional chain of causes. A formatted argument of a
  message is kept as a number or as the bytes of an identifier.
\<close>

datatype error =
    Msg string
  | MsgNat string "nat list"
  | MsgId string "8 word list"
  | Context string error

type_synonym 'a result = "error + 'a"

abbreviation Ok :: "'a \<Rightarrow> 'a result" where "Ok \<equiv> Inr"
abbreviation Err :: "error \<Rightarrow> 'a result" where "Err \<equiv> Inl"

text \<open>\<^verbatim>\<open>map_err\<close> as the sources use it: wrap the cause into a new message.\<close>

definition map_err :: "string \<Rightarrow> 'a result \<Rightarrow> 'a result" where
  "map_err msg r = (case r of Err e \<Rightarrow> Err (Context msg e) | Ok x \<Rightarrow> Ok x)"

definition is_ok :: "'a result \<Rightarrow> bool" where
  "is_ok r = (case r of Err _ \<Rightarrow> False | Ok _ \<Rightarrow> True)"

lemma map_err_simps [simp]:
  "map_err m (Ok x) = Ok x"
  "map_err m (Err e) = Err (Context m e)"
  by (simp_all add: map_err_def)

lemma map_err_eq_Ok [simp]: "map_err m r = Ok x \<longleftrightarrow> r = Ok x"
  by (cases r) simp_all

lemma is_ok_simps [simp]: "is_ok (Ok x)" "\<not> is_ok (Err e)"
  by (simp_all add: is_ok_def)

lemma is_ok_map_err [simp]: "is_ok (map_err m r) = is_ok r"
  by (cases r) simp_all

lemma is_ok_iff: "is_ok r \<longleftrightarrow> (\<exists>x. r = Ok x)"
  by (cases r) simp_all

section \<open>Fixed-size byte arrays\<close>

type_synonym u8 = "8 word"

definition IDENTIFIER_SIZE_BYTES :: nat where
  [size_defs]: "IDENTIFIER_SIZE_BYTES = 32"

typedef bytes32 = "{bs :: u8 list. length bs = IDENTIFIER_SIZE_BYTES}"
  morphisms bytes_of Bytes32
  by (rule exI [of _ "replicate IDENTIFIER_SIZE_BYTES 0"]) simp

lemma Bytes32_bytes_of [code abstype]: "Bytes32 (bytes_of b) = b"
  by (rule bytes_of_inverse)

lemma length_bytes_of [simp]: "length (bytes_of b) = IDENTIFIER_SIZE_BYTES"
  using bytes_of [of b] by simp

text \<open>
  \<^verbatim>\<open>[v; 32]\<close>, and the array that \<^verbatim>\<open>let mut a = [0; 32]; a[offset..].copy_from_slice(bytes)\<close>
  leaves for at most 32 bytes (a longer slice has been refused before that point).
\<close>

definition fill32 :: "u8 \<Rightarrow> bytes32" where
  "fill32 v = Bytes32 (replicate IDENTIFIER_SIZE_BYTES v)"

definition pad32 :: "u8 list \<Rightarrow> bytes32" where
  "pad32 bs = (let kept = take IDENTIFIER_SIZE_BYTES bs
     in Bytes32 (replicate (IDENTIFIER_SIZE_BYTES - length kept) 0 @ kept))"

lemma bytes_of_fill32 [simp, code abstract]:
  "bytes_of (fill32 v) = replicate IDENTIFIER_SIZE_BYTES v"
  by (simp add: fill32_def Bytes32_inverse)

lemma bytes_of_pad32_take [code abstract]:
  "bytes_of (pad32 bs) =
     (let kept = take IDENTIFIER_SIZE_BYTES bs
      in replicate (IDENTIFIER_SIZE_BYTES - length kept) 0 @ kept)"
  by (simp add: pad32_def Let_def Bytes32_inverse)

lemma bytes_of_pad32:
  "length bs \<le> IDENTIFIER_SIZE_BYTES \<Longrightarrow>
   bytes_of (pad32 bs) = replicate (IDENTIFIER_SIZE_BYTES - length bs) 0 @ bs"
  by (simp add: bytes_of_pad32_take Let_def)

lemma pad32_bytes_of [simp]: "pad32 (bytes_of b) = b"
  by (simp add: pad32_def Let_def bytes_of_inverse)

lemma bytes32_eqI: "bytes_of a = bytes_of b \<Longrightarrow> a = b"
  by (simp add: bytes_of_inject)

section \<open>Byte sequences as big-endian numbers\<close>

fun be_val :: "u8 list \<Rightarrow> nat" where
  "be_val [] = 0"
| "be_val (b # bs) = unat b * 256 ^ length bs + be_val bs"

lemma unat_u8_less [simp]: "unat (b :: u8) < 256"
  using unsigned_less [of b] by simp

lemma unat_u8_le [simp]: "unat (b :: u8) \<le> 255"
  using unat_u8_less [of b] by linarith

lemma be_val_less: "be_val bs < 256 ^ length bs"
proof (induction bs)
  case Nil
  show ?case by simp
next
  case (Cons b bs)
  have "unat b * 256 ^ length bs \<le> 255 * 256 ^ length bs"
    by (rule mult_right_mono) simp_all
  with Cons.IH show ?case unfolding be_val.simps length_Cons power_Suc by linarith
qed

lemma be_val_zeros [simp]: "be_val (replicate n 0 @ bs) = be_val bs"
  by (induction n) simp_all

lemma be_val_head_less:
  assumes "length xs = length ys" and "x < y"
  shows "be_val (x # xs) < be_val (y # ys)"
proof -
  have "Suc (unat x) \<le> unat y" using assms(2) by (simp add: word_less_nat_alt Suc_le_eq)
  then have "Suc (unat x) * 256 ^ length xs \<le> unat y * 256 ^ length xs"
    by (rule mult_right_mono) simp
  moreover have "be_val xs < 256 ^ length xs" by (rule be_val_less)
  ultimately show ?thesis using assms(1) by simp
qed

lemma be_val_inject:
  "length xs = length ys \<Longrightarrow> be_val xs = be_val ys \<longleftrightarrow> xs = ys"
proof (induction xs ys rule: list_induct2)
  case Nil
  show ?case by simp
next
  case (Cons x xs y ys)
  consider "x < y" | "x = y" | "y < x" by (rule linorder_cases)
  then show ?case
  proof cases
    case 1
    with be_val_head_less [OF Cons.hyps 1] show ?thesis by auto
  next
    case 2
    with Cons show ?thesis by simp
  next
    case 3
    with be_val_head_less [OF Cons.hyps [symmetric] 3] show ?thesis by auto
  qed
qed

section \<open>Formatting of the standard library\<close>

text \<open>Decimal \<^verbatim>\<open>{}\<close> of a \<^verbatim>\<open>usize\<close>, and \<^verbatim>\<open>{:08b}\<close> of a byte.\<close>

definition digit_char :: "nat \<Rightarrow> char" where
  "digit_char d = char_of (48 + d)"

fun fmt_nat :: "nat \<Rightarrow> string" where
  "fmt_nat n = (if n < 10 then [digit_char n] else fmt_nat (n div 10) @ [digit_char (n mod 10)])"

declare fmt_nat.simps [simp del]

definition fmt_08b :: "u8 \<Rightarrow> string" where
  "fmt_08b b = map (\<lambda>i. if bit b i then CHR ''1'' else CHR ''0'') (rev [0..<8])"

definition parse_bits :: "string \<Rightarrow> bool list" where
  "parse_bits s = map (\<lambda>c. c = CHR ''1'') s"

lemma length_fmt_08b [simp]: "length (fmt_08b b) = 8"
  by (simp add: fmt_08b_def)

lemma parse_fmt_08b: "parse_bits (fmt_08b b) = map (bit b) (rev [0..<8])"
  by (simp add: parse_bits_def fmt_08b_def)

lemma fmt_08b_inject: "fmt_08b a = fmt_08b b \<longleftrightarrow> a = b"
proof
  assume "fmt_08b a = fmt_08b b"
  then have "map (bit a) (rev [0..<8]) = map (bit b) (rev [0..<8])"
    by (metis parse_fmt_08b)
  then have "\<forall>i \<in> set (rev [0..<8]). bit a i = bit b i"
    by (simp add: map_eq_conv)
  then show "a = b" by (intro bit_word_eqI) simp
qed simp

end
