(* ===== verification/Hex_Codec.thy ===== *)
theory Hex_Codec
  imports Prelude
begin

text \<open>
  The interface to the \<^verbatim>\<open>hex\<close> crate. \<^verbatim>\<open>hex::encode\<close> and \<^verbatim>\<open>hex::decode\<close> are not part of the
  repository: the model takes them as parameters, and this theory states the law that the
  sources rely on. It also holds the contract shared by the two 32-byte value types
  (\<^verbatim>\<open>from_bytes\<close>, \<^verbatim>\<open>to_bytes\<close>) and the lemmas on their textual form, proved once from the two
  contracts. A plain lower-case codec shows that the law can be met.
\<close>

section \<open>The codec\<close>

locale hex_codec =
  fixes hex_encode :: "u8 list \<Rightarrow> string"
    and hex_decode :: "string \<Rightarrow> u8 list result"
  assumes decode_encode: "hex_decode (hex_encode bs) = Ok bs"
begin

lemma encode_inject: "hex_encode xs = hex_encode ys \<longleftrightarrow> xs = ys"
  by (metis decode_encode sum.inject(2))

end

section \<open>Values backed by a fixed-size array\<close>

locale fixed_bytes =
  fixes of_bytes :: "u8 list \<Rightarrow> 'a result"
    and bytes :: "'a \<Rightarrow> u8 list"
  assumes too_large: "IDENTIFIER_SIZE_BYTES < length bs \<Longrightarrow> \<not> is_ok (of_bytes bs)"
    and padded: "length bs \<le> IDENTIFIER_SIZE_BYTES \<Longrightarrow>
      \<exists>x. of_bytes bs = Ok x \<and>
          bytes x = replicate (IDENTIFIER_SIZE_BYTES - length bs) 0 @ bs"
    and bytes_length: "length (bytes x) = IDENTIFIER_SIZE_BYTES"
    and bytes_inject: "bytes x = bytes y \<Longrightarrow> x = y"
begin

lemma of_bytes_ok_iff: "is_ok (of_bytes bs) \<longleftrightarrow> length bs \<le> IDENTIFIER_SIZE_BYTES"
proof (cases "length bs \<le> IDENTIFIER_SIZE_BYTES")
  case True
  then show ?thesis using padded [of bs] by auto
next
  case False
  then show ?thesis using too_large [of bs] by simp
qed

lemma of_bytes_bytes: "of_bytes (bytes x) = Ok x"
proof -
  obtain y where "of_bytes (bytes x) = Ok y" "bytes y = bytes x"
    using padded [of "bytes x"] by (auto simp: bytes_length)
  then show ?thesis using bytes_inject by blast
qed

lemma bytes_of_bytes_value: "of_bytes bs = Ok x \<Longrightarrow> be_val (bytes x) = be_val bs"
proof -
  assume ok: "of_bytes bs = Ok x"
  then have "length bs \<le> IDENTIFIER_SIZE_BYTES"
    using of_bytes_ok_iff [of bs] by simp
  then show ?thesis using padded [of bs] ok by auto
qed

end

text \<open>The printed form of such a value, and parsing it back.\<close>

locale printed_bytes = hex_codec hex_encode hex_decode + fixed_bytes of_bytes bytes
  for hex_encode :: "u8 list \<Rightarrow> string"
    and hex_decode :: "string \<Rightarrow> u8 list result"
    and of_bytes :: "u8 list \<Rightarrow> 'a result"
    and bytes :: "'a \<Rightarrow> u8 list" +
  fixes of_string :: "string \<Rightarrow> 'a result"
    and display :: "'a \<Rightarrow> string"
  assumes of_string_decoded: "hex_decode s = Ok bs \<Longrightarrow> of_string s = of_bytes bs"
    and of_string_error: "\<not> is_ok (hex_decode s) \<Longrightarrow> \<not> is_ok (of_string s)"
    and display_bytes: "display x = hex_encode (bytes x)"
begin

lemma of_string_display: "of_string (display x) = Ok x"
  using of_string_decoded [OF decode_encode] by (simp add: display_bytes of_bytes_bytes)

lemma display_inject: "display x = display y \<longleftrightarrow> x = y"
  by (auto simp: display_bytes encode_inject dest: bytes_inject)

lemma of_string_ok_iff:
  "is_ok (of_string s) \<longleftrightarrow>
   (\<exists>bs. hex_decode s = Ok bs \<and> length bs \<le> IDENTIFIER_SIZE_BYTES)"
proof (cases "hex_decode s")
  case (Inl e)
  then show ?thesis using of_string_error [of s] by simp
next
  case (Inr bs)
  then show ?thesis using of_string_decoded [OF Inr] by (simp add: of_bytes_ok_iff)
qed

end

section \<open>A codec that meets the law\<close>

definition nibble_char :: "nat \<Rightarrow> char" where
  "nibble_char n = char_of (if n < 10 then 48 + n else 87 + n)"

definition nibble_of :: "char \<Rightarrow> nat option" where
  "nibble_of c = (let n = of_char c in
     if 48 \<le> n \<and> n \<le> 57 then Some (n - 48)
     else if 97 \<le> n \<and> n \<le> 102 then Some (n - 87)
     else if 65 \<le> n \<and> n \<le> 70 then Some (n - 55)
     else None)"

fun plain_encode :: "u8 list \<Rightarrow> string" where
  "plain_encode [] = []"
| "plain_encode (b # bs) =
     nibble_char (unat b div 16) # nibble_char (unat b mod 16) # plain_encode bs"

fun plain_decode :: "string \<Rightarrow> u8 list result" where
  "plain_decode [] = Ok []"
| "plain_decode [c] = Err (Msg ''Odd number of digits'')"
| "plain_decode (c # d # cs) =
     (case (nibble_of c, nibble_of d) of
        (Some h, Some l) \<Rightarrow>
          (case plain_decode cs of
             Err e \<Rightarrow> Err e
           | Ok bs \<Rightarrow> Ok (word_of_nat (16 * h + l) # bs))
      | _ \<Rightarrow> Err (Msg ''Invalid character''))"

lemma nibble_of_char: "n < 16 \<Longrightarrow> nibble_of (nibble_char n) = Some n"
  by (simp add: nibble_of_def nibble_char_def Let_def)

lemma plain_decode_encode: "plain_decode (plain_encode bs) = Ok bs"
proof (induction bs)
  case (Cons b bs)
  have "unat b div 16 < 16" using unat_u8_less [of b] by (simp add: div_less_iff_less_mult)
  moreover have "unat b mod 16 < 16" by simp
  moreover have "16 * (unat b div 16) + unat b mod 16 = unat b" by simp
  ultimately show ?case using Cons.IH by (simp add: nibble_of_char)
qed simp

interpretation plain: hex_codec plain_encode plain_decode
  by unfold_locales (rule plain_decode_encode)

end
