(* ===== verification/Identifiers.thy ===== *)
theory Identifiers
  imports Hex_Codec
begin

text \<open>
  \<^verbatim>\<open>src/core/model/identifier.rs\<close>: the 32-byte identifier of a node, its byte-wise comparison, its
  conversions and its order. The comparison loop is shown to be the order of 256-bit big-endian
  numbers, which makes \<^verbatim>\<open>Identifier\<close> an instance of the library's linear orders.
\<close>

section \<open>Definitions\<close>

datatype Identifier = Identifier bytes32

primrec id_array :: "Identifier \<Rightarrow> bytes32" where
  "id_array (Identifier b) = b"

definition as_bytes :: "Identifier \<Rightarrow> u8 list" where
  "as_bytes i = bytes_of (id_array i)"

definition to_bytes :: "Identifier \<Rightarrow> u8 list" where
  "to_bytes i = bytes_of (id_array i)"

definition ID_ZERO :: Identifier where
  "ID_ZERO = Identifier (fill32 0)"

definition ID_MAX :: Identifier where
  "ID_MAX = Identifier (fill32 255)"

datatype ComparisonResult = CompareGreater | CompareEqual | CompareLess

record ComparisonContext =
  cmp_result :: ComparisonResult
  cmp_left :: Identifier
  cmp_right :: Identifier
  cmp_diff_index :: nat

text \<open>\<^verbatim>\<open>std::cmp::Ordering\<close> and \<^verbatim>\<open>u8::cmp\<close>.\<close>

datatype Ordering = Less | Equal | Greater

definition ord_cmp :: "'a::linorder \<Rightarrow> 'a \<Rightarrow> Ordering" where
  "ord_cmp x y = (if x < y then Less else if x = y then Equal else Greater)"

text \<open>The loop of \<^verbatim>\<open>compare\<close> over the indices that remain.\<close>

fun compare_loop :: "Identifier \<Rightarrow> Identifier \<Rightarrow> nat list \<Rightarrow> ComparisonContext" where
  "compare_loop a b [] =
     \<lparr>cmp_result = CompareEqual, cmp_left = a, cmp_right = b,
      cmp_diff_index = IDENTIFIER_SIZE_BYTES\<rparr>"
| "compare_loop a b (i # is) =
     (case ord_cmp (as_bytes a ! i) (as_bytes b ! i) of
        Less \<Rightarrow>
          \<lparr>cmp_result = CompareLess, cmp_left = a, cmp_right = b, cmp_diff_index = i\<rparr>
      | Greater \<Rightarrow>
          \<lparr>cmp_result = CompareGreater, cmp_left = a, cmp_right = b, cmp_diff_index = i\<rparr>
      | Equal \<Rightarrow> compare_loop a b is)"

definition compare :: "Identifier \<Rightarrow> Identifier \<Rightarrow> ComparisonContext" where
  "compare a b = compare_loop a b [0..<IDENTIFIER_SIZE_BYTES]"

definition from_bytes :: "u8 list \<Rightarrow> Identifier result" where
  "from_bytes bs =
     (if length bs > IDENTIFIER_SIZE_BYTES
      then Err (MsgNat ''identifier size is too large'' [IDENTIFIER_SIZE_BYTES, length bs])
      else Ok (Identifier (pad32 bs)))"

definition from_string :: "(string \<Rightarrow> u8 list result) \<Rightarrow> string \<Rightarrow> Identifier result" where
  "from_string hex_decode s =
     (case hex_decode s of Err e \<Rightarrow> Err e | Ok decoded \<Rightarrow> from_bytes decoded)"

text \<open>\<^verbatim>\<open>Display\<close> (and \<^verbatim>\<open>Debug\<close>, which calls it).\<close>

definition id_display :: "(u8 list \<Rightarrow> string) \<Rightarrow> Identifier \<Rightarrow> string" where
  "id_display hex_encode i = hex_encode (as_bytes i)"

text \<open>
  \<^verbatim>\<open>Display for ComparisonContext\<close>. The slice \<^verbatim>\<open>[0..=diff_index]\<close> panics past the end of the array,
  which is the value \<^term>\<open>None\<close>.
\<close>

definition slice_to :: "u8 list \<Rightarrow> nat \<Rightarrow> u8 list option" where
  "slice_to bs i = (if i < length bs then Some (take (Suc i) bs) else None)"

definition display_prefixes ::
  "(u8 list \<Rightarrow> string) \<Rightarrow> string \<Rightarrow> ComparisonContext \<Rightarrow> string option" where
  "display_prefixes hex_encode op c =
     (case (slice_to (as_bytes (cmp_left c)) (cmp_diff_index c),
            slice_to (as_bytes (cmp_right c)) (cmp_diff_index c)) of
        (Some l, Some r) \<Rightarrow>
          Some (hex_encode l @ op @ hex_encode r @ '' (at byte '' @
                fmt_nat (cmp_diff_index c) @ '')'')
      | _ \<Rightarrow> None)"

definition cmp_display :: "(u8 list \<Rightarrow> string) \<Rightarrow> ComparisonContext \<Rightarrow> string option" where
  "cmp_display hex_encode c =
     (case cmp_result c of
        CompareGreater \<Rightarrow> display_prefixes hex_encode '' > '' c
      | CompareEqual \<Rightarrow>
          Some (id_display hex_encode (cmp_left c) @ '' == '' @ id_display hex_encode (cmp_right c))
      | CompareLess \<Rightarrow> display_prefixes hex_encode '' < '' c)"

definition cmp :: "Identifier \<Rightarrow> Identifier \<Rightarrow> Ordering" where
  "cmp a b =
     (case cmp_result (compare a b) of
        CompareLess \<Rightarrow> Less
      | CompareEqual \<Rightarrow> Equal
      | CompareGreater \<Rightarrow> Greater)"

definition partial_cmp :: "Identifier \<Rightarrow> Identifier \<Rightarrow> Ordering option" where
  "partial_cmp a b = Some (cmp a b)"

text \<open>The number that the bytes spell, most significant byte first.\<close>

definition id_val :: "Identifier \<Rightarrow> nat" where
  "id_val i = be_val (as_bytes i)"

section \<open>Conversions\<close>

lemma to_bytes_as_bytes: "to_bytes i = as_bytes i"
  by (simp add: to_bytes_def as_bytes_def)

lemma length_as_bytes [simp]: "length (as_bytes i) = IDENTIFIER_SIZE_BYTES"
  by (simp add: as_bytes_def)

lemma as_bytes_inject [simp]: "as_bytes a = as_bytes b \<longleftrightarrow> a = b"
  by (cases a; cases b) (auto simp: as_bytes_def dest: bytes32_eqI)

lemma id_val_inject: "id_val a = id_val b \<longleftrightarrow> a = b"
  using be_val_inject [of "as_bytes a" "as_bytes b"] by (simp add: id_val_def)

lemma id_val_pad32 [id_order]:
  "length bs \<le> IDENTIFIER_SIZE_BYTES \<Longrightarrow> id_val (Identifier (pad32 bs)) = be_val bs"
  by (simp add: id_val_def as_bytes_def bytes_of_pad32)

interpretation ids: fixed_bytes from_bytes to_bytes
proof
  show "\<exists>x. from_bytes bs = Ok x \<and>
      to_bytes x = replicate (IDENTIFIER_SIZE_BYTES - length bs) 0 @ bs"
    if "length bs \<le> IDENTIFIER_SIZE_BYTES" for bs
    using that by (simp add: from_bytes_def to_bytes_def bytes_of_pad32)
qed (simp_all add: from_bytes_def to_bytes_as_bytes)

lemma identifier_printed:
  assumes "hex_codec hex_encode hex_decode"
  shows "printed_bytes hex_encode hex_decode from_bytes to_bytes
           (from_string hex_decode) (id_display hex_encode)"
  using assms ids.fixed_bytes_axioms
  by (auto simp: printed_bytes_def printed_bytes_axioms_def from_string_def id_display_def
      to_bytes_as_bytes split: sum.splits)

interpretation plain_identifier: printed_bytes plain_encode plain_decode from_bytes to_bytes
  "from_string plain_decode" "id_display plain_encode"
  by (rule identifier_printed) (rule plain.hex_codec_axioms)

section \<open>Comparison\<close>

lemma ord_cmp_simps:
  "ord_cmp x y = Less \<longleftrightarrow> x < y"
  "ord_cmp x y = Equal \<longleftrightarrow> x = y"
  "ord_cmp x y = Greater \<longleftrightarrow> y < x"
  by (auto simp: ord_cmp_def)

text \<open>What one run of the loop from index \<open>k\<close> leaves.\<close>

definition first_diff :: "Identifier \<Rightarrow> Identifier \<Rightarrow> nat \<Rightarrow> bool" where
  "first_diff a b d \<longleftrightarrow>
     d < IDENTIFIER_SIZE_BYTES \<and> (\<forall>i < d. as_bytes a ! i = as_bytes b ! i) \<and>
     as_bytes a ! d \<noteq> as_bytes b ! d"

definition compare_spec :: "Identifier \<Rightarrow> Identifier \<Rightarrow> ComparisonContext \<Rightarrow> bool" where
  "compare_spec a b c \<longleftrightarrow>
     cmp_left c = a \<and> cmp_right c = b \<and>
     (case cmp_result c of
        CompareEqual \<Rightarrow> a = b \<and> cmp_diff_index c = IDENTIFIER_SIZE_BYTES
      | CompareLess \<Rightarrow> first_diff a b (cmp_diff_index c) \<and>
          as_bytes a ! cmp_diff_index c < as_bytes b ! cmp_diff_index c
      | CompareGreater \<Rightarrow> first_diff a b (cmp_diff_index c) \<and>
          as_bytes b ! cmp_diff_index c < as_bytes a ! cmp_diff_index c)"

lemma compare_loop_spec:
  assumes "k \<le> IDENTIFIER_SIZE_BYTES" "\<forall>i < k. as_bytes a ! i = as_bytes b ! i"
  shows "compare_spec a b (compare_loop a b [k..<IDENTIFIER_SIZE_BYTES])"
  using assms
proof (induction "IDENTIFIER_SIZE_BYTES - k" arbitrary: k)
  case 0
  then have "as_bytes a = as_bytes b" by (simp add: list_eq_iff_nth_eq)
  with 0 show ?case by (simp add: compare_spec_def)
next
  case (Suc n)
  then have k: "[k..<IDENTIFIER_SIZE_BYTES] = k # [Suc k..<IDENTIFIER_SIZE_BYTES]"
    by (simp add: upt_rec)
  show ?case
  proof (cases "as_bytes a ! k = as_bytes b ! k")
    case True
    then have "\<forall>i < Suc k. as_bytes a ! i = as_bytes b ! i"
      using Suc.prems(2) by (simp add: less_Suc_eq)
    then show ?thesis using Suc.hyps Suc.prems True
      by (simp add: k ord_cmp_def)
  next
    case False
    then show ?thesis using Suc.hyps Suc.prems
      by (auto simp: k ord_cmp_def compare_spec_def first_diff_def)
  qed
qed

lemma compare_meets_spec: "compare_spec a b (compare a b)"
  unfolding compare_def by (rule compare_loop_spec) simp_all

text \<open>A first difference decides the order of the numbers.\<close>

lemma be_val_append: "be_val (xs @ ys) = be_val xs * 256 ^ length ys + be_val ys"
  by (induction xs) (simp_all add: power_add algebra_simps)

lemma be_val_first_diff:
  assumes "length xs = length ys" "d < length xs" "\<forall>i < d. xs ! i = ys ! i" "xs ! d < ys ! d"
  shows "be_val xs < be_val ys"
proof -
  have pre: "take d xs = take d ys"
    using assms by (simp add: list_eq_iff_nth_eq)
  have "be_val (xs ! d # drop (Suc d) xs) < be_val (ys ! d # drop (Suc d) ys)"
    using assms by (intro be_val_head_less) simp_all
  moreover have "xs = take d xs @ xs ! d # drop (Suc d) xs"
    "ys = take d ys @ ys ! d # drop (Suc d) ys"
    using assms by (simp_all add: id_take_nth_drop)
  ultimately show ?thesis using pre assms(1)
    by (metis (no_types, lifting) add_less_cancel_left be_val_append length_Cons length_drop)
qed

lemma first_diff_less:
  "first_diff a b d \<Longrightarrow> as_bytes a ! d < as_bytes b ! d \<Longrightarrow> id_val a < id_val b"
  unfolding id_val_def first_diff_def by (rule be_val_first_diff) auto

lemma first_diff_greater:
  "first_diff a b d \<Longrightarrow> as_bytes b ! d < as_bytes a ! d \<Longrightarrow> id_val b < id_val a"
  using first_diff_less [of b a d] by (simp add: first_diff_def)

lemma cmp_id_val: "cmp a b = ord_cmp (id_val a) (id_val b)"
  using compare_meets_spec [of a b]
  by (auto simp: compare_spec_def cmp_def ord_cmp_def dest: first_diff_less first_diff_greater
      split: ComparisonResult.splits)

section \<open>The order\<close>

text \<open>\<^verbatim>\<open><\<close> and \<^verbatim>\<open><=\<close> are the provided methods of \<^verbatim>\<open>PartialOrd\<close>, read off \<^verbatim>\<open>partial_cmp\<close>.\<close>

instantiation Identifier :: linorder
begin

definition less_Identifier :: "Identifier \<Rightarrow> Identifier \<Rightarrow> bool" where
  "a < b \<longleftrightarrow> partial_cmp a b = Some Less"

definition less_eq_Identifier :: "Identifier \<Rightarrow> Identifier \<Rightarrow> bool" where
  "a \<le> b \<longleftrightarrow> partial_cmp a b = Some Less \<or> partial_cmp a b = Some Equal"

instance
  by standard
    (auto simp: less_Identifier_def less_eq_Identifier_def partial_cmp_def cmp_id_val
      ord_cmp_simps simp flip: id_val_inject)

end

lemma less_id_val [id_order]: "(a :: Identifier) < b \<longleftrightarrow> id_val a < id_val b"
  by (simp add: less_Identifier_def partial_cmp_def cmp_id_val ord_cmp_simps)

lemma less_eq_id_val [id_order]: "(a :: Identifier) \<le> b \<longleftrightarrow> id_val a \<le> id_val b"
  by (auto simp: less_eq_Identifier_def partial_cmp_def cmp_id_val ord_cmp_simps)

lemma id_val_bound: "id_val a < 2 ^ 256"
proof -
  have "id_val a < 256 ^ IDENTIFIER_SIZE_BYTES"
    using be_val_less [of "as_bytes a"] by (simp add: id_val_def)
  also have "(256 :: nat) ^ IDENTIFIER_SIZE_BYTES = 2 ^ 256"
    by (simp add: size_defs)
  finally show ?thesis .
qed

section \<open>Properties\<close>

text \<open>
  C24. \<^verbatim>\<open>Identifier::compare\<close> reports the first byte position at which the identifiers differ (32 when
  they are equal) and the order of the bytes there, and \<^verbatim>\<open>Ord::cmp\<close> built on it is the order of the
  256-bit big-endian numbers that the bytes spell.
\<close>

theorem compare_first_difference:
  "(case cmp_result (compare a b) of
      CompareEqual \<Rightarrow> a = b \<and> cmp_diff_index (compare a b) = IDENTIFIER_SIZE_BYTES
    | CompareLess \<Rightarrow> first_diff a b (cmp_diff_index (compare a b)) \<and>
        as_bytes a ! cmp_diff_index (compare a b) < as_bytes b ! cmp_diff_index (compare a b)
    | CompareGreater \<Rightarrow> first_diff a b (cmp_diff_index (compare a b)) \<and>
        as_bytes b ! cmp_diff_index (compare a b) < as_bytes a ! cmp_diff_index (compare a b)) \<and>
   cmp_left (compare a b) = a \<and> cmp_right (compare a b) = b \<and>
   cmp a b = ord_cmp (id_val a) (id_val b)"
  using compare_meets_spec [of a b] cmp_id_val [of a b] by (simp add: compare_spec_def)

text \<open>
  \<^verbatim>\<open>Identifier::from_bytes\<close> accepts exactly the slices of at most 32 bytes; it pads them with
  zeros on the left, which keeps the number they spell, and it inverts \<^verbatim>\<open>to_bytes\<close>.
\<close>

theorem from_bytes_pads:
  "(if length bs \<le> IDENTIFIER_SIZE_BYTES
    then \<exists>i. from_bytes bs = Ok i \<and> id_val i = be_val bs \<and>
      to_bytes i = replicate (IDENTIFIER_SIZE_BYTES - length bs) 0 @ bs
    else \<not> is_ok (from_bytes bs)) \<and>
   from_bytes (to_bytes j) = Ok j"
proof -
  have "\<exists>i. from_bytes bs = Ok i \<and> id_val i = be_val bs \<and>
      to_bytes i = replicate (IDENTIFIER_SIZE_BYTES - length bs) 0 @ bs"
    if "length bs \<le> IDENTIFIER_SIZE_BYTES"
    using ids.padded [OF that] by (auto simp: id_val_def to_bytes_as_bytes)
  then show ?thesis using ids.of_bytes_ok_iff [of bs] ids.of_bytes_bytes [of j] by auto
qed

text \<open>
  Printing the outcome of a comparison never panics: the slice up to the first difference
  exists whenever one is printed, and the text names both prefixes and the position.
\<close>

theorem comparison_prints:
  "cmp_display hex_encode (compare a b) =
     Some (let d = cmp_diff_index (compare a b) in
       case cmp_result (compare a b) of
         CompareEqual \<Rightarrow> hex_encode (as_bytes a) @ '' == '' @ hex_encode (as_bytes b)
       | CompareLess \<Rightarrow> hex_encode (take (Suc d) (as_bytes a)) @ '' < '' @
           hex_encode (take (Suc d) (as_bytes b)) @ '' (at byte '' @ fmt_nat d @ '')''
       | CompareGreater \<Rightarrow> hex_encode (take (Suc d) (as_bytes a)) @ '' > '' @
           hex_encode (take (Suc d) (as_bytes b)) @ '' (at byte '' @ fmt_nat d @ '')'')"
  using compare_meets_spec [of a b]
  by (auto simp: compare_spec_def cmp_display_def display_prefixes_def slice_to_def first_diff_def
      id_display_def Let_def split: ComparisonResult.splits)

end
