(* ===== verification/Mem_Vec.thy ===== *)
theory Mem_Vec
  imports Hex_Codec
begin

unbundle bit_operations_syntax

text \<open>
  \<^verbatim>\<open>src/core/model/memvec.rs\<close>: the 32-byte membership vector of a node. The bit-counting loop of
  \<^verbatim>\<open>common_prefix_bit\<close> is shown to be the length of the longest common prefix of the two 256-bit
  sequences; the algebra of shared prefixes (symmetry, the ultrametric inequality) follows and
  is what the link protocol relies on.
\<close>

section \<open>Definitions\<close>

datatype MembershipVector = MembershipVector bytes32

primrec mv_array :: "MembershipVector \<Rightarrow> bytes32" where
  "mv_array (MembershipVector b) = b"

definition mv_bytes :: "MembershipVector \<Rightarrow> u8 list" where
  "mv_bytes v = bytes_of (mv_array v)"

definition mv_from_bytes :: "u8 list \<Rightarrow> MembershipVector result" where
  "mv_from_bytes bs =
     (if length bs > IDENTIFIER_SIZE_BYTES
      then Err (MsgNat ''membership vector size is too large''
                  [IDENTIFIER_SIZE_BYTES, length bs])
      else Ok (MembershipVector (pad32 bs)))"

definition mv_from_string ::
  "(string \<Rightarrow> u8 list result) \<Rightarrow> string \<Rightarrow> MembershipVector result" where
  "mv_from_string hex_decode s =
     (case map_err ''failed to decode hex string'' (hex_decode s) of
        Err e \<Rightarrow> Err e
      | Ok bs \<Rightarrow> mv_from_bytes bs)"

definition mv_display :: "(u8 list \<Rightarrow> string) \<Rightarrow> MembershipVector \<Rightarrow> string" where
  "mv_display hex_encode v = hex_encode (mv_bytes v)"

text \<open>The loop of \<^verbatim>\<open>to_bit_string\<close>, with the string written so far as its accumulator.\<close>

fun bit_string_loop :: "(nat \<times> u8) list \<Rightarrow> string \<Rightarrow> string" where
  "bit_string_loop [] result = result"
| "bit_string_loop ((i, b) # rest) result =
     bit_string_loop rest ((if i > 0 then result @ '' '' else result) @ fmt_08b b)"

definition to_bit_string :: "MembershipVector \<Rightarrow> string" where
  "to_bit_string v = bit_string_loop (zip [0..<length (mv_bytes v)] (mv_bytes v)) []"

text \<open>
  The two nested loops of \<^verbatim>\<open>common_prefix_bit\<close>. The inner one either returns from the function
  (\<^term>\<open>Inl\<close>) or runs to its end with the count so far (\<^term>\<open>Inr\<close>).
\<close>

fun bit_loop :: "u8 \<Rightarrow> nat list \<Rightarrow> nat \<Rightarrow> nat + nat" where
  "bit_loop x [] common_bits = Inr common_bits"
| "bit_loop x (i # is) common_bits =
     (if x AND push_bit i 1 \<noteq> 0 then Inl common_bits
      else bit_loop x is (common_bits + 1))"

fun byte_loop :: "(u8 \<times> u8) list \<Rightarrow> nat \<Rightarrow> nat" where
  "byte_loop [] common_bits = common_bits"
| "byte_loop ((byte_a, byte_b) # rest) common_bits =
     (let x = byte_a XOR byte_b in
      if x = 0 then byte_loop rest (common_bits + 8)
      else (case bit_loop x (rev [0..<8]) common_bits of
              Inl r \<Rightarrow> r
            | Inr common_bits' \<Rightarrow> byte_loop rest common_bits'))"

definition common_prefix_bit :: "MembershipVector \<Rightarrow> MembershipVector \<Rightarrow> nat" where
  "common_prefix_bit a b = byte_loop (zip (mv_bytes a) (mv_bytes b)) 0"

text \<open>
  \<^verbatim>\<open>decompose_at_bit\<close>. Slicing or indexing past the array panics, which is the value \<^term>\<open>None\<close>.
\<close>

definition decompose_at_bit ::
  "(u8 list \<Rightarrow> string) \<Rightarrow> MembershipVector \<Rightarrow> nat \<Rightarrow> (string \<times> string \<times> string) option" where
  "decompose_at_bit hex_encode v bit_index =
     (let prefix_byte_index = bit_index div 8; bs = mv_bytes v in
      if prefix_byte_index \<ge> length bs then None
      else let left_prefix = take prefix_byte_index bs in
      if prefix_byte_index = IDENTIFIER_SIZE_BYTES - 1
      then Some (hex_encode left_prefix, fmt_08b (bs ! prefix_byte_index), [])
      else Some (hex_encode left_prefix, fmt_08b (bs ! prefix_byte_index),
                 hex_encode (drop (prefix_byte_index + 1) bs)))"

text \<open>The bits of a vector, most significant bit of the first byte first.\<close>

definition byte_bits :: "u8 \<Rightarrow> bool list" where
  "byte_bits b = map (bit b) (rev [0..<8])"

definition mv_bits :: "MembershipVector \<Rightarrow> bool list" where
  "mv_bits v = concat (map byte_bits (mv_bytes v))"

section \<open>Conversions\<close>

lemma length_mv_bytes [simp]: "length (mv_bytes v) = IDENTIFIER_SIZE_BYTES"
  by (simp add: mv_bytes_def)

lemma mv_bytes_inject [simp]: "mv_bytes a = mv_bytes b \<longleftrightarrow> a = b"
  by (cases a; cases b) (auto simp: mv_bytes_def dest: bytes32_eqI)

interpretation mvs: fixed_bytes mv_from_bytes mv_bytes
proof
  show "\<exists>x. mv_from_bytes bs = Ok x \<and>
      mv_bytes x = replicate (IDENTIFIER_SIZE_BYTES - length bs) 0 @ bs"
    if "length bs \<le> IDENTIFIER_SIZE_BYTES" for bs
    using that by (simp add: mv_from_bytes_def mv_bytes_def bytes_of_pad32)
qed (simp_all add: mv_from_bytes_def)

lemma mem_vec_printed:
  assumes "hex_codec hex_encode hex_decode"
  shows "printed_bytes hex_encode hex_decode mv_from_bytes mv_bytes
           (mv_from_string hex_decode) (mv_display hex_encode)"
  using assms mvs.fixed_bytes_axioms
  by (auto simp: printed_bytes_def printed_bytes_axioms_def mv_from_string_def mv_display_def
      split: sum.splits)

interpretation plain_mem_vec: printed_bytes plain_encode plain_decode mv_from_bytes mv_bytes
  "mv_from_string plain_decode" "mv_display plain_encode"
  by (rule mem_vec_printed) (rule plain.hex_codec_axioms)

section \<open>Longest common prefixes\<close>

definition lcp :: "'a list \<Rightarrow> 'a list \<Rightarrow> nat" where
  "lcp xs ys = length (takeWhile (\<lambda>(x, y). x = y) (zip xs ys))"

lemma lcp_simps [simp]:
  "lcp [] ys = 0"
  "lcp xs [] = 0"
  "lcp (x # xs) (y # ys) = (if x = y then Suc (lcp xs ys) else 0)"
  by (simp_all add: lcp_def)

lemma le_lcp_iff:
  "n \<le> lcp xs ys \<longleftrightarrow> n \<le> length xs \<and> n \<le> length ys \<and> take n xs = take n ys"
proof (induction xs arbitrary: ys n)
  case (Cons x xs)
  then show ?case by (cases ys; cases n) auto
qed auto

lemma lcp_append_same [simp]: "lcp (ps @ xs) (ps @ ys) = length ps + lcp xs ys"
  by (induction ps) simp_all

lemma lcp_append_diff:
  "length as = length bs \<Longrightarrow> as \<noteq> bs \<Longrightarrow> lcp (as @ xs) (bs @ ys) = lcp as bs"
  by (induction as bs rule: list_induct2) auto

lemma lcp_same [simp]: "lcp xs xs = length xs"
  by (induction xs) simp_all

section \<open>The loops compute the longest common prefix\<close>

lemma length_byte_bits [simp]: "length (byte_bits b) = 8"
  by (simp add: byte_bits_def)

lemma byte_bits_inject [simp]: "byte_bits a = byte_bits b \<longleftrightarrow> a = b"
  using fmt_08b_inject [of a b] parse_fmt_08b [of a] parse_fmt_08b [of b]
  by (auto simp: byte_bits_def fmt_08b_def)

lemma masked_bit: "(x :: u8) AND push_bit i 1 \<noteq> 0 \<longleftrightarrow> bit x i"
  by (simp only: bit_iff_and_push_bit_not_eq_0)

lemma bit_loop_Cons:
  "bit_loop x (i # is) c = (if bit x i then Inl c else bit_loop x is (c + 1))"
  by (simp only: bit_loop.simps masked_bit)

declare bit_loop.simps(2) [simp del] bit_loop_Cons [simp]

lemma bit_loop_lcp:
  assumes "\<exists>i \<in> set is. bit (a XOR b) i"
  shows "bit_loop (a XOR b) is c = Inl (c + lcp (map (bit a) is) (map (bit b) is))"
  using assms
proof (induction "is" arbitrary: c)
  case (Cons i "is")
  show ?case
  proof (cases "bit (a XOR b) i")
    case True
    then show ?thesis by (simp add: bit_xor_iff)
  next
    case False
    with Cons.prems have "\<exists>i \<in> set is. bit (a XOR b) i" by auto
    from Cons.IH [OF this, of "c + 1"] False show ?thesis
      by (simp add: bit_xor_iff)
  qed
qed simp

lemma xor_eq_0_iff [simp]: "(a :: u8) XOR b = 0 \<longleftrightarrow> a = b"
  by (auto simp: bit_eq_iff bit_xor_iff)

lemma differing_bit: "(a :: u8) \<noteq> b \<Longrightarrow> \<exists>i \<in> set (rev [0..<8]). bit (a XOR b) i"
proof -
  assume "a \<noteq> b"
  then have "byte_bits a \<noteq> byte_bits b" by simp
  then show ?thesis by (auto simp: byte_bits_def bit_xor_iff)
qed

lemma byte_loop_lcp:
  "byte_loop (zip xs ys) c = c + lcp (concat (map byte_bits xs)) (concat (map byte_bits ys))"
proof (induction xs arbitrary: ys c)
  case (Cons a xs)
  show ?case
  proof (cases ys)
    case (Cons b ys')
    show ?thesis
    proof (cases "a = b")
      case True
      then show ?thesis using Cons Cons.IH [of ys' "c + 8"] by simp
    next
      case False
      then show ?thesis using Cons bit_loop_lcp [OF differing_bit [OF False], of c]
        by (simp add: lcp_append_diff) (simp add: byte_bits_def)
    qed
  qed simp
qed simp

lemma common_prefix_bit_lcp: "common_prefix_bit a b = lcp (mv_bits a) (mv_bits b)"
  by (simp add: common_prefix_bit_def mv_bits_def byte_loop_lcp)

lemma length_concat_byte_bits: "length (concat (map byte_bits bs)) = 8 * length bs"
  by (induction bs) simp_all

lemma length_mv_bits [simp]: "length (mv_bits v) = 8 * IDENTIFIER_SIZE_BYTES"
  by (simp add: mv_bits_def length_concat_byte_bits)

lemma concat_byte_bits_inject:
  "length xs = length ys \<Longrightarrow>
   concat (map byte_bits xs) = concat (map byte_bits ys) \<longleftrightarrow> xs = ys"
  by (induction xs ys rule: list_induct2) auto

lemma mv_bits_inject [simp]: "mv_bits a = mv_bits b \<longleftrightarrow> a = b"
  by (simp add: mv_bits_def concat_byte_bits_inject)

text \<open>The form in which the protocol uses the count.\<close>

lemma shared_prefix_iff:
  "level \<le> common_prefix_bit a b \<longleftrightarrow>
   level \<le> 8 * IDENTIFIER_SIZE_BYTES \<and> take level (mv_bits a) = take level (mv_bits b)"
  by (auto simp: common_prefix_bit_lcp le_lcp_iff)

lemma shared_prefix_sym: "level \<le> common_prefix_bit a b \<Longrightarrow> level \<le> common_prefix_bit b a"
  by (simp add: shared_prefix_iff)

lemma shared_prefix_trans:
  "level \<le> common_prefix_bit a b \<Longrightarrow> level \<le> common_prefix_bit b c \<Longrightarrow>
   level \<le> common_prefix_bit a c"
  by (simp add: shared_prefix_iff)

section \<open>Printed bits\<close>

lemma fmt_08b_no_space: "filter (\<lambda>c. c \<noteq> CHR '' '') (fmt_08b b) = fmt_08b b"
  by (auto simp: filter_id_conv fmt_08b_def)

lemma bit_string_loop_bits:
  "parse_bits (filter (\<lambda>c. c \<noteq> CHR '' '') (bit_string_loop es acc)) =
   parse_bits (filter (\<lambda>c. c \<noteq> CHR '' '') acc) @ concat (map (\<lambda>(i, b). byte_bits b) es)"
proof (induction es arbitrary: acc)
  case (Cons e es)
  obtain i b where "e = (i, b)" by (cases e)
  then show ?case
    using Cons.IH parse_fmt_08b [of b]
    by (simp add: fmt_08b_no_space byte_bits_def) (simp add: parse_bits_def)
qed simp

lemma to_bit_string_bits:
  "parse_bits (filter (\<lambda>c. c \<noteq> CHR '' '') (to_bit_string v)) = mv_bits v"
proof -
  have "map (\<lambda>(i, b). byte_bits b) (zip [0..<length bs] bs) = map byte_bits bs" for bs :: "u8 list"
    by (rule nth_equalityI) simp_all
  then show ?thesis
    unfolding to_bit_string_def bit_string_loop_bits mv_bits_def by (simp only:) (simp add: parse_bits_def)
qed

lemma nth_concat_byte_bits:
  "i < 8 * length bs \<Longrightarrow> concat (map byte_bits bs) ! i = byte_bits (bs ! (i div 8)) ! (i mod 8)"
proof (induction bs arbitrary: i)
  case (Cons b bs)
  show ?case
  proof (cases "i < 8")
    case False
    then have "i div 8 = Suc ((i - 8) div 8)" "i mod 8 = (i - 8) mod 8"
      by (simp_all add: le_div_geq le_mod_geq)
    then show ?thesis using False Cons by (simp add: nth_append)
  qed (simp add: nth_append)
qed simp

lemma decompose_at_bit_parts:
  assumes "bit_index < 8 * IDENTIFIER_SIZE_BYTES"
  shows "\<exists>pivot right. decompose_at_bit hex_encode v bit_index =
      Some (hex_encode (take (bit_index div 8) (mv_bytes v)), pivot, right) \<and>
    parse_bits pivot ! (bit_index mod 8) = mv_bits v ! bit_index \<and>
    right = (if bit_index div 8 = IDENTIFIER_SIZE_BYTES - 1 then []
             else hex_encode (drop (bit_index div 8 + 1) (mv_bytes v)))"
proof -
  have "bit_index div 8 < IDENTIFIER_SIZE_BYTES" using assms by (simp add: div_less_iff_less_mult mult.commute)
  moreover have "parse_bits (fmt_08b (mv_bytes v ! (bit_index div 8))) ! (bit_index mod 8) =
      mv_bits v ! bit_index"
    using assms nth_concat_byte_bits [of bit_index "mv_bytes v"]
    by (simp add: mv_bits_def parse_fmt_08b byte_bits_def)
  ultimately show ?thesis by (auto simp: decompose_at_bit_def Let_def)
qed

lemma decompose_at_bit_panics:
  "8 * IDENTIFIER_SIZE_BYTES \<le> bit_index \<Longrightarrow> decompose_at_bit hex_encode v bit_index = None"
  by (simp add: decompose_at_bit_def Let_def less_eq_div_iff_mult_less_eq mult.commute)

section \<open>Properties\<close>

text \<open>
  C26. \<^verbatim>\<open>common_prefix_bit\<close>, two nested loops with an early return, counts exactly the bits of the
  longest common prefix of the two 256-bit sequences; the count is 256 only for equal vectors.
\<close>

theorem common_prefix_is_lcp:
  "common_prefix_bit a b = lcp (mv_bits a) (mv_bits b) \<and>
   common_prefix_bit a b \<le> 8 * IDENTIFIER_SIZE_BYTES \<and>
   (common_prefix_bit a b = 8 * IDENTIFIER_SIZE_BYTES \<longleftrightarrow> a = b)"
proof -
  have le: "common_prefix_bit a b \<le> 8 * IDENTIFIER_SIZE_BYTES"
    by (rule shared_prefix_iff [THEN iffD1, OF order_refl, THEN conjunct1])
  have "8 * IDENTIFIER_SIZE_BYTES \<le> common_prefix_bit a b \<longleftrightarrow> a = b"
    unfolding shared_prefix_iff by simp
  with le have "common_prefix_bit a b = 8 * IDENTIFIER_SIZE_BYTES \<longleftrightarrow> a = b" by linarith
  with le show ?thesis using common_prefix_bit_lcp [of a b] by blast
qed

text \<open>
  Sharing a prefix of a given length is an equivalence between vectors: the count is symmetric
  and satisfies the ultrametric inequality. Nodes of one level-\<open>l\<close> list therefore all share the
  list's prefix, which is what forwarding a link request relies on.
\<close>

theorem shared_prefix_equivalence:
  "common_prefix_bit a b = common_prefix_bit b a \<and>
   min (common_prefix_bit a b) (common_prefix_bit b c) \<le> common_prefix_bit a c"
proof
  show "common_prefix_bit a b = common_prefix_bit b a"
    by (rule antisym; rule shared_prefix_sym; rule order_refl)
  show "min (common_prefix_bit a b) (common_prefix_bit b c) \<le> common_prefix_bit a c"
    by (rule shared_prefix_trans [where b = b]) simp_all
qed

text \<open>
  \<^verbatim>\<open>decompose_at_bit\<close> splits a vector at the byte that holds the pivot bit: the pivot string shows
  that byte and has the bit at position \<open>index mod 8\<close>, the hex strings are the bytes on its sides;
  from bit 256 on, the value that two equal vectors share, it panics. \<^verbatim>\<open>to_bit_string\<close> shows all bits.
\<close>

theorem decompose_at_bit_total:
  "(if bit_index < 8 * IDENTIFIER_SIZE_BYTES
    then \<exists>pivot right. decompose_at_bit hex_encode v bit_index =
        Some (hex_encode (take (bit_index div 8) (mv_bytes v)), pivot, right) \<and>
      parse_bits pivot ! (bit_index mod 8) = mv_bits v ! bit_index \<and>
      right = (if bit_index div 8 = IDENTIFIER_SIZE_BYTES - 1 then []
               else hex_encode (drop (bit_index div 8 + 1) (mv_bytes v)))
    else decompose_at_bit hex_encode v bit_index = None) \<and>
   parse_bits (filter (\<lambda>c. c \<noteq> CHR '' '') (to_bit_string v)) = mv_bits v"
  using decompose_at_bit_parts [of bit_index hex_encode v]
    decompose_at_bit_panics [of bit_index hex_encode v] to_bit_string_bits [of v]
  by simp

end
