(* ===== verification/Messages.thy ===== *)
theory Messages
  imports Identifiers Mem_Vec
begin

text \<open>
  The plain data of the repository: directions (\<^verbatim>\<open>core/model/direction.rs\<close>), addresses and node
  identities (\<^verbatim>\<open>address.rs\<close>, \<^verbatim>\<open>identity.rs\<close>), nonces and the search and join payloads (\<^verbatim>\<open>search.rs\<close>,
  \<^verbatim>\<open>join.rs\<close>), and the \<^verbatim>\<open>Event\<close> enum that carries them (\<^verbatim>\<open>network/mod.rs\<close>). Constructors and fields
  follow the sources; a field carries a short prefix of its struct where several structs share
  the name.
\<close>

section \<open>Directions\<close>

datatype Direction = Left | Right

fun opposite :: "Direction \<Rightarrow> Direction" where
  "opposite Left = Right"
| "opposite Right = Left"

fun dir_display :: "Direction \<Rightarrow> string" where
  "dir_display Left = ''Left''"
| "dir_display Right = ''Right''"

section \<open>Addresses and identities\<close>

text \<open>
  \<^verbatim>\<open>str128\<close> and \<^verbatim>\<open>str8\<close> come from the \<^verbatim>\<open>fixedstr\<close> crate: their conversions from \<^verbatim>\<open>&str\<close> are parameters.
\<close>

record Address =
  host :: string
  port :: string

definition address_new ::
  "(string \<Rightarrow> string) \<Rightarrow> (string \<Rightarrow> string) \<Rightarrow> string \<Rightarrow> string \<Rightarrow> Address" where
  "address_new str128_from str8_from h p = \<lparr>host = str128_from h, port = str8_from p\<rparr>"

definition address_display :: "Address \<Rightarrow> string" where
  "address_display a = host a @ '':'' @ port a"

record Identity =
  ident_id :: Identifier
  ident_mem_vec :: MembershipVector
  ident_address :: Address

definition identity_new :: "Identifier \<Rightarrow> MembershipVector \<Rightarrow> Address \<Rightarrow> Identity" where
  "identity_new i v a = \<lparr>ident_id = i, ident_mem_vec = v, ident_address = a\<rparr>"

section \<open>Payloads\<close>

type_synonym LookupTableLevel = nat

datatype Nonce = Nonce "128 word"

record IdSearchReq =
  sreq_nonce :: Nonce
  sreq_target :: Identifier
  sreq_origin :: Identifier
  sreq_level :: LookupTableLevel
  sreq_direction :: Direction

record IdSearchRes =
  sres_nonce :: Nonce
  sres_target :: Identifier
  sres_termination_level :: LookupTableLevel
  sres_result :: Identifier

record MaxLevelReq =
  mlreq_nonce :: Nonce
  mlreq_origin :: Identifier

record MaxLevelRes =
  mlres_nonce :: Nonce
  mlres_max_level :: LookupTableLevel

record NeighborReq =
  nreq_nonce :: Nonce
  nreq_origin :: Identifier
  nreq_level :: LookupTableLevel
  nreq_direction :: Direction

record NeighborRes =
  nres_nonce :: Nonce
  nres_level :: LookupTableLevel
  nres_direction :: Direction
  nres_neighbor :: "Identity option"

record LinkReq =
  lreq_nonce :: Nonce
  lreq_candidate :: Identity
  lreq_dir :: Direction
  lreq_level :: LookupTableLevel

record LinkRes =
  lres_nonce :: Nonce
  lres_dir :: Direction
  lres_level :: LookupTableLevel
  lres_linked :: "Identity option"

record BuddyReq =
  breq_nonce :: Nonce
  breq_candidate :: Identity
  breq_dir :: Direction
  breq_level :: LookupTableLevel

record CheckNeighborReq =
  creq_nonce :: Nonce
  creq_claimant :: Identity
  creq_dir :: Direction
  creq_level :: LookupTableLevel

datatype Event =
    TestMessage string
  | SearchByIdRequest IdSearchReq
  | SearchByIdResponse IdSearchRes
  | GetMaxLevelOp MaxLevelReq
  | RetMaxLevelOp MaxLevelRes
  | GetNeighborOp NeighborReq
  | RetNeighborOp NeighborRes
  | GetLinkOp LinkReq
  | SetLinkOp LinkRes
  | BuddyOp BuddyReq
  | CheckNeighborOp CheckNeighborReq

section \<open>Sides\<close>

text \<open>
  \<open>beyond d a b\<close>: \<open>b\<close> lies on side \<open>d\<close> of \<open>a\<close>. It is the comparison that every direction-dependent
  test of the sources spells out case by case.
\<close>

definition beyond :: "Direction \<Rightarrow> Identifier \<Rightarrow> Identifier \<Rightarrow> bool" where
  "beyond d a b = (case d of Left \<Rightarrow> b < a | Right \<Rightarrow> a < b)"

lemma opposite_opposite [simp]: "opposite (opposite d) = d"
  by (cases d) simp_all

lemma opposite_neq [simp]: "opposite d \<noteq> d" "d \<noteq> opposite d"
  by (cases d; simp)+

lemma opposite_inject [simp]: "opposite d = opposite e \<longleftrightarrow> d = e"
  by (cases d; cases e) simp_all

lemma beyond_simps [simp]:
  "beyond Left a b \<longleftrightarrow> b < a"
  "beyond Right a b \<longleftrightarrow> a < b"
  by (simp_all add: beyond_def)

lemma beyond_opposite: "beyond (opposite d) a b \<longleftrightarrow> beyond d b a"
  by (cases d) simp_all

lemma beyond_irrefl [simp]: "\<not> beyond d a a"
  by (cases d) simp_all

lemma beyond_trans: "beyond d a b \<Longrightarrow> beyond d b c \<Longrightarrow> beyond d a c"
  by (cases d) auto

lemma beyond_asym: "beyond d a b \<Longrightarrow> \<not> beyond d b a"
  by (cases d) auto

lemma not_beyond: "\<not> beyond d a b \<longleftrightarrow> a = b \<or> beyond d b a"
  by (cases d) auto

lemma direction_all: "(\<forall>d. P d) \<longleftrightarrow> P Left \<and> P Right"
  by (metis Direction.exhaust)

lemma direction_ex: "(\<exists>d. P d) \<longleftrightarrow> P Left \<or> P Right"
  by (metis Direction.exhaust)

section \<open>Sample identities\<close>

text \<open>Small identifiers in order, for concrete instances of the theorems.\<close>

definition sample_id :: "nat \<Rightarrow> Identifier" where
  "sample_id n = Identifier (pad32 [word_of_nat n])"

definition sample_identity :: "nat \<Rightarrow> Identity" where
  "sample_identity n =
     identity_new (sample_id n) (MembershipVector (fill32 0)) \<lparr>host = ''localhost'', port = ''0''\<rparr>"

lemma id_val_sample: "n < 256 \<Longrightarrow> id_val (sample_id n) = n"
  by (simp add: sample_id_def id_val_pad32 size_defs unat_of_nat)

lemma sample_id_less [simp]: "n < 256 \<Longrightarrow> m < 256 \<Longrightarrow> sample_id n < sample_id m \<longleftrightarrow> n < m"
  by (simp add: less_id_val id_val_sample)

lemma sample_id_eq [simp]: "n < 256 \<Longrightarrow> m < 256 \<Longrightarrow> sample_id n = sample_id m \<longleftrightarrow> n = m"
  by (metis id_val_sample)

lemma ident_id_sample [simp]: "ident_id (sample_identity n) = sample_id n"
  by (simp add: sample_identity_def identity_new_def)

end
