(* ===== verification/Lookup_Table.thy ===== *)
theory Lookup_Table
  imports Messages
begin

text \<open>
  \<^verbatim>\<open>src/core/lookup\<close>: the \<^verbatim>\<open>LookupTable\<close> trait as a locale over its operations, and
  \<^verbatim>\<open>ArrayLookupTable\<close> as its implementation. The \<^verbatim>\<open>RwLock\<close> around the two vectors makes every
  operation one atomic step on the record below, so each is a function from the table to the
  new table and its result. The locale states the contract on the slots \<open>(level, direction)\<close>
  and holds the consequences that the node logic uses.
\<close>

section \<open>Definitions\<close>

definition LOOKUP_TABLE_LEVELS :: nat where
  [size_defs]: "LOOKUP_TABLE_LEVELS = IDENTIFIER_SIZE_BYTES * 8"

datatype LinkOutcome = LinkedDirectly | Forward Identity

datatype RelinkOutcome =
    AlreadyConsistent
  | RelinkForward Identity
  | Relinked "Identity option"

record InnerArrayLookupTable =
  lt_left :: "Identity option list"
  lt_right :: "Identity option list"

definition new_table :: InnerArrayLookupTable where
  "new_table =
     \<lparr>lt_left = replicate LOOKUP_TABLE_LEVELS None,
      lt_right = replicate LOOKUP_TABLE_LEVELS None\<rparr>"

text \<open>\<^verbatim>\<open>inner.left[level]\<close> and \<^verbatim>\<open>inner.right[level]\<close>, read and written.\<close>

definition read_slot ::
  "InnerArrayLookupTable \<Rightarrow> LookupTableLevel \<Rightarrow> Direction \<Rightarrow> Identity option" where
  "read_slot t level d = (case d of Left \<Rightarrow> lt_left t ! level | Right \<Rightarrow> lt_right t ! level)"

definition write_slot ::
  "InnerArrayLookupTable \<Rightarrow> LookupTableLevel \<Rightarrow> Direction \<Rightarrow> Identity option
   \<Rightarrow> InnerArrayLookupTable" where
  "write_slot t level d v =
     (case d of
        Left \<Rightarrow> t\<lparr>lt_left := (lt_left t)[level := v]\<rparr>
      | Right \<Rightarrow> t\<lparr>lt_right := (lt_right t)[level := v]\<rparr>)"

definition level_error :: "LookupTableLevel \<Rightarrow> 'a result" where
  "level_error level =
     Err (MsgNat ''position is larger than the max lookup table entry number'' [level])"

definition update_entry ::
  "InnerArrayLookupTable \<Rightarrow> Identity \<Rightarrow> LookupTableLevel \<Rightarrow> Direction
   \<Rightarrow> InnerArrayLookupTable \<times> unit result" where
  "update_entry t identity level d =
     (if level \<ge> LOOKUP_TABLE_LEVELS then (t, level_error level)
      else (write_slot t level d (Some identity), Ok ()))"

definition remove_entry ::
  "InnerArrayLookupTable \<Rightarrow> LookupTableLevel \<Rightarrow> Direction
   \<Rightarrow> InnerArrayLookupTable \<times> unit result" where
  "remove_entry t level d =
     (if level \<ge> LOOKUP_TABLE_LEVELS then (t, level_error level)
      else (write_slot t level d None, Ok ()))"

definition get_entry ::
  "InnerArrayLookupTable \<Rightarrow> LookupTableLevel \<Rightarrow> Direction \<Rightarrow> Identity option result" where
  "get_entry t level d =
     (if level \<ge> LOOKUP_TABLE_LEVELS then level_error level else Ok (read_slot t level d))"

text \<open>The three-way decision, arm by arm as in \<^verbatim>\<open>match (existing, direction)\<close>.\<close>

definition try_relink ::
  "InnerArrayLookupTable \<Rightarrow> LookupTableLevel \<Rightarrow> Direction \<Rightarrow> Identity
   \<Rightarrow> InnerArrayLookupTable \<times> RelinkOutcome result" where
  "try_relink t level d claimant =
     (if level \<ge> LOOKUP_TABLE_LEVELS then (t, level_error level)
      else (case read_slot t level d of
              Some existing \<Rightarrow>
                if existing = claimant then (t, Ok AlreadyConsistent)
                else if d = Right \<and> ident_id existing < ident_id claimant
                then (t, Ok (RelinkForward existing))
                else if d = Left \<and> ident_id existing > ident_id claimant
                then (t, Ok (RelinkForward existing))
                else (write_slot t level d (Some claimant), Ok (Relinked (Some existing)))
            | None \<Rightarrow> (write_slot t level d (Some claimant), Ok (Relinked None))))"

definition try_link ::
  "InnerArrayLookupTable \<Rightarrow> LookupTableLevel \<Rightarrow> Direction \<Rightarrow> Identity
   \<Rightarrow> InnerArrayLookupTable \<times> LinkOutcome result" where
  "try_link t level d candidate =
     (case try_relink t level d candidate of
        (t', Err e) \<Rightarrow> (t', Err e)
      | (t', Ok (RelinkForward existing)) \<Rightarrow> (t', Ok (Forward existing))
      | (t', Ok AlreadyConsistent) \<Rightarrow> (t', Ok LinkedDirectly)
      | (t', Ok (Relinked _)) \<Rightarrow> (t', Ok LinkedDirectly))"

fun neighbors_loop ::
  "(nat \<times> Identity option) list \<Rightarrow> (nat \<times> Identity) list \<Rightarrow> (nat \<times> Identity) list" where
  "neighbors_loop [] neighbors = neighbors"
| "neighbors_loop ((level, entry) # rest) neighbors =
     neighbors_loop rest
       (case entry of Some identity \<Rightarrow> neighbors @ [(level, identity)] | None \<Rightarrow> neighbors)"

definition left_neighbors :: "InnerArrayLookupTable \<Rightarrow> (nat \<times> Identity) list" where
  "left_neighbors t = neighbors_loop (zip [0..<length (lt_left t)] (lt_left t)) []"

definition right_neighbors :: "InnerArrayLookupTable \<Rightarrow> (nat \<times> Identity) list" where
  "right_neighbors t = neighbors_loop (zip [0..<length (lt_right t)] (lt_right t)) []"

definition max_populated_level :: "InnerArrayLookupTable \<Rightarrow> LookupTableLevel option" where
  "max_populated_level t =
     find (\<lambda>level. lt_left t ! level \<noteq> None \<or> lt_right t ! level \<noteq> None)
       (rev [0..<LOOKUP_TABLE_LEVELS])"

text \<open>The invariant of the two vectors, and the slots they hold.\<close>

definition wf_table :: "InnerArrayLookupTable \<Rightarrow> bool" where
  "wf_table t \<longleftrightarrow>
     length (lt_left t) = LOOKUP_TABLE_LEVELS \<and> length (lt_right t) = LOOKUP_TABLE_LEVELS"

definition slot ::
  "InnerArrayLookupTable \<Rightarrow> LookupTableLevel \<Rightarrow> Direction \<Rightarrow> Identity option" where
  "slot t level d = (if level < LOOKUP_TABLE_LEVELS then read_slot t level d else None)"

section \<open>The abstract decision\<close>

text \<open>
  The decision rule of the trait's documentation, on one slot: an occupant that lies strictly
  on the near side of the candidate keeps the slot.
\<close>

definition strictly_between :: "Direction \<Rightarrow> Identity \<Rightarrow> Identity \<Rightarrow> bool" where
  "strictly_between d existing candidate \<longleftrightarrow> beyond d (ident_id existing) (ident_id candidate)"

definition link_slot :: "Direction \<Rightarrow> Identity \<Rightarrow> Identity option \<Rightarrow> Identity option" where
  "link_slot d candidate s =
     (case s of
        Some existing \<Rightarrow> if strictly_between d existing candidate then s else Some candidate
      | None \<Rightarrow> Some candidate)"

definition link_outcome :: "Direction \<Rightarrow> Identity \<Rightarrow> Identity option \<Rightarrow> LinkOutcome" where
  "link_outcome d candidate s =
     (case s of
        Some existing \<Rightarrow>
          if strictly_between d existing candidate then Forward existing else LinkedDirectly
      | None \<Rightarrow> LinkedDirectly)"

definition relink_outcome :: "Direction \<Rightarrow> Identity \<Rightarrow> Identity option \<Rightarrow> RelinkOutcome" where
  "relink_outcome d claimant s =
     (if s = Some claimant then AlreadyConsistent
      else case s of
        Some existing \<Rightarrow>
          if strictly_between d existing claimant then RelinkForward existing
          else Relinked s
      | None \<Rightarrow> Relinked None)"

section \<open>The interface\<close>

locale lookup_table =
  fixes invar :: "'t \<Rightarrow> bool"
    and entry :: "'t \<Rightarrow> LookupTableLevel \<Rightarrow> Direction \<Rightarrow> Identity option"
    and get :: "'t \<Rightarrow> LookupTableLevel \<Rightarrow> Direction \<Rightarrow> Identity option result"
    and update :: "'t \<Rightarrow> Identity \<Rightarrow> LookupTableLevel \<Rightarrow> Direction \<Rightarrow> 't \<times> unit result"
    and remove :: "'t \<Rightarrow> LookupTableLevel \<Rightarrow> Direction \<Rightarrow> 't \<times> unit result"
    and link :: "'t \<Rightarrow> LookupTableLevel \<Rightarrow> Direction \<Rightarrow> Identity \<Rightarrow> 't \<times> LinkOutcome result"
    and relink :: "'t \<Rightarrow> LookupTableLevel \<Rightarrow> Direction \<Rightarrow> Identity \<Rightarrow> 't \<times> RelinkOutcome result"
    and max_level :: "'t \<Rightarrow> LookupTableLevel option"
    and levels :: nat
  assumes entry_bound: "invar t \<Longrightarrow> entry t l d \<noteq> None \<Longrightarrow> l < levels"
    and get_entry_law: "invar t \<Longrightarrow> l < levels \<Longrightarrow> get t l d = Ok (entry t l d)"
    and get_out_of_range: "levels \<le> l \<Longrightarrow> \<not> is_ok (get t l d)"
    and update_law: "invar t \<Longrightarrow> l < levels \<Longrightarrow> \<exists>t'. update t i l d = (t', Ok ()) \<and> invar t' \<and>
      entry t' = (\<lambda>l' d'. if l' = l \<and> d' = d then Some i else entry t l' d')"
    and remove_law: "invar t \<Longrightarrow> l < levels \<Longrightarrow> \<exists>t'. remove t l d = (t', Ok ()) \<and> invar t' \<and>
      entry t' = (\<lambda>l' d'. if l' = l \<and> d' = d then None else entry t l' d')"
    and link_law: "invar t \<Longrightarrow> l < levels \<Longrightarrow>
      \<exists>t'. link t l d c = (t', Ok (link_outcome d c (entry t l d))) \<and> invar t' \<and>
        entry t' = (\<lambda>l' d'. if l' = l \<and> d' = d then link_slot d c (entry t l d) else entry t l' d')"
    and relink_law: "invar t \<Longrightarrow> l < levels \<Longrightarrow>
      \<exists>t'. relink t l d c = (t', Ok (relink_outcome d c (entry t l d))) \<and> invar t' \<and>
        entry t' = (\<lambda>l' d'. if l' = l \<and> d' = d then link_slot d c (entry t l d) else entry t l' d')"
    and writes_out_of_range: "levels \<le> l \<Longrightarrow>
      fst (update t i l d) = t \<and> \<not> is_ok (snd (update t i l d)) \<and>
      fst (remove t l d) = t \<and> \<not> is_ok (snd (remove t l d)) \<and>
      fst (link t l d c) = t \<and> \<not> is_ok (snd (link t l d c)) \<and>
      fst (relink t l d c) = t \<and> \<not> is_ok (snd (relink t l d c))"
    and max_level_law: "invar t \<Longrightarrow>
      max_level t = Some l \<longleftrightarrow>
        (\<exists>d. entry t l d \<noteq> None) \<and> (\<forall>l' d. entry t l' d \<noteq> None \<longrightarrow> l' \<le> l)"
begin

lemma link_invar: "invar t \<Longrightarrow> invar (fst (link t l d c))"
  using link_law [of t l d c] writes_out_of_range [of l t c d] by (cases "l < levels") auto

lemma entry_link:
  "invar t \<Longrightarrow> l < levels \<Longrightarrow> entry (fst (link t l d c)) l' d' =
     (if l' = l \<and> d' = d then link_slot d c (entry t l d) else entry t l' d')"
  using link_law [of t l d c] by auto

lemma link_result: "invar t \<Longrightarrow> l < levels \<Longrightarrow> snd (link t l d c) = Ok (link_outcome d c (entry t l d))"
  using link_law [of t l d c] by auto

lemma get_after_update:
  assumes "invar t" "l < levels" "l' < levels"
  shows "get (fst (update t i l d)) l' d' = (if l' = l \<and> d' = d then Ok (Some i) else get t l' d')"
  using update_law [OF assms(1,2), of i d] get_entry_law [OF assms(1,3)] get_entry_law [OF _ assms(3)]
  by auto

lemma get_after_remove:
  assumes "invar t" "l < levels" "l' < levels"
  shows "get (fst (remove t l d)) l' d' = (if l' = l \<and> d' = d then Ok None else get t l' d')"
  using remove_law [OF assms(1,2), of d] get_entry_law [OF assms(1,3)] get_entry_law [OF _ assms(3)]
  by auto

text \<open>Linking and relinking differ in what they report, never in what they write.\<close>

lemma link_writes_like_relink:
  "invar t \<Longrightarrow> entry (fst (link t l d c)) = entry (fst (relink t l d c))"
proof (cases "l < levels")
  case True
  assume "invar t"
  with True show ?thesis using link_law [of t l d c] relink_law [of t l d c] by auto
next
  case False
  then show ?thesis using writes_out_of_range [of l t c d] by simp
qed

text \<open>A run of link requests on one slot, in any order, leaves a closest candidate in it.\<close>

lemma closest_after_links:
  assumes "invar t" "l < levels" "t' = fold (\<lambda>c t. fst (link t l d c)) cs t"
  shows "invar t' \<and>
    (\<forall>e. entry t' l d = Some e \<longrightarrow>
       Some e = entry t l d \<or> e \<in> set cs) \<and>
    (\<forall>e c. entry t' l d = Some e \<longrightarrow> c \<in> set cs \<or> entry t l d = Some c \<longrightarrow>
       \<not> strictly_between d c e) \<and>
    (cs \<noteq> [] \<or> entry t l d \<noteq> None \<longrightarrow> entry t' l d \<noteq> None)"
  using assms(1) unfolding assms(3)
proof (induction cs arbitrary: t)
  case Nil
  then show ?case by (auto simp: strictly_between_def)
next
  case (Cons c cs)
  let ?u = "fst (link t l d c)"
  have u: "invar ?u" "entry ?u l d = link_slot d c (entry t l d)"
    using Cons.prems assms(2) by (simp_all add: link_invar entry_link)
  have none: "link_slot d c s \<noteq> None" for s
    by (auto simp: link_slot_def split: option.splits)
  have from_slot: "Some e = link_slot d c s \<Longrightarrow> Some e = s \<or> e = c" for e s
    by (auto simp: link_slot_def split: option.splits if_splits)
  have near: "\<exists>x. link_slot d c s = Some x \<and>
      (\<forall>e. \<not> strictly_between d x e \<longrightarrow> \<not> strictly_between d c e \<and>
         (\<forall>y. s = Some y \<longrightarrow> \<not> strictly_between d y e))" for s
    by (cases s) (auto simp: link_slot_def strictly_between_def not_beyond dest: beyond_trans)
  show ?case
    using Cons.IH [OF u(1)] near [of "entry t l d"] from_slot none unfolding u(2)
    by simp metis
qed

end

section \<open>The array implementation meets the interface\<close>

lemma wf_new_table [simp]: "wf_table new_table"
  by (simp add: wf_table_def new_table_def)

lemma slot_new_table [slot_simps]: "slot new_table level d = None"
  by (simp add: slot_def read_slot_def new_table_def split: Direction.splits)

lemma wf_write_slot [simp]: "wf_table (write_slot t level d v) = wf_table t"
  by (cases d) (simp_all add: wf_table_def write_slot_def)

lemma slot_write_slot [slot_simps]:
  "wf_table t \<Longrightarrow> level < LOOKUP_TABLE_LEVELS \<Longrightarrow>
   slot (write_slot t level d v) l' d' = (if l' = level \<and> d' = d then v else slot t l' d')"
  by (cases d; cases d') (auto simp: slot_def read_slot_def write_slot_def wf_table_def)

lemma write_slot_same: "wf_table t \<Longrightarrow> write_slot t level d (read_slot t level d) = t"
  by (cases d) (simp_all add: write_slot_def read_slot_def)

lemma try_relink_decision:
  "wf_table t \<Longrightarrow> level < LOOKUP_TABLE_LEVELS \<Longrightarrow>
   try_relink t level d c =
     (write_slot t level d (link_slot d c (slot t level d)),
      Ok (relink_outcome d c (slot t level d)))"
  using write_slot_same [of t level d]
  by (cases d; cases "read_slot t level d")
    (auto simp: try_relink_def slot_def link_slot_def relink_outcome_def strictly_between_def)

lemma try_link_decision:
  "wf_table t \<Longrightarrow> level < LOOKUP_TABLE_LEVELS \<Longrightarrow>
   try_link t level d c =
     (write_slot t level d (link_slot d c (slot t level d)),
      Ok (link_outcome d c (slot t level d)))"
  by (auto simp: try_link_def try_relink_decision relink_outcome_def link_outcome_def
      strictly_between_def split: option.splits)

lemma relink_out_of_range:
  "LOOKUP_TABLE_LEVELS \<le> level \<Longrightarrow> try_relink t level d c = (t, level_error level)"
  by (simp add: try_relink_def)

lemma link_out_of_range:
  "LOOKUP_TABLE_LEVELS \<le> level \<Longrightarrow> try_link t level d c = (t, level_error level)"
  by (simp add: try_link_def relink_out_of_range level_error_def)

lemma find_rev_Some:
  "find P (rev [0..<n]) = Some k \<longleftrightarrow> k < n \<and> P k \<and> (\<forall>j. k < j \<and> j < n \<longrightarrow> \<not> P j)"
proof (induction n)
  case (Suc n)
  then show ?case
    by (auto simp: less_Suc_eq)
qed simp

lemma max_populated_level_Some:
  "max_populated_level t = Some l \<longleftrightarrow>
     (\<exists>d. slot t l d \<noteq> None) \<and> (\<forall>l' d. slot t l' d \<noteq> None \<longrightarrow> l' \<le> l)"
proof -
  have ex: "(\<exists>d. slot t k d \<noteq> None) \<longleftrightarrow>
      k < LOOKUP_TABLE_LEVELS \<and> (lt_left t ! k \<noteq> None \<or> lt_right t ! k \<noteq> None)" for k
    by (auto simp: direction_ex slot_def read_slot_def)
  show ?thesis
    unfolding max_populated_level_def find_rev_Some
    using ex by (metis not_less)
qed

interpretation arr: lookup_table wf_table slot get_entry update_entry remove_entry try_link
  try_relink max_populated_level LOOKUP_TABLE_LEVELS
proof
  show "slot t l d \<noteq> None \<Longrightarrow> l < LOOKUP_TABLE_LEVELS" for t l d
    by (simp add: slot_def split: if_splits)
  show "l < LOOKUP_TABLE_LEVELS \<Longrightarrow> get_entry t l d = Ok (slot t l d)" for t l d
    by (simp add: get_entry_def slot_def)
qed (auto simp: get_entry_def update_entry_def remove_entry_def try_link_decision
    try_relink_decision max_populated_level_Some slot_simps level_error_def fun_eq_iff
    relink_out_of_range link_out_of_range)

section \<open>Enumeration of neighbours\<close>

lemma neighbors_loop_eq:
  "neighbors_loop es acc =
   acc @ List.map_filter (\<lambda>(level, entry). map_option (Pair level) entry) es"
  by (induction es acc rule: neighbors_loop.induct)
    (simp_all add: List.map_filter_simps split: option.splits)

text \<open>The levels of an enumeration rise strictly, and it holds exactly the occupied slots.\<close>

lemma neighbors_enumerate:
  fixes xs :: "Identity option list"
  defines "ns \<equiv> neighbors_loop (zip [0..<length xs] xs) []"
  shows "sorted_wrt (<) (map fst ns)"
    and "(l, e) \<in> set ns \<longleftrightarrow> l < length xs \<and> xs ! l = Some e"
proof -
  have eq: "neighbors_loop (zip [0..<length xs] xs) [] =
      [(i, the (xs ! i)). i \<leftarrow> [0..<length xs], xs ! i \<noteq> None]" for xs :: "Identity option list"
  proof (induction xs rule: rev_induct)
    case (snoc x xs)
    have "[(i, the ((xs @ [x]) ! i)). i \<leftarrow> [0..<length xs], (xs @ [x]) ! i \<noteq> None] =
        [(i, the (xs ! i)). i \<leftarrow> [0..<length xs], xs ! i \<noteq> None]"
      by (intro arg_cong [of _ _ concat] map_cong) (simp_all add: nth_append)
    with snoc show ?case
      by (cases x) (simp_all add: neighbors_loop_eq List.map_filter_def)
  qed simp
  have fsts: "map fst [(i, the (xs ! i)). i \<leftarrow> is, xs ! i \<noteq> None] = filter (\<lambda>i. xs ! i \<noteq> None) is"
    for "is" and xs :: "Identity option list"
    by (induction "is") simp_all
  show "sorted_wrt (<) (map fst ns)"
    unfolding ns_def eq fsts by (rule sorted_wrt_filter) (rule sorted_wrt_upt)
  show "(l, e) \<in> set ns \<longleftrightarrow> l < length xs \<and> xs ! l = Some e"
    unfolding ns_def eq by force
qed

lemma left_neighbors_slots:
  "wf_table t \<Longrightarrow> (l, e) \<in> set (left_neighbors t) \<longleftrightarrow> slot t l Left = Some e"
  unfolding left_neighbors_def neighbors_enumerate
  by (auto simp: wf_table_def slot_def read_slot_def)

lemma right_neighbors_slots:
  "wf_table t \<Longrightarrow> (l, e) \<in> set (right_neighbors t) \<longleftrightarrow> slot t l Right = Some e"
  unfolding right_neighbors_def neighbors_enumerate
  by (auto simp: wf_table_def slot_def read_slot_def)

section \<open>Properties\<close>

text \<open>
  C18. \<^verbatim>\<open>try_link\<close> implements the rule of the protocol document for every level of the table: an
  occupant strictly between the owner and the candidate keeps the slot and is reported as
  \<^verbatim>\<open>Forward\<close>; otherwise the candidate takes the slot. No other slot changes.
\<close>

theorem try_link_rule:
  assumes "wf_table t" "level < LOOKUP_TABLE_LEVELS"
  shows "\<exists>t'. try_link t level d candidate =
      (t', Ok (case slot t level d of
           Some existing \<Rightarrow>
             if beyond d (ident_id existing) (ident_id candidate) then Forward existing
             else LinkedDirectly
         | None \<Rightarrow> LinkedDirectly)) \<and>
    wf_table t' \<and>
    (\<forall>l dir. slot t' l dir =
       (if l = level \<and> dir = d
        then case slot t level d of
               Some existing \<Rightarrow>
                 if beyond d (ident_id existing) (ident_id candidate) then Some existing
                 else Some candidate
             | None \<Rightarrow> Some candidate
        else slot t l dir))"
  using arr.link_law [OF assms, of d candidate]
  by (auto simp: link_outcome_def link_slot_def strictly_between_def split: option.splits)

theorem try_link_rule_witness:
  "wf_table new_table \<and> 3 < LOOKUP_TABLE_LEVELS \<and>
   (\<exists>t'. try_link new_table 3 Right (sample_identity 7) = (t', Ok LinkedDirectly) \<and>
      slot t' 3 Right = Some (sample_identity 7) \<and> slot t' 3 Left = None)"
  using try_link_rule [of new_table 3 Right "sample_identity 7"]
  by (auto simp: slot_simps size_defs)

text \<open>
  C19. \<^verbatim>\<open>try_relink\<close> makes the same choice as \<^verbatim>\<open>try_link\<close> and writes the same table; it tells an entry
  that already is the claimant apart, and reports what a claimant has evicted.
\<close>

theorem try_relink_rule:
  assumes "wf_table t" "level < LOOKUP_TABLE_LEVELS"
  shows "try_relink t level d claimant =
    (fst (try_link t level d claimant),
     Ok (if slot t level d = Some claimant then AlreadyConsistent
         else case slot t level d of
           Some existing \<Rightarrow>
             if beyond d (ident_id existing) (ident_id claimant) then RelinkForward existing
             else Relinked (Some existing)
         | None \<Rightarrow> Relinked None))"
  using try_relink_decision [OF assms, of d claimant] try_link_decision [OF assms, of d claimant]
  by (auto simp: relink_outcome_def strictly_between_def split: option.splits)

theorem try_relink_rule_witness:
  "wf_table new_table \<and> 0 < LOOKUP_TABLE_LEVELS \<and>
   try_relink new_table 0 Left (sample_identity 7) =
     (fst (try_link new_table 0 Left (sample_identity 7)), Ok (Relinked None))"
  using try_relink_rule [of new_table 0 Left "sample_identity 7"]
  by (simp add: slot_simps size_defs)

text \<open>
  C20. Any run of link requests on one slot, in any order, leaves one of the candidates or the old
  occupant in it, and none of them lies strictly closer to the owner than the one it leaves.
\<close>

theorem links_leave_closest:
  assumes "wf_table t" "level < LOOKUP_TABLE_LEVELS" "cs \<noteq> []"
  shows "\<exists>e. slot (fold (\<lambda>c t. fst (try_link t level d c)) cs t) level d = Some e \<and>
    e \<in> set cs \<union> set_option (slot t level d) \<and>
    (\<forall>c \<in> set cs \<union> set_option (slot t level d). \<not> beyond d (ident_id c) (ident_id e))"
  using arr.closest_after_links [OF assms(1,2) refl, of d cs] assms(3)
  by (auto simp: strictly_between_def)

theorem links_leave_closest_witness:
  "\<exists>e. slot (fold (\<lambda>c t. fst (try_link t 0 Right c)) [sample_identity 9, sample_identity 4] new_table)
      0 Right = Some e \<and> \<not> beyond Right (sample_id 9) (ident_id e) \<and>
    \<not> beyond Right (sample_id 4) (ident_id e)"
  using links_leave_closest [of new_table 0 "[sample_identity 9, sample_identity 4]" Right]
  by (auto simp: size_defs)

text \<open>
  C21. Reads after writes: \<^verbatim>\<open>update_entry\<close> and \<^verbatim>\<open>remove_entry\<close> change what \<^verbatim>\<open>get_entry\<close> returns for their
  own slot to the new value and leave every other slot alone.
\<close>

theorem table_round_trip:
  assumes "wf_table t" "level < LOOKUP_TABLE_LEVELS" "l < LOOKUP_TABLE_LEVELS"
  shows "get_entry (fst (update_entry t identity level d)) l dir =
      (if l = level \<and> dir = d then Ok (Some identity) else get_entry t l dir) \<and>
    get_entry (fst (remove_entry t level d)) l dir =
      (if l = level \<and> dir = d then Ok None else get_entry t l dir)"
  using arr.get_after_update [OF assms] arr.get_after_remove [OF assms] by simp

theorem table_round_trip_witness:
  "get_entry (fst (update_entry new_table (sample_identity 7) 255 Left)) 255 Left =
     Ok (Some (sample_identity 7)) \<and>
   get_entry (fst (remove_entry new_table 255 Left)) 255 Left = Ok None"
  using table_round_trip [of new_table 255 255 "sample_identity 7" Left Left]
  by (simp add: size_defs)

text \<open>
  C22. At level 256 and above every operation reports an error and no operation changes the table.
\<close>

theorem out_of_range_rejected:
  assumes "LOOKUP_TABLE_LEVELS \<le> level"
  shows "\<not> is_ok (get_entry t level d) \<and>
    fst (update_entry t e level d) = t \<and> \<not> is_ok (snd (update_entry t e level d)) \<and>
    fst (remove_entry t level d) = t \<and> \<not> is_ok (snd (remove_entry t level d)) \<and>
    fst (try_link t level d e) = t \<and> \<not> is_ok (snd (try_link t level d e)) \<and>
    fst (try_relink t level d e) = t \<and> \<not> is_ok (snd (try_relink t level d e))"
  using arr.get_out_of_range [OF assms] arr.writes_out_of_range [OF assms] by blast

theorem out_of_range_rejected_witness:
  "\<not> is_ok (get_entry new_table 256 Right) \<and>
   fst (try_link new_table 256 Right (sample_identity 1)) = new_table"
  using out_of_range_rejected [of 256 new_table Right "sample_identity 1"]
  by (simp add: size_defs)

text \<open>
  \<^verbatim>\<open>max_populated_level\<close> is the greatest level with an entry on either side, and \<^verbatim>\<open>None\<close> exactly for
  a table without entries.
\<close>

theorem max_level_is_highest:
  "max_populated_level t =
     (if \<exists>l d. slot t l d \<noteq> None then Some (Max {l. \<exists>d. slot t l d \<noteq> None}) else None)"
proof (cases "max_populated_level t")
  case None
  have "\<not> (\<exists>l d. slot t l d \<noteq> None)"
  proof
    assume ex: "\<exists>l d. slot t l d \<noteq> None"
    let ?L = "{l. \<exists>d. slot t l d \<noteq> None}"
    have fin: "finite ?L"
      by (rule finite_subset [of _ "{..<LOOKUP_TABLE_LEVELS}"]) (auto simp: slot_def split: if_splits)
    then have "Max ?L \<in> ?L" using ex by (intro Max_in) auto
    moreover have "l \<le> Max ?L" if "slot t l d \<noteq> None" for l d
      using that by (intro Max_ge [OF fin]) auto
    ultimately have "max_populated_level t = Some (Max ?L)"
      unfolding max_populated_level_Some by simp
    then show False using None by simp
  qed
  then show ?thesis using None by simp
next
  case (Some l)
  then have l: "\<exists>d. slot t l d \<noteq> None" "\<And>l' d. slot t l' d \<noteq> None \<Longrightarrow> l' \<le> l"
    unfolding max_populated_level_Some by blast+
  have "Max {l. \<exists>d. slot t l d \<noteq> None} = l"
  proof (rule Max_eqI)
    show "finite {l. \<exists>d. slot t l d \<noteq> None}"
      by (rule finite_subset [of _ "{..l}"]) (use l(2) in blast, simp)
    show "\<And>k. k \<in> {l. \<exists>d. slot t l d \<noteq> None} \<Longrightarrow> k \<le> l" using l(2) by blast
    show "l \<in> {l. \<exists>d. slot t l d \<noteq> None}" using l(1) by blast
  qed
  then show ?thesis using l(1) Some by auto
qed

text \<open>
  \<^verbatim>\<open>left_neighbors\<close> and \<^verbatim>\<open>right_neighbors\<close> list exactly the occupied slots of their side, each once,
  by rising level.
\<close>

theorem neighbors_enumerated:
  assumes "wf_table t"
  shows "((l, e) \<in> set (left_neighbors t) \<longleftrightarrow> slot t l Left = Some e) \<and>
    ((l, e) \<in> set (right_neighbors t) \<longleftrightarrow> slot t l Right = Some e) \<and>
    sorted_wrt (<) (map fst (left_neighbors t)) \<and> sorted_wrt (<) (map fst (right_neighbors t))"
  using left_neighbors_slots [OF assms, of l e] right_neighbors_slots [OF assms, of l e]
    neighbors_enumerate(1) [of "lt_left t"] neighbors_enumerate(1) [of "lt_right t"]
  unfolding left_neighbors_def right_neighbors_def by blast

theorem neighbors_enumerated_witness:
  "(5, sample_identity 7) \<in> set (left_neighbors (write_slot new_table 5 Left (Some (sample_identity 7))))"
  using neighbors_enumerated [of "write_slot new_table 5 Left (Some (sample_identity 7))"
      5 "sample_identity 7"]
  by (simp add: slot_simps size_defs)

end
