(* ===== verification/Base_Core.thy ===== *)
theory Base_Core
  imports Lookup_Table
begin

text \<open>
  \<^verbatim>\<open>src/node/core.rs\<close>: \<^verbatim>\<open>BaseCore\<close>, the local algorithms of one node over its own lookup table. The
  local search is described by the entries it may choose from and by the one it picks.
\<close>

section \<open>Definitions\<close>

record BaseCore =
  core_id :: Identifier
  core_mem_vec :: MembershipVector
  core_lt :: InnerArrayLookupTable

definition core_new ::
  "Identifier \<Rightarrow> MembershipVector \<Rightarrow> InnerArrayLookupTable \<Rightarrow> BaseCore" where
  "core_new i v t = \<lparr>core_id = i, core_mem_vec = v, core_lt = t\<rparr>"

text \<open>
  \<^verbatim>\<open>filter_map\<close> over the levels, then \<^verbatim>\<open>collect\<close> into a \<^verbatim>\<open>Result\<close>: the first failing level ends it.
\<close>

fun collect_candidates ::
  "InnerArrayLookupTable \<Rightarrow> Direction \<Rightarrow> nat list \<Rightarrow> (Identifier \<times> nat) list result" where
  "collect_candidates t d [] = Ok []"
| "collect_candidates t d (lvl # rest) =
     (case get_entry t lvl d of
        Ok (Some identity) \<Rightarrow>
          (case collect_candidates t d rest of
             Ok cs \<Rightarrow> Ok ((ident_id identity, lvl) # cs)
           | Err e \<Rightarrow> Err e)
      | Ok None \<Rightarrow> collect_candidates t d rest
      | Err e \<Rightarrow> Err (Context (''error while searching by id in level '' @ fmt_nat lvl) e))"

text \<open>
  \<^verbatim>\<open>Iterator::min_by_key\<close> returns the first of several minima and \<^verbatim>\<open>max_by_key\<close> the last of several
  maxima.
\<close>

fun min_by_key :: "('a \<Rightarrow> 'k::linorder) \<Rightarrow> 'a list \<Rightarrow> 'a option" where
  "min_by_key f [] = None"
| "min_by_key f (x # xs) = Some (fold (\<lambda>y m. if f y < f m then y else m) xs x)"

fun max_by_key :: "('a \<Rightarrow> 'k::linorder) \<Rightarrow> 'a list \<Rightarrow> 'a option" where
  "max_by_key f [] = None"
| "max_by_key f (x # xs) = Some (fold (\<lambda>y m. if f m \<le> f y then y else m) xs x)"

definition pick_candidate ::
  "Direction \<Rightarrow> Identifier \<Rightarrow> (Identifier \<times> nat) list \<Rightarrow> (Identifier \<times> nat) option" where
  "pick_candidate d target candidates =
     (case d of
        Left \<Rightarrow> min_by_key fst (filter (\<lambda>(i, _). i \<ge> target) candidates)
      | Right \<Rightarrow> max_by_key fst (filter (\<lambda>(i, _). i \<le> target) candidates))"

definition core_search_by_id :: "BaseCore \<Rightarrow> IdSearchReq \<Rightarrow> IdSearchRes result" where
  "core_search_by_id c req =
     (case collect_candidates (core_lt c) (sreq_direction req) [0..<Suc (sreq_level req)] of
        Err e \<Rightarrow> Err e
      | Ok candidates \<Rightarrow>
          (case pick_candidate (sreq_direction req) (sreq_target req) candidates of
             Some (i, level) \<Rightarrow>
               Ok \<lparr>sres_nonce = sreq_nonce req, sres_target = sreq_target req,
                   sres_termination_level = level, sres_result = i\<rparr>
           | None \<Rightarrow>
               Ok \<lparr>sres_nonce = sreq_nonce req, sres_target = sreq_target req,
                   sres_termination_level = 0, sres_result = core_id c\<rparr>))"

text \<open>\<^verbatim>\<open>todo!()\<close> panics on every call: \<^term>\<open>None\<close>.\<close>

definition core_search_by_mem_vec :: "BaseCore \<Rightarrow> IdSearchReq \<Rightarrow> IdSearchRes result option" where
  "core_search_by_mem_vec c req = None"

definition core_max_level :: "BaseCore \<Rightarrow> LookupTableLevel result" where
  "core_max_level c = Ok (case max_populated_level (core_lt c) of Some l \<Rightarrow> l | None \<Rightarrow> 0)"

definition core_neighbor_entry ::
  "BaseCore \<Rightarrow> LookupTableLevel \<Rightarrow> Direction \<Rightarrow> Identity option result" where
  "core_neighbor_entry c level d = get_entry (core_lt c) level d"

definition core_prefix_match :: "BaseCore \<Rightarrow> MembershipVector \<Rightarrow> LookupTableLevel \<Rightarrow> bool" where
  "core_prefix_match c candidate level \<longleftrightarrow> common_prefix_bit (core_mem_vec c) candidate \<ge> level"

definition core_try_link ::
  "BaseCore \<Rightarrow> LookupTableLevel \<Rightarrow> Direction \<Rightarrow> Identity \<Rightarrow> BaseCore \<times> LinkOutcome result" where
  "core_try_link c level d candidate =
     (let (t, r) = try_link (core_lt c) level d candidate in (c\<lparr>core_lt := t\<rparr>, r))"

definition core_try_relink ::
  "BaseCore \<Rightarrow> LookupTableLevel \<Rightarrow> Direction \<Rightarrow> Identity \<Rightarrow> BaseCore \<times> RelinkOutcome result" where
  "core_try_relink c level d claimant =
     (let (t, r) = try_relink (core_lt c) level d claimant in (c\<lparr>core_lt := t\<rparr>, r))"

section \<open>Picking from a list\<close>

lemma min_by_key_fold:
  fixes f :: "'a \<Rightarrow> 'k::linorder"
  shows "fold (\<lambda>y m. if f y < f m then y else m) xs x \<in> set (x # xs) \<and>
   (\<forall>y \<in> set (x # xs). f (fold (\<lambda>y m. if f y < f m then y else m) xs x) \<le> f y)"
proof (induction xs arbitrary: x)
  case (Cons z xs)
  show ?case using Cons.IH [of "if f z < f x then z else x"] by (auto split: if_splits)
qed simp

lemma max_by_key_fold:
  fixes f :: "'a \<Rightarrow> 'k::linorder"
  shows "fold (\<lambda>y m. if f m \<le> f y then y else m) xs x \<in> set (x # xs) \<and>
   (\<forall>y \<in> set (x # xs). f y \<le> f (fold (\<lambda>y m. if f m \<le> f y then y else m) xs x))"
proof (induction xs arbitrary: x)
  case (Cons z xs)
  show ?case using Cons.IH [of "if f x \<le> f z then z else x"] by (auto split: if_splits)
qed simp

lemma min_by_key_Some:
  "min_by_key f xs = Some x \<Longrightarrow> x \<in> set xs \<and> (\<forall>y \<in> set xs. f x \<le> f y)"
  by (cases xs) (use min_by_key_fold in fastforce)+

lemma max_by_key_Some:
  "max_by_key f xs = Some x \<Longrightarrow> x \<in> set xs \<and> (\<forall>y \<in> set xs. f y \<le> f x)"
  by (cases xs) (use max_by_key_fold in fastforce)+

lemma by_key_None [simp]:
  "min_by_key f xs = None \<longleftrightarrow> xs = []"
  "max_by_key f xs = None \<longleftrightarrow> xs = []"
  by (cases xs; simp)+

text \<open>
  Ties. Over a list that is sorted by a second key, the minimum picked has the least second key
  among the minima and the maximum picked the greatest among the maxima.
\<close>

lemma min_by_key_first:
  fixes f :: "'a \<Rightarrow> 'k::linorder" and g :: "'a \<Rightarrow> 'l::linorder"
  assumes "sorted (map g (x # xs))"
  shows "y \<in> set (x # xs) \<Longrightarrow> f y = f (fold (\<lambda>y m. if f y < f m then y else m) xs x) \<Longrightarrow>
    g (fold (\<lambda>y m. if f y < f m then y else m) xs x) \<le> g y"
  using assms
proof (induction xs arbitrary: x y)
  case (Cons z xs)
  let ?x = "if f z < f x then z else x"
  let ?m = "fold (\<lambda>y m. if f y < f m then y else m) xs ?x"
  have srt: "sorted (map g (?x # xs))" using Cons.prems(3) by auto
  have min: "f ?m \<le> f ?x" using min_by_key_fold [where f = f and xs = xs and x = ?x] by simp
  show ?case
  proof (cases "y \<in> set (?x # xs)")
    case True
    then show ?thesis using Cons.IH [OF True _ srt] Cons.prems(2) by simp
  next
    case False
    then have "f ?x \<le> f y \<and> g ?x \<le> g y \<or> f ?x < f y"
      using Cons.prems(1,3) by (auto split: if_splits)
    then show ?thesis
      using Cons.IH [of ?x ?x] srt min Cons.prems(2) by fastforce
  qed
qed simp

lemma max_by_key_last:
  fixes f :: "'a \<Rightarrow> 'k::linorder" and g :: "'a \<Rightarrow> 'l::linorder"
  assumes "sorted (map g (x # xs))"
  shows "y \<in> set (x # xs) \<Longrightarrow> f y = f (fold (\<lambda>y m. if f m \<le> f y then y else m) xs x) \<Longrightarrow>
    g y \<le> g (fold (\<lambda>y m. if f m \<le> f y then y else m) xs x)"
  using assms
proof (induction xs arbitrary: x y)
  case (Cons z xs)
  let ?x = "if f x \<le> f z then z else x"
  let ?m = "fold (\<lambda>y m. if f m \<le> f y then y else m) xs ?x"
  have srt: "sorted (map g (?x # xs))" using Cons.prems(3) by auto
  have max: "f ?x \<le> f ?m" using max_by_key_fold [where f = f and xs = xs and x = ?x] by simp
  show ?case
  proof (cases "y \<in> set (?x # xs)")
    case True
    then show ?thesis using Cons.IH [OF True _ srt] Cons.prems(2) by simp
  next
    case False
    then have "f y \<le> f ?x \<and> g y \<le> g ?x \<or> f y < f ?x"
      using Cons.prems(1,3) by (auto split: if_splits)
    then show ?thesis
      using Cons.IH [of ?x ?x] srt max Cons.prems(2) by fastforce
  qed
qed simp

section \<open>The local search\<close>

lemma collect_candidates_ok:
  "wf_table t \<Longrightarrow> \<forall>l \<in> set ls. l < LOOKUP_TABLE_LEVELS \<Longrightarrow>
   collect_candidates t d ls =
     Ok (List.map_filter (\<lambda>l. map_option (\<lambda>e. (ident_id e, l)) (slot t l d)) ls)"
  by (induction ls)
    (auto simp: arr.get_entry_law List.map_filter_simps split: option.splits)

lemma collect_candidates_error:
  "\<exists>l \<in> set ls. LOOKUP_TABLE_LEVELS \<le> l \<Longrightarrow> \<not> is_ok (collect_candidates t d ls)"
proof (induction ls)
  case (Cons l ls)
  show ?case
  proof (cases "LOOKUP_TABLE_LEVELS \<le> l")
    case True
    then show ?thesis by (simp add: get_entry_def level_error_def)
  next
    case False
    then have "\<not> is_ok (collect_candidates t d ls)" using Cons by auto
    then show ?thesis by (auto simp: is_ok_iff split: sum.splits option.splits)
  qed
qed simp

lemma set_candidates:
  "(i, l) \<in> set (List.map_filter (\<lambda>l. map_option (\<lambda>e. (ident_id e, l)) (f l)) ls) \<longleftrightarrow>
   l \<in> set ls \<and> (\<exists>e. f l = Some e \<and> ident_id e = i)"
  by (induction ls) (auto simp: List.map_filter_simps split: option.splits)

lemma sorted_candidates:
  "sorted ls \<Longrightarrow>
   sorted (map snd (List.map_filter (\<lambda>l. map_option (\<lambda>e. (ident_id e, l)) (f l)) ls))"
proof (induction ls)
  case (Cons l ls)
  then show ?case using set_candidates [of _ _ f ls]
    by (fastforce simp: List.map_filter_simps split: option.splits)
qed (simp add: List.map_filter_simps)

text \<open>An entry that the search may choose, and the choice.\<close>

definition eligible ::
  "BaseCore \<Rightarrow> Direction \<Rightarrow> LookupTableLevel \<Rightarrow> Identifier \<Rightarrow> Identifier \<Rightarrow> LookupTableLevel \<Rightarrow> bool"
where
  "eligible c d level target i l \<longleftrightarrow>
     l \<le> level \<and> (\<exists>e. slot (core_lt c) l d = Some e \<and> ident_id e = i) \<and> \<not> beyond d target i"

definition closest_eligible ::
  "BaseCore \<Rightarrow> Direction \<Rightarrow> LookupTableLevel \<Rightarrow> Identifier \<Rightarrow> Identifier \<Rightarrow> LookupTableLevel \<Rightarrow> bool"
where
  "closest_eligible c d level target i l \<longleftrightarrow>
     eligible c d level target i l \<and>
     (\<forall>j k. eligible c d level target j k \<longrightarrow> \<not> beyond d i j) \<and>
     (\<forall>k. eligible c d level target i k \<longrightarrow> (case d of Left \<Rightarrow> l \<le> k | Right \<Rightarrow> k \<le> l))"

lemma pick_candidate_Some:
  assumes "sorted (map snd cs)" "pick_candidate d target cs = Some (i, l)"
  shows "(i, l) \<in> set cs \<and> \<not> beyond d target i \<and>
    (\<forall>(j, k) \<in> set cs. \<not> beyond d target j \<longrightarrow>
       \<not> beyond d i j \<and> (j = i \<longrightarrow> (case d of Left \<Rightarrow> l \<le> k | Right \<Rightarrow> k \<le> l)))"
proof (cases d)
  case Left
  let ?fs = "filter (\<lambda>(i, _). i \<ge> target) cs"
  from assms(2) Left obtain x xs where fs: "?fs = x # xs"
    by (cases ?fs) (simp_all add: pick_candidate_def)
  have srt: "sorted (map snd (x # xs))"
    using sorted_filter [OF assms(1), of "\<lambda>(i, _). i \<ge> target"] fs by simp
  have m: "min_by_key fst (x # xs) = Some (i, l)"
    using assms(2) Left fs by (simp add: pick_candidate_def)
  have mem: "p \<in> set (x # xs) \<longleftrightarrow> p \<in> set cs \<and> fst p \<ge> target" for p
    unfolding fs [symmetric] by auto
  have "fold (\<lambda>y m. if fst y < fst m then y else m) xs x = (i, l)" using m by simp
  then have tie: "l \<le> snd p" if "p \<in> set (x # xs)" "fst p = i" for p
    using min_by_key_first [OF srt that(1), of fst] that(2) by simp
  have best: "(i, l) \<in> set (x # xs)" "p \<in> set (x # xs) \<Longrightarrow> i \<le> fst p" for p
    using min_by_key_Some [OF m] by auto
  show ?thesis using tie best unfolding mem by (auto simp: Left not_less)
next
  case Right
  let ?fs = "filter (\<lambda>(i, _). i \<le> target) cs"
  from assms(2) Right obtain x xs where fs: "?fs = x # xs"
    by (cases ?fs) (simp_all add: pick_candidate_def)
  have srt: "sorted (map snd (x # xs))"
    using sorted_filter [OF assms(1), of "\<lambda>(i, _). i \<le> target"] fs by simp
  have m: "max_by_key fst (x # xs) = Some (i, l)"
    using assms(2) Right fs by (simp add: pick_candidate_def)
  have mem: "p \<in> set (x # xs) \<longleftrightarrow> p \<in> set cs \<and> fst p \<le> target" for p
    unfolding fs [symmetric] by auto
  have "fold (\<lambda>y m. if fst m \<le> fst y then y else m) xs x = (i, l)" using m by simp
  then have tie: "snd p \<le> l" if "p \<in> set (x # xs)" "fst p = i" for p
    using max_by_key_last [OF srt that(1), of fst] that(2) by simp
  have best: "(i, l) \<in> set (x # xs)" "p \<in> set (x # xs) \<Longrightarrow> fst p \<le> i" for p
    using max_by_key_Some [OF m] by auto
  show ?thesis using tie best unfolding mem by (auto simp: Right not_less)
qed

lemma pick_candidate_None:
  "pick_candidate d target cs = None \<longleftrightarrow> (\<forall>(j, k) \<in> set cs. beyond d target j)"
  by (cases d) (auto simp: pick_candidate_def filter_empty_conv not_le)

lemma core_search_by_id_cases:
  assumes "wf_table (core_lt c)" "sreq_level req < LOOKUP_TABLE_LEVELS"
  obtains
    (found) i l where
      "closest_eligible c (sreq_direction req) (sreq_level req) (sreq_target req) i l"
      "core_search_by_id c req =
         Ok \<lparr>sres_nonce = sreq_nonce req, sres_target = sreq_target req,
             sres_termination_level = l, sres_result = i\<rparr>"
  | (fallback)
      "\<not> (\<exists>i l. eligible c (sreq_direction req) (sreq_level req) (sreq_target req) i l)"
      "core_search_by_id c req =
         Ok \<lparr>sres_nonce = sreq_nonce req, sres_target = sreq_target req,
             sres_termination_level = 0, sres_result = core_id c\<rparr>"
proof -
  let ?d = "sreq_direction req" and ?target = "sreq_target req"
  let ?ls = "[0..<Suc (sreq_level req)]"
  let ?cs = "List.map_filter (\<lambda>l. map_option (\<lambda>e. (ident_id e, l)) (slot (core_lt c) l ?d)) ?ls"
  have coll: "collect_candidates (core_lt c) ?d ?ls = Ok ?cs"
    by (rule collect_candidates_ok) (use assms in auto)
  have mem: "eligible c ?d (sreq_level req) ?target i l \<longleftrightarrow>
      (i, l) \<in> set ?cs \<and> \<not> beyond ?d ?target i" for i l
    by (auto simp: eligible_def set_candidates simp del: upt_Suc)
  show thesis
  proof (cases "pick_candidate ?d ?target ?cs")
    case None
    then have "\<not> (\<exists>i l. eligible c ?d (sreq_level req) ?target i l)"
      unfolding mem pick_candidate_None by blast
    then show ?thesis using None coll
      by (intro fallback) (simp_all add: core_search_by_id_def del: upt_Suc)
  next
    case (Some p)
    obtain i l where p: "p = (i, l)" by (cases p)
    have "sorted (map snd ?cs)" by (rule sorted_candidates) (simp del: upt_Suc)
    from pick_candidate_Some [OF this, of ?d ?target i l] Some p
    have "closest_eligible c ?d (sreq_level req) ?target i l"
      unfolding closest_eligible_def mem by auto
    then show ?thesis using Some coll p
      by (intro found) (simp_all add: core_search_by_id_def del: upt_Suc)
  qed
qed

lemma core_search_by_id_level_error:
  "LOOKUP_TABLE_LEVELS \<le> sreq_level req \<Longrightarrow> \<not> is_ok (core_search_by_id c req)"
proof -
  assume "LOOKUP_TABLE_LEVELS \<le> sreq_level req"
  then have "\<exists>l \<in> set [0..<Suc (sreq_level req)]. LOOKUP_TABLE_LEVELS \<le> l"
    by (intro bexI [of _ "sreq_level req"]) simp_all
  from collect_candidates_error [OF this] show ?thesis
    by (auto simp: core_search_by_id_def is_ok_iff split: sum.splits simp del: upt_Suc)
qed

section \<open>Ordered tables\<close>

text \<open>
  A candidate that belongs into a slot lies on the slot's side and shares as many bits of its
  membership vector as the level asks for. A table is ordered when every entry belongs where it
  is. This is the precondition that \<^verbatim>\<open>Core::try_link\<close> and \<^verbatim>\<open>Core::try_relink\<close> leave to their callers.
\<close>

definition belongs :: "BaseCore \<Rightarrow> LookupTableLevel \<Rightarrow> Direction \<Rightarrow> Identity \<Rightarrow> bool" where
  "belongs c level d e \<longleftrightarrow>
     level < LOOKUP_TABLE_LEVELS \<and> beyond d (core_id c) (ident_id e) \<and>
     level \<le> common_prefix_bit (core_mem_vec c) (ident_mem_vec e)"

definition ordered_core :: "BaseCore \<Rightarrow> bool" where
  "ordered_core c \<longleftrightarrow>
     wf_table (core_lt c) \<and>
     (\<forall>level d e. slot (core_lt c) level d = Some e \<longrightarrow> belongs c level d e)"

lemma ordered_coreD:
  assumes "ordered_core c"
  shows "wf_table (core_lt c)" "slot (core_lt c) level d = Some e \<Longrightarrow> belongs c level d e"
  using assms by (simp_all add: ordered_core_def)

lemma ordered_core_new [simp]: "ordered_core (core_new i v new_table)"
  by (simp add: ordered_core_def core_new_def slot_simps)

locale core_contract =
  fixes ordered :: "'c \<Rightarrow> bool"
    and fits :: "'c \<Rightarrow> LookupTableLevel \<Rightarrow> Direction \<Rightarrow> Identity \<Rightarrow> bool"
    and link :: "'c \<Rightarrow> LookupTableLevel \<Rightarrow> Direction \<Rightarrow> Identity \<Rightarrow> 'c \<times> LinkOutcome result"
    and relink :: "'c \<Rightarrow> LookupTableLevel \<Rightarrow> Direction \<Rightarrow> Identity \<Rightarrow> 'c \<times> RelinkOutcome result"
  assumes link_ordered: "ordered c \<Longrightarrow> fits c l d e \<Longrightarrow> ordered (fst (link c l d e))"
    and relink_ordered: "ordered c \<Longrightarrow> fits c l d e \<Longrightarrow> ordered (fst (relink c l d e))"
    and link_fits: "fits (fst (link c l d e)) = fits c"
    and relink_fits: "fits (fst (relink c l d e)) = fits c"
    and link_ok: "ordered c \<Longrightarrow> fits c l d e \<Longrightarrow> is_ok (snd (link c l d e))"
    and link_forward: "ordered c \<Longrightarrow> fits c l d e \<Longrightarrow> snd (link c l d e) = Ok (Forward x) \<Longrightarrow>
      fits c l d x \<and> beyond d (ident_id x) (ident_id e)"
begin

text \<open>Guarded link requests keep a table ordered, however many arrive and whatever they name.\<close>

definition guarded_link :: "LookupTableLevel \<times> Direction \<times> Identity \<Rightarrow> 'c \<Rightarrow> 'c" where
  "guarded_link q c = (case q of (l, d, e) \<Rightarrow> if fits c l d e then fst (link c l d e) else c)"

lemma guarded_links_ordered: "ordered c \<Longrightarrow> ordered (fold guarded_link qs c)"
  by (induction qs arbitrary: c) (auto simp: guarded_link_def link_ordered)

lemma guarded_links_fits: "fits (fold guarded_link qs c) = fits c"
  by (induction qs arbitrary: c) (auto simp: guarded_link_def link_fits split: prod.splits)

end

lemma core_try_link_simps [node_simps]:
  "core_id (fst (core_try_link c l d e)) = core_id c"
  "core_mem_vec (fst (core_try_link c l d e)) = core_mem_vec c"
  "core_lt (fst (core_try_link c l d e)) = fst (try_link (core_lt c) l d e)"
  "snd (core_try_link c l d e) = snd (try_link (core_lt c) l d e)"
  by (simp_all add: core_try_link_def split: prod.splits)

lemma core_try_relink_simps [node_simps]:
  "core_id (fst (core_try_relink c l d e)) = core_id c"
  "core_mem_vec (fst (core_try_relink c l d e)) = core_mem_vec c"
  "core_lt (fst (core_try_relink c l d e)) = fst (try_relink (core_lt c) l d e)"
  "snd (core_try_relink c l d e) = snd (try_relink (core_lt c) l d e)"
  by (simp_all add: core_try_relink_def split: prod.splits)

lemma link_slot_source: "link_slot d c s = Some e \<Longrightarrow> s = Some e \<or> e = c"
  by (auto simp: link_slot_def split: option.splits if_splits)

lemma belongs_cong:
  "core_id c = core_id c' \<Longrightarrow> core_mem_vec c = core_mem_vec c' \<Longrightarrow> belongs c = belongs c'"
  by (simp add: belongs_def fun_eq_iff)

lemma ordered_core_link_slot:
  assumes "ordered_core c" "belongs c l d e"
    and "core_id c' = core_id c" "core_mem_vec c' = core_mem_vec c"
    and "core_lt c' = write_slot (core_lt c) l d (link_slot d e (slot (core_lt c) l d))"
  shows "ordered_core c'"
proof -
  have l: "l < LOOKUP_TABLE_LEVELS" using assms(2) by (simp add: belongs_def)
  have "belongs c k dir x" if "slot (core_lt c') k dir = Some x" for k dir x
    using that assms(1,2,5) l
    by (auto simp: ordered_core_def slot_simps split: if_splits dest: link_slot_source)
  then show ?thesis
    using assms belongs_cong [OF assms(3,4)] by (simp add: ordered_core_def)
qed

interpretation core: core_contract ordered_core belongs core_try_link core_try_relink
proof
  fix c l d e
  show "belongs (fst (core_try_link c l d e)) = belongs c"
    "belongs (fst (core_try_relink c l d e)) = belongs c"
    by (rule belongs_cong; simp add: node_simps)+
  assume o: "ordered_core c" and b: "belongs c l d e"
  then have l: "l < LOOKUP_TABLE_LEVELS" "wf_table (core_lt c)"
    by (auto simp: belongs_def ordered_core_def)
  show "ordered_core (fst (core_try_link c l d e))"
    by (rule ordered_core_link_slot [OF o b]) (simp_all add: node_simps try_link_decision l)
  show "ordered_core (fst (core_try_relink c l d e))"
    by (rule ordered_core_link_slot [OF o b]) (simp_all add: node_simps try_relink_decision l)
  show "is_ok (snd (core_try_link c l d e))"
    by (simp add: node_simps try_link_decision l)
  show "snd (core_try_link c l d e) = Ok (Forward x) \<Longrightarrow>
      belongs c l d x \<and> beyond d (ident_id x) (ident_id e)" for x
    using ordered_coreD(2) [OF o]
    by (auto simp: node_simps try_link_decision l link_outcome_def strictly_between_def
        split: option.splits if_splits)
qed

section \<open>Properties\<close>

text \<open>
  C23. The local search looks at the entries up to the requested level on the search side. If one of
  them is not past the target it returns the closest such one, at the lowest level that holds
  it for a left search and the highest for a right search (first minimum, last maximum); if
  there is none it returns the node's own identifier at level 0.
\<close>

theorem local_search_closest:
  assumes "wf_table (core_lt c)" "sreq_level req < LOOKUP_TABLE_LEVELS"
  shows "\<exists>i l. core_search_by_id c req =
      Ok \<lparr>sres_nonce = sreq_nonce req, sres_target = sreq_target req,
          sres_termination_level = l, sres_result = i\<rparr> \<and>
    (if \<exists>j k. eligible c (sreq_direction req) (sreq_level req) (sreq_target req) j k
     then closest_eligible c (sreq_direction req) (sreq_level req) (sreq_target req) i l
     else i = core_id c \<and> l = 0)"
  using assms
proof (cases rule: core_search_by_id_cases)
  case (found i l)
  then show ?thesis by (auto simp: closest_eligible_def)
next
  case fallback
  then show ?thesis by auto
qed

theorem local_search_closest_witness:
  "\<exists>i l. core_search_by_id (core_new (sample_id 2) (MembershipVector (fill32 0))
        (write_slot new_table 2 Right (Some (sample_identity 5))))
      \<lparr>sreq_nonce = Nonce 0, sreq_target = sample_id 9, sreq_origin = sample_id 2, sreq_level = 3,
       sreq_direction = Right\<rparr> =
      Ok \<lparr>sres_nonce = Nonce 0, sres_target = sample_id 9, sres_termination_level = l,
          sres_result = i\<rparr> \<and> i = sample_id 5"
proof -
  let ?c = "core_new (sample_id 2) (MembershipVector (fill32 0))
    (write_slot new_table 2 Right (Some (sample_identity 5)))"
  let ?req = "\<lparr>sreq_nonce = Nonce 0, sreq_target = sample_id 9, sreq_origin = sample_id 2,
    sreq_level = 3, sreq_direction = Right\<rparr>"
  have el: "eligible ?c Right 3 (sample_id 9) j k \<longleftrightarrow> j = sample_id 5 \<and> k = 2" for j k
    by (auto simp: eligible_def core_new_def slot_simps size_defs)
  have "wf_table (core_lt ?c)" "sreq_level ?req < LOOKUP_TABLE_LEVELS"
    by (simp_all add: core_new_def size_defs)
  from local_search_closest [OF this] show ?thesis
    by (simp add: el closest_eligible_def)
qed

end
