(* ===== verification/Waiters.thy ===== *)
theory Waiters
  imports Messages
begin

text \<open>
  \<^verbatim>\<open>src/node/waiter.rs\<close> and the correlation of replies in \<^verbatim>\<open>base_node.rs\<close>: the map from nonces to
  waiters, the one-shot channels behind the waiters, \<^verbatim>\<open>take_waiter\<close>, and the guard that cleans an
  entry up. A locale captures what one kind of request needs; it is interpreted for the four
  kinds the node uses.
\<close>

section \<open>Definitions\<close>

type_synonym chan = nat

datatype Waiter =
    MaxLevel chan
  | AsyncSearch chan
  | Neighbor chan
  | Link chan LookupTableLevel Direction

text \<open>
  The one-shot channels are tokio's. The state keeps, per channel, the calls that the node has
  made on its two ends: \<^verbatim>\<open>tx.send\<close>, the drop of the sender and the drop of the receiver.
\<close>

datatype Reply =
    ReplyMaxLevel MaxLevelRes
  | ReplySearch IdSearchRes
  | ReplyNeighbor NeighborRes
  | ReplyLink LinkRes

datatype ChanOp = TxSend Reply | TxDrop | RxDrop

type_synonym ChanLog = "ChanOp list"

record Requests =
  request_id_map :: "Nonce \<rightharpoonup> Waiter"
  oneshots :: "chan \<Rightarrow> ChanLog"
  next_chan :: chan

definition no_requests :: Requests where
  "no_requests = \<lparr>request_id_map = Map.empty, oneshots = (\<lambda>_. []), next_chan = 0\<rparr>"

fun waiter_chan :: "Waiter \<Rightarrow> chan" where
  "waiter_chan (MaxLevel ch) = ch"
| "waiter_chan (AsyncSearch ch) = ch"
| "waiter_chan (Neighbor ch) = ch"
| "waiter_chan (Link ch _ _) = ch"

text \<open>Dropping a sender, and the two ways a map entry leaves the map with its sender dropped.\<close>

definition drop_tx :: "chan \<Rightarrow> Requests \<Rightarrow> Requests" where
  "drop_tx ch r =
     r\<lparr>oneshots := (oneshots r)(ch := oneshots r ch @ [TxDrop])\<rparr>"

definition insert_waiter :: "Nonce \<Rightarrow> Waiter \<Rightarrow> Requests \<Rightarrow> Requests" where
  "insert_waiter n w r =
     (let r' = (case request_id_map r n of Some old \<Rightarrow> drop_tx (waiter_chan old) r | None \<Rightarrow> r)
      in r'\<lparr>request_id_map := (request_id_map r')(n \<mapsto> w)\<rparr>)"

definition guard_drop :: "Nonce \<Rightarrow> Requests \<Rightarrow> Requests" where
  "guard_drop n r =
     (case request_id_map r n of
        Some w \<Rightarrow>
          let r' = drop_tx (waiter_chan w) r
          in r'\<lparr>request_id_map := (request_id_map r')(n := None)\<rparr>
      | None \<Rightarrow> r)"

definition open_request :: "Nonce \<Rightarrow> (chan \<Rightarrow> Waiter) \<Rightarrow> Requests \<Rightarrow> chan \<times> Requests" where
  "open_request n mk r =
     (let ch = next_chan r
      in (ch, insert_waiter n (mk ch)
                (r\<lparr>oneshots := (oneshots r)(ch := []), next_chan := Suc ch\<rparr>)))"

definition take_waiter ::
  "Nonce \<Rightarrow> (Waiter \<Rightarrow> bool) \<Rightarrow> Requests \<Rightarrow> Requests \<times> Waiter option" where
  "take_waiter n is_expected_variant r =
     (case request_id_map r n of
        Some w \<Rightarrow>
          if is_expected_variant w
          then (r\<lparr>request_id_map := (request_id_map r)(n := None)\<rparr>, Some w)
          else (r, None)
      | None \<Rightarrow> (r, None))"

definition tx_send :: "chan \<Rightarrow> Reply \<Rightarrow> Requests \<Rightarrow> Requests" where
  "tx_send ch reply r =
     r\<lparr>oneshots := (oneshots r)(ch := oneshots r ch @ [TxSend reply])\<rparr>"

text \<open>The body that the four response handlers share: take the waiter and send to it.\<close>

definition resolve :: "Nonce \<Rightarrow> (Waiter \<Rightarrow> bool) \<Rightarrow> Reply \<Rightarrow> Requests \<Rightarrow> Requests" where
  "resolve n is_expected_variant reply r =
     (case take_waiter n is_expected_variant r of
        (r', Some w) \<Rightarrow> tx_send (waiter_chan w) reply r'
      | (r', None) \<Rightarrow> r')"

text \<open>
  \<^verbatim>\<open>timeout(d, rx).await\<close> once it is ready: the value, a dropped sender, or the elapsed time. What
  tokio makes of the calls on the channel is the argument \<open>aw\<close>.
\<close>

datatype Awaited = Received Reply | Dropped | Elapsed

type_synonym await_fn = "ChanLog \<Rightarrow> Awaited"

definition await_reply :: "await_fn \<Rightarrow> chan \<Rightarrow> Requests \<Rightarrow> Awaited" where
  "await_reply aw ch r = aw (oneshots r ch)"

definition rx_drop :: "chan \<Rightarrow> Requests \<Rightarrow> Requests" where
  "rx_drop ch r = r\<lparr>oneshots := (oneshots r)(ch := oneshots r ch @ [RxDrop])\<rparr>"

text \<open>The exit of a request: its receiver and then its guard go out of scope.\<close>

definition close_request :: "Nonce \<Rightarrow> chan \<Rightarrow> Requests \<Rightarrow> Requests" where
  "close_request n ch r = guard_drop n (rx_drop ch r)"

text \<open>The variant tests that the response handlers pass to \<^verbatim>\<open>take_waiter\<close>.\<close>

fun is_max_level :: "Waiter \<Rightarrow> bool" where
  "is_max_level (MaxLevel _) = True"
| "is_max_level _ = False"

fun is_async_search :: "Waiter \<Rightarrow> bool" where
  "is_async_search (AsyncSearch _) = True"
| "is_async_search _ = False"

fun is_neighbor :: "Waiter \<Rightarrow> bool" where
  "is_neighbor (Neighbor _) = True"
| "is_neighbor _ = False"

fun is_link_at :: "LookupTableLevel \<Rightarrow> Direction \<Rightarrow> Waiter \<Rightarrow> bool" where
  "is_link_at level dir (Link _ l d) = (l = level \<and> d = dir)"
| "is_link_at level dir _ = False"

section \<open>The invariant of the waiter map\<close>

text \<open>
  Every waiter owns a channel of its own that has been allocated and whose sender is still there.
\<close>

definition wf_requests :: "Requests \<Rightarrow> bool" where
  "wf_requests r \<longleftrightarrow>
     (\<forall>n w. request_id_map r n = Some w \<longrightarrow>
        waiter_chan w < next_chan r \<and>
        set (oneshots r (waiter_chan w)) \<subseteq> {RxDrop}) \<and>
     (\<forall>n m v w. request_id_map r n = Some v \<longrightarrow> request_id_map r m = Some w \<longrightarrow>
        waiter_chan v = waiter_chan w \<longrightarrow> n = m)"

lemma wf_requestsD:
  assumes "wf_requests r" "request_id_map r n = Some w"
  shows "waiter_chan w < next_chan r" "set (oneshots r (waiter_chan w)) \<subseteq> {RxDrop}"
    "request_id_map r m = Some v \<Longrightarrow> waiter_chan v = waiter_chan w \<Longrightarrow> m = n"
  using assms unfolding wf_requests_def by blast+

lemma wf_no_requests [simp]: "wf_requests no_requests"
  by (simp add: wf_requests_def no_requests_def)

lemma drop_tx_simps [simp]:
  "request_id_map (drop_tx ch r) = request_id_map r"
  "next_chan (drop_tx ch r) = next_chan r"
  "oneshots (drop_tx ch r) c =
     (if c = ch then oneshots r c @ [TxDrop] else oneshots r c)"
  by (auto simp: drop_tx_def)

lemma guard_drop_simps [simp]:
  "request_id_map (guard_drop n r) = (request_id_map r)(n := None)"
  "next_chan (guard_drop n r) = next_chan r"
  by (auto simp: guard_drop_def Let_def split: option.splits)

lemma oneshots_guard_drop:
  "oneshots (guard_drop n r) c =
     (case request_id_map r n of
        Some w \<Rightarrow> if c = waiter_chan w then oneshots r c @ [TxDrop]
                  else oneshots r c
      | None \<Rightarrow> oneshots r c)"
  by (auto simp: guard_drop_def Let_def split: option.splits)

lemma insert_waiter_simps [simp]:
  "request_id_map (insert_waiter n w r) = (request_id_map r)(n \<mapsto> w)"
  "next_chan (insert_waiter n w r) = next_chan r"
  by (auto simp: insert_waiter_def Let_def split: option.splits)

lemma oneshots_insert_waiter:
  "oneshots (insert_waiter n w r) c =
     (case request_id_map r n of
        Some old \<Rightarrow> if c = waiter_chan old then oneshots r c @ [TxDrop]
                    else oneshots r c
      | None \<Rightarrow> oneshots r c)"
  by (auto simp: insert_waiter_def Let_def split: option.splits)

lemma guard_drop_wf [keeps]: "wf_requests r \<Longrightarrow> wf_requests (guard_drop n r)"
  unfolding wf_requests_def by (simp add: oneshots_guard_drop split: option.splits) metis

lemma rx_drop_wf [keeps]: "wf_requests r \<Longrightarrow> wf_requests (rx_drop ch r)"
  unfolding wf_requests_def by (auto simp: rx_drop_def)

lemma close_request_wf [keeps]: "wf_requests r \<Longrightarrow> wf_requests (close_request n ch r)"
  by (simp add: close_request_def keeps)

lemma take_waiter_cases:
  obtains (taken) w where "request_id_map r n = Some w" "p w"
      "take_waiter n p r = (r\<lparr>request_id_map := (request_id_map r)(n := None)\<rparr>, Some w)"
  | (left_alone) "take_waiter n p r = (r, None)"
      "\<forall>w. request_id_map r n = Some w \<longrightarrow> \<not> p w"
  by (cases "request_id_map r n") (auto simp: take_waiter_def split: if_splits)

lemma resolve_wf [keeps]:
  assumes "wf_requests r"
  shows "wf_requests (resolve n p reply r)"
proof (cases rule: take_waiter_cases [of r n p])
  case (taken w)
  then show ?thesis
    using assms unfolding wf_requests_def by (simp add: resolve_def tx_send_def) metis
next
  case left_alone
  then show ?thesis using assms by (simp add: resolve_def)
qed

lemma open_request_wf [keeps]:
  assumes "wf_requests r" "\<And>ch. waiter_chan (mk ch) = ch"
  shows "wf_requests (snd (open_request n mk r))"
proof -
  let ?ch = "next_chan r" and ?r' = "snd (open_request n mk r)"
  have map: "request_id_map ?r' = (request_id_map r)(n \<mapsto> mk ?ch)" "next_chan ?r' = Suc ?ch"
    by (simp_all add: open_request_def Let_def)
  have fresh: "request_id_map r m = Some w \<Longrightarrow> waiter_chan w < ?ch" for m w
    by (rule wf_requestsD(1) [OF assms(1)])
  have new: "oneshots ?r' ?ch = []"
    using fresh [of n] by (fastforce simp: open_request_def Let_def oneshots_insert_waiter split: option.splits)
  have old: "oneshots ?r' (waiter_chan w) = oneshots r (waiter_chan w)"
    if "m \<noteq> n" "request_id_map r m = Some w" for m w
    using that fresh [of m w] wf_requestsD(3) [OF assms(1) that(2), of n]
    by (auto simp: open_request_def Let_def oneshots_insert_waiter split: option.splits)
  show ?thesis
    unfolding wf_requests_def map
  proof (intro conjI allI impI)
    fix m w
    assume "((request_id_map r)(n \<mapsto> mk ?ch)) m = Some w"
    then show "waiter_chan w < Suc ?ch" "set (oneshots ?r' (waiter_chan w)) \<subseteq> {RxDrop}"
      using fresh [of m w] new old [of m w] wf_requestsD(2) [OF assms(1), of m w] assms(2)
      by (auto split: if_splits)
  next
    fix m k v w
    assume "((request_id_map r)(n \<mapsto> mk ?ch)) m = Some v"
      "((request_id_map r)(n \<mapsto> mk ?ch)) k = Some w" "waiter_chan v = waiter_chan w"
    then show "m = k"
      using fresh [of m v] fresh [of k w] wf_requestsD(3) [OF assms(1), of k w m v] assms(2)
      by (auto split: if_splits)
  qed
qed

section \<open>One kind of request\<close>

text \<open>
  A request kind is the waiter it parks and the test its response handler applies. While the
  request is pending, only a reply that carries its nonce and passes its test can resolve it.
\<close>

definition pending :: "(chan \<Rightarrow> Waiter) \<Rightarrow> Nonce \<Rightarrow> chan \<Rightarrow> Requests \<Rightarrow> bool" where
  "pending mk n ch r \<longleftrightarrow> request_id_map r n = Some (mk ch) \<and> oneshots r ch = []"

locale request_kind =
  fixes mk :: "chan \<Rightarrow> Waiter"
    and expected :: "Waiter \<Rightarrow> bool"
  assumes chan_mk: "waiter_chan (mk ch) = ch"
    and expected_mk: "expected (mk ch)"
begin

lemma opened:
  assumes "wf_requests r" "open_request n mk r = (ch, r')"
  shows "pending mk n ch r'" "wf_requests r'"
proof -
  from assms show "wf_requests r'"
    using open_request_wf [OF assms(1) chan_mk, of n] by simp
  have "request_id_map r n = Some w \<Longrightarrow> waiter_chan w \<noteq> next_chan r" for w
    using wf_requestsD(1) [OF assms(1)] by fastforce
  then show "pending mk n ch r'"
    using assms(2) by (auto simp: pending_def open_request_def Let_def oneshots_insert_waiter
        split: option.splits)
qed

lemma answered_log:
  "pending mk n ch r \<Longrightarrow> oneshots (resolve n expected reply r) ch = [TxSend reply]"
  by (simp add: pending_def resolve_def take_waiter_def expected_mk chan_mk tx_send_def)

lemma answered_removed:
  "pending mk n ch r \<Longrightarrow> request_id_map (resolve n expected reply r) = (request_id_map r)(n := None)"
  by (simp add: pending_def resolve_def take_waiter_def expected_mk tx_send_def)

text \<open>A reply with another nonce, or of another kind, leaves the request pending.\<close>

lemma stays_pending:
  assumes "wf_requests r" "pending mk n ch r" "m \<noteq> n \<or> \<not> p (mk ch)"
  shows "pending mk n ch (resolve m p reply r)"
proof (cases rule: take_waiter_cases [of r m p])
  case (taken w)
  then have "m \<noteq> n" using assms(2,3) by (auto simp: pending_def)
  moreover from this have "waiter_chan w \<noteq> ch"
    using wf_requestsD(3) [OF assms(1) taken(1)] assms(2) chan_mk by (auto simp: pending_def)
  ultimately show ?thesis
    using taken assms(2) by (auto simp: pending_def resolve_def tx_send_def)
next
  case left_alone
  then show ?thesis using assms(2) by (simp add: resolve_def)
qed

text \<open>Every exit leaves no entry under the nonce, and dropping the waiter wakes the caller.\<close>

lemma closed: "request_id_map (close_request n ch r) n = None"
  by (simp add: close_request_def)

lemma overwritten_log:
  assumes "wf_requests r" "pending mk n ch r"
  shows "oneshots (snd (open_request n mk' r)) ch = [TxDrop]"
proof -
  have "ch < next_chan r"
    using wf_requestsD(1) [OF assms(1)] assms(2) chan_mk by (fastforce simp: pending_def)
  then show ?thesis
    using assms(2)
    by (simp add: pending_def open_request_def Let_def oneshots_insert_waiter chan_mk)
qed

end

text \<open>
  What the requests rely on of \<^verbatim>\<open>tokio::sync::oneshot\<close> under \<^verbatim>\<open>tokio::time::timeout\<close>, as documented:
  a value sent is received, a sender dropped without sending is an error, and a channel on
  which nothing happens runs into the timeout.
\<close>

locale oneshot =
  fixes aw :: await_fn
  assumes sent_received: "aw [TxSend reply] = Received reply"
    and dropped_error: "aw [TxDrop] = Dropped"
    and silent_elapses: "aw [] = Elapsed"

locale awaited_kind = request_kind mk expected + oneshot aw
  for mk :: "chan \<Rightarrow> Waiter" and expected :: "Waiter \<Rightarrow> bool" and aw :: await_fn
begin

lemma pending_elapses: "pending mk n ch r \<Longrightarrow> await_reply aw ch r = Elapsed"
  by (simp add: pending_def await_reply_def silent_elapses)

lemma answered:
  "pending mk n ch r \<Longrightarrow> await_reply aw ch (resolve n expected reply r) = Received reply"
  by (simp add: await_reply_def answered_log sent_received)

lemma overwritten_is_dropped:
  "wf_requests r \<Longrightarrow> pending mk n ch r \<Longrightarrow>
   await_reply aw ch (snd (open_request n mk' r)) = Dropped"
  by (simp add: await_reply_def overwritten_log dropped_error)

end

text \<open>The laws in one function, and the four request kinds under it.\<close>

fun std_await :: await_fn where
  "std_await (TxSend reply # _) = Received reply"
| "std_await (TxDrop # _) = Dropped"
| "std_await _ = Elapsed"

interpretation std: oneshot std_await
  by unfold_locales simp_all

interpretation max_level_kind: request_kind MaxLevel is_max_level
  by unfold_locales simp_all

interpretation search_kind: request_kind AsyncSearch is_async_search
  by unfold_locales simp_all

interpretation neighbor_kind: request_kind Neighbor is_neighbor
  by unfold_locales simp_all

interpretation link_kind: request_kind "\<lambda>ch. Link ch level dir" "is_link_at level dir" for level dir
  by unfold_locales simp_all

interpretation max_level_wait: awaited_kind MaxLevel is_max_level std_await ..

interpretation search_wait: awaited_kind AsyncSearch is_async_search std_await ..

interpretation neighbor_wait: awaited_kind Neighbor is_neighbor std_await ..

interpretation link_wait: awaited_kind "\<lambda>ch. Link ch level dir" "is_link_at level dir" std_await
  for level dir ..

lemma awaited_kindI: "request_kind mk expected \<Longrightarrow> oneshot aw \<Longrightarrow> awaited_kind mk expected aw"
  by (simp add: awaited_kind_def)

section \<open>A resolved or untouched waiter\<close>

lemma resolve_pending:
  assumes "wf_requests r" "request_id_map r nonce = Some w" "oneshots r (waiter_chan w) = []"
  shows "if m = nonce \<and> p w
    then request_id_map (resolve m p reply r) nonce = None \<and>
      oneshots (resolve m p reply r) (waiter_chan w) = [TxSend reply]
    else request_id_map (resolve m p reply r) nonce = Some w \<and>
      oneshots (resolve m p reply r) (waiter_chan w) = []"
proof (cases rule: take_waiter_cases [of r m p])
  case (taken v)
  show ?thesis
  proof (cases "m = nonce")
    case True
    then show ?thesis using taken assms by (simp add: resolve_def tx_send_def)
  next
    case False
    then have "waiter_chan v \<noteq> waiter_chan w"
      using wf_requestsD(3) [OF assms(1,2) taken(1)] by auto
    then show ?thesis using taken assms False by (simp add: resolve_def tx_send_def)
  qed
next
  case left_alone
  then show ?thesis using assms by (auto simp: resolve_def)
qed

section \<open>Properties\<close>

text \<open>
  C15. A second request under a nonce that is still in use takes the map entry over: the first
  caller's wait ends with a dropped sender, and when the first caller's guard then runs it
  removes the second caller's waiter.
\<close>

theorem nonce_reuse_drops:
  assumes "oneshot aw" "wf_requests r" "request_id_map r nonce = Some w"
    and "oneshots r (waiter_chan w) = []"
  shows "await_reply aw (waiter_chan w) (snd (open_request nonce mk r)) = Dropped \<and>
    request_id_map (snd (open_request nonce mk r)) nonce = Some (mk (next_chan r)) \<and>
    request_id_map (close_request nonce (waiter_chan w) (snd (open_request nonce mk r))) nonce = None"
proof -
  have "waiter_chan w < next_chan r" by (rule wf_requestsD(1) [OF assms(2,3)])
  then show ?thesis
    using assms
    by (simp add: open_request_def Let_def oneshots_insert_waiter close_request_def await_reply_def
        oneshot.dropped_error)
qed

theorem nonce_reuse_drops_witness:
  "await_reply std_await 0 (snd (open_request (Nonce 7) Neighbor
     (snd (open_request (Nonce 7) MaxLevel no_requests)))) = Dropped"
proof -
  let ?r = "snd (open_request (Nonce 7) MaxLevel no_requests)"
  have "wf_requests ?r" by (rule open_request_wf) simp_all
  moreover have "request_id_map ?r (Nonce 7) = Some (MaxLevel 0)" "oneshots ?r 0 = []"
    by (simp_all add: open_request_def Let_def no_requests_def insert_waiter_def)
  ultimately show ?thesis
    using nonce_reuse_drops [OF std.oneshot_axioms, of ?r "Nonce 7" "MaxLevel 0" Neighbor] by simp
qed

end
