(* ===== verification/Base_Node.thy ===== *)
theory Base_Node
  imports Base_Core Waiters
begin

text \<open>
  \<^verbatim>\<open>src/node/base_node.rs\<close>: the network-aware node. Every handler of \<^verbatim>\<open>process_incoming_event\<close> changes
  the node's own state first and then either returns or makes one call of \<^verbatim>\<open>net.send_event\<close> in
  tail position; the model returns the new node and that last action as an \<^term>\<open>Effect\<close>. Which
  network carries the message out is decided where the effect is run: at once and recursively
  by the in-memory hub (theory Hub), or later and in any order by a network with messages in
  flight (theory Interleaving). The requests that wait for a reply are split at the wait: the
  part up to the send, and the part that runs when the wait is over.
\<close>

section \<open>Definitions\<close>

record BaseNode =
  node_core :: BaseCore
  node_address :: Address
  node_requests :: Requests

text \<open>
  \<^term>\<open>Send dest event msg\<close> is \<^verbatim>\<open>self.net.send_event(dest, event).map_err(msg)?; Ok(())\<close>.
\<close>

datatype Effect = Done "unit result" | Send Identifier Event string

definition node_id :: "BaseNode \<Rightarrow> Identifier" where
  "node_id n = core_id (node_core n)"

definition node_mem_vec :: "BaseNode \<Rightarrow> MembershipVector" where
  "node_mem_vec n = core_mem_vec (node_core n)"

definition self_identity :: "BaseNode \<Rightarrow> Identity" where
  "self_identity n =
     identity_new (core_id (node_core n)) (core_mem_vec (node_core n)) (node_address n)"

definition node_new :: "BaseCore \<Rightarrow> Address \<Rightarrow> BaseNode" where
  "node_new c a = \<lparr>node_core = c, node_address = a, node_requests = no_requests\<rparr>"

subsection \<open>Handlers\<close>

definition handle_search_by_id_request :: "BaseNode \<Rightarrow> IdSearchReq \<Rightarrow> BaseNode \<times> Effect" where
  "handle_search_by_id_request n req =
     (case map_err ''failed to perform search by id'' (core_search_by_id (node_core n) req) of
        Err e \<Rightarrow> (n, Done (Err e))
      | Ok res \<Rightarrow>
          if sres_result res = core_id (node_core n)
          then (n, Send (sreq_origin req) (SearchByIdResponse res)
                     ''failed to send response event for search by id'')
          else (n, Send (sres_result res)
                     (SearchByIdRequest (req\<lparr>sreq_level := sres_termination_level res\<rparr>))
                     ''failed to send relay response event for search by id''))"

definition handle_search_by_id_response :: "BaseNode \<Rightarrow> IdSearchRes \<Rightarrow> BaseNode \<times> Effect" where
  "handle_search_by_id_response n res =
     (n\<lparr>node_requests :=
          resolve (sres_nonce res) is_async_search (ReplySearch res) (node_requests n)\<rparr>,
      Done (Ok ()))"

definition handle_get_max_level_request :: "BaseNode \<Rightarrow> MaxLevelReq \<Rightarrow> BaseNode \<times> Effect" where
  "handle_get_max_level_request n req =
     (case map_err ''failed to read local max level'' (core_max_level (node_core n)) of
        Err e \<Rightarrow> (n, Done (Err e))
      | Ok max_level \<Rightarrow>
          (n, Send (mlreq_origin req)
                (RetMaxLevelOp \<lparr>mlres_nonce = mlreq_nonce req, mlres_max_level = max_level\<rparr>)
                ''failed to send max level response''))"

definition handle_ret_max_level_response :: "BaseNode \<Rightarrow> MaxLevelRes \<Rightarrow> BaseNode \<times> Effect" where
  "handle_ret_max_level_response n res =
     (n\<lparr>node_requests :=
          resolve (mlres_nonce res) is_max_level (ReplyMaxLevel res) (node_requests n)\<rparr>,
      Done (Ok ()))"

definition handle_get_neighbor_request :: "BaseNode \<Rightarrow> NeighborReq \<Rightarrow> BaseNode \<times> Effect" where
  "handle_get_neighbor_request n req =
     (case map_err ''failed to read local neighbor entry''
             (core_neighbor_entry (node_core n) (nreq_level req) (nreq_direction req)) of
        Err e \<Rightarrow> (n, Done (Err e))
      | Ok neighbor \<Rightarrow>
          (n, Send (nreq_origin req)
                (RetNeighborOp \<lparr>nres_nonce = nreq_nonce req, nres_level = nreq_level req,
                   nres_direction = nreq_direction req, nres_neighbor = neighbor\<rparr>)
                ''failed to send neighbor response''))"

definition handle_ret_neighbor_response :: "BaseNode \<Rightarrow> NeighborRes \<Rightarrow> BaseNode \<times> Effect" where
  "handle_ret_neighbor_response n res =
     (n\<lparr>node_requests :=
          resolve (nres_nonce res) is_neighbor (ReplyNeighbor res) (node_requests n)\<rparr>,
      Done (Ok ()))"

definition belongs_in_own_slot ::
  "BaseNode \<Rightarrow> LookupTableLevel \<Rightarrow> Direction \<Rightarrow> Identity \<Rightarrow> bool" where
  "belongs_in_own_slot n level d candidate =
     (if level \<ge> LOOKUP_TABLE_LEVELS then False
      else let on_direction =
             (case d of
                Left \<Rightarrow> ident_id candidate < node_id n
              | Right \<Rightarrow> ident_id candidate > node_id n)
           in on_direction \<and> core_prefix_match (node_core n) (ident_mem_vec candidate) level)"

definition handle_get_link_request :: "BaseNode \<Rightarrow> LinkReq \<Rightarrow> BaseNode \<times> Effect" where
  "handle_get_link_request n req =
     (if \<not> belongs_in_own_slot n (lreq_level req) (lreq_dir req) (lreq_candidate req)
      then (n, Done (Ok ()))
      else (case core_try_link (node_core n) (lreq_level req) (lreq_dir req)
                   (lreq_candidate req) of
              (c, Err e) \<Rightarrow>
                (n\<lparr>node_core := c\<rparr>, Done (Err (Context ''failed to decide link'' e)))
            | (c, Ok LinkedDirectly) \<Rightarrow>
                (let n' = n\<lparr>node_core := c\<rparr> in
                 (n', Send (ident_id (lreq_candidate req))
                   (SetLinkOp \<lparr>lres_nonce = lreq_nonce req, lres_dir = opposite (lreq_dir req),
                      lres_level = lreq_level req, lres_linked = Some (self_identity n')\<rparr>)
                   ''failed to send link response''))
            | (c, Ok (Forward existing)) \<Rightarrow>
                (n\<lparr>node_core := c\<rparr>, Send (ident_id existing) (GetLinkOp req)
                   ''failed to forward get link request'')))"

text \<open>The write of \<^verbatim>\<open>handle_set_link_response\<close>, then the waiter.\<close>

definition apply_set_link :: "BaseNode \<Rightarrow> LinkRes \<Rightarrow> BaseNode \<times> unit result" where
  "apply_set_link n res =
     (case lres_linked res of
        Some linked \<Rightarrow>
          if belongs_in_own_slot n (lres_level res) (lres_dir res) linked
          then (case core_try_link (node_core n) (lres_level res) (lres_dir res) linked of
                  (c, Err e) \<Rightarrow> (n\<lparr>node_core := c\<rparr>, Err (Context ''failed to apply link'' e))
                | (c, Ok _) \<Rightarrow> (n\<lparr>node_core := c\<rparr>, Ok ()))
          else (n, Ok ())
      | None \<Rightarrow> (n, Ok ()))"

definition handle_set_link_response :: "BaseNode \<Rightarrow> LinkRes \<Rightarrow> BaseNode \<times> Effect" where
  "handle_set_link_response n res =
     (case apply_set_link n res of
        (n', Err e) \<Rightarrow> (n', Done (Err e))
      | (n', Ok _) \<Rightarrow>
          (n'\<lparr>node_requests :=
                resolve (lres_nonce res) (is_link_at (lres_level res) (lres_dir res))
                  (ReplyLink res) (node_requests n')\<rparr>,
           Done (Ok ())))"

fun process_incoming_event :: "BaseNode \<Rightarrow> Identifier \<Rightarrow> Event \<Rightarrow> BaseNode \<times> Effect" where
  "process_incoming_event n origin_id (SearchByIdRequest req) = handle_search_by_id_request n req"
| "process_incoming_event n origin_id (SearchByIdResponse res) = handle_search_by_id_response n res"
| "process_incoming_event n origin_id (GetMaxLevelOp req) = handle_get_max_level_request n req"
| "process_incoming_event n origin_id (RetMaxLevelOp res) = handle_ret_max_level_response n res"
| "process_incoming_event n origin_id (GetNeighborOp req) = handle_get_neighbor_request n req"
| "process_incoming_event n origin_id (RetNeighborOp res) = handle_ret_neighbor_response n res"
| "process_incoming_event n origin_id (GetLinkOp req) = handle_get_link_request n req"
| "process_incoming_event n origin_id (SetLinkOp res) = handle_set_link_response n res"
| "process_incoming_event n origin_id _ = (n, Done (Err (Msg ''unsupported event payload type'')))"

subsection \<open>Requests that wait for a reply\<close>

text \<open>
  The first half parks the waiter and names the message to send; the nonce is an argument
  because \<^verbatim>\<open>Nonce::random\<close> draws it from the environment. The second half gets the outcome of the
  send and the state of the channel when the wait ended.
\<close>

definition park :: "BaseNode \<Rightarrow> Nonce \<Rightarrow> (chan \<Rightarrow> Waiter) \<Rightarrow> chan \<times> BaseNode" where
  "park n nonce mk =
     (let (ch, r) = open_request nonce mk (node_requests n) in (ch, n\<lparr>node_requests := r\<rparr>))"

definition unpark :: "BaseNode \<Rightarrow> Nonce \<Rightarrow> chan \<Rightarrow> BaseNode" where
  "unpark n nonce ch = n\<lparr>node_requests := close_request nonce ch (node_requests n)\<rparr>"

definition get_max_level_begin ::
  "BaseNode \<Rightarrow> Identifier \<Rightarrow> Nonce \<Rightarrow> BaseNode \<times> chan \<times> Identifier \<times> Event" where
  "get_max_level_begin n introducer nonce =
     (let (ch, n') = park n nonce MaxLevel
      in (n', ch, introducer,
          GetMaxLevelOp \<lparr>mlreq_nonce = nonce, mlreq_origin = core_id (node_core n)\<rparr>))"

definition get_max_level_end ::
  "await_fn \<Rightarrow> BaseNode \<Rightarrow> Nonce \<Rightarrow> chan \<Rightarrow> unit result \<Rightarrow> BaseNode \<times> LookupTableLevel result" where
  "get_max_level_end aw n nonce ch sent =
     (unpark n nonce ch,
      case sent of
        Err e \<Rightarrow> Err (Context ''failed to send get max level request'' e)
      | Ok _ \<Rightarrow>
          (case await_reply aw ch (node_requests n) of
             Received (ReplyMaxLevel res) \<Rightarrow> Ok (mlres_max_level res)
           | Dropped \<Rightarrow>
               Err (Msg ''failed to receive network response for get max level: sender dropped'')
           | _ \<Rightarrow> Err (Msg ''timed out waiting for get max level response'')))"

definition send_search_by_id_req_begin ::
  "BaseNode \<Rightarrow> Identifier \<Rightarrow> Nonce \<Rightarrow> Identifier \<Rightarrow> LookupTableLevel \<Rightarrow> Direction
   \<Rightarrow> BaseNode \<times> chan \<times> Identifier \<times> Event" where
  "send_search_by_id_req_begin n dest nonce target level d =
     (let (ch, n') = park n nonce AsyncSearch
      in (n', ch, dest,
          SearchByIdRequest \<lparr>sreq_nonce = nonce, sreq_target = target,
            sreq_origin = core_id (node_core n), sreq_level = level, sreq_direction = d\<rparr>))"

definition send_search_by_id_req_end ::
  "await_fn \<Rightarrow> BaseNode \<Rightarrow> Nonce \<Rightarrow> chan \<Rightarrow> unit result \<Rightarrow> BaseNode \<times> IdSearchRes result" where
  "send_search_by_id_req_end aw n nonce ch sent =
     (unpark n nonce ch,
      case sent of
        Err e \<Rightarrow> Err (Context ''failed to send search by id request'' e)
      | Ok _ \<Rightarrow>
          (case await_reply aw ch (node_requests n) of
             Received (ReplySearch res) \<Rightarrow> Ok res
           | Dropped \<Rightarrow> Err (Msg ''failed to receive search by id response: sender dropped'')
           | _ \<Rightarrow> Err (Msg ''timed out waiting for search by id response'')))"

definition get_neighbor_begin ::
  "BaseNode \<Rightarrow> Identifier \<Rightarrow> Direction \<Rightarrow> LookupTableLevel \<Rightarrow> Nonce
   \<Rightarrow> BaseNode \<times> chan \<times> Identifier \<times> Event" where
  "get_neighbor_begin n from d level nonce =
     (let (ch, n') = park n nonce Neighbor
      in (n', ch, from,
          GetNeighborOp \<lparr>nreq_nonce = nonce, nreq_origin = core_id (node_core n),
            nreq_level = level, nreq_direction = d\<rparr>))"

definition get_neighbor_end ::
  "await_fn \<Rightarrow> BaseNode \<Rightarrow> Nonce \<Rightarrow> chan \<Rightarrow> unit result \<Rightarrow> BaseNode \<times> Identity option result" where
  "get_neighbor_end aw n nonce ch sent =
     (unpark n nonce ch,
      case sent of
        Err e \<Rightarrow> Err (Context ''failed to send get neighbor request'' e)
      | Ok _ \<Rightarrow>
          (case await_reply aw ch (node_requests n) of
             Received (ReplyNeighbor res) \<Rightarrow> Ok (nres_neighbor res)
           | Dropped \<Rightarrow> Err (Msg ''failed to receive get neighbor response: sender dropped'')
           | _ \<Rightarrow> Err (Msg ''timed out waiting for get neighbor response'')))"

definition send_link_request_begin ::
  "BaseNode \<Rightarrow> Identifier \<Rightarrow> Direction \<Rightarrow> LookupTableLevel \<Rightarrow> Nonce
   \<Rightarrow> BaseNode \<times> chan \<times> Identifier \<times> Event" where
  "send_link_request_begin n dest d level nonce =
     (let (ch, n') = park n nonce (\<lambda>ch. Link ch level (opposite d))
      in (n', ch, dest,
          GetLinkOp \<lparr>lreq_nonce = nonce, lreq_candidate = self_identity n,
            lreq_dir = d, lreq_level = level\<rparr>))"

definition send_link_request_end ::
  "await_fn \<Rightarrow> BaseNode \<Rightarrow> Nonce \<Rightarrow> chan \<Rightarrow> unit result \<Rightarrow> BaseNode \<times> unit result" where
  "send_link_request_end aw n nonce ch sent =
     (unpark n nonce ch,
      case sent of
        Err e \<Rightarrow> Err (Context ''failed to send get link request'' e)
      | Ok _ \<Rightarrow>
          (case await_reply aw ch (node_requests n) of
             Received (ReplyLink res) \<Rightarrow> Ok ()
           | Dropped \<Rightarrow> Err (Msg ''failed to receive get link response: sender dropped'')
           | _ \<Rightarrow> Err (Msg ''timed out waiting for get link response'')))"

text \<open>The direction that \<^verbatim>\<open>join_stage1_link_level0\<close> searches in.\<close>

definition stage1_direction :: "Identifier \<Rightarrow> Identifier \<Rightarrow> Direction result" where
  "stage1_direction introducer own_id =
     (if introducer < own_id then Ok Right
      else if introducer > own_id then Ok Left
      else Err (Msg ''introducer id collides with this node's own id, cannot determine stage-1 search direction''))"

definition node_eq :: "BaseNode \<Rightarrow> BaseNode \<Rightarrow> bool" where
  "node_eq n m \<longleftrightarrow>
     core_id (node_core n) = core_id (node_core m) \<and>
     core_mem_vec (node_core n) = core_mem_vec (node_core m)"

section \<open>The node invariant\<close>

definition node_ok :: "BaseNode \<Rightarrow> bool" where
  "node_ok n \<longleftrightarrow> ordered_core (node_core n) \<and> wf_requests (node_requests n)"

lemma belongs_in_own_slot_iff: "belongs_in_own_slot n l d e \<longleftrightarrow> belongs (node_core n) l d e"
  by (cases d) (simp_all add: belongs_in_own_slot_def belongs_def node_id_def
      core_prefix_match_def Let_def not_le)

lemma node_ok_new [simp]: "ordered_core c \<Longrightarrow> node_ok (node_new c a)"
  by (simp add: node_ok_def node_new_def)

text \<open>
  What a handler may do to its node: keep its identity and address, and change the table through
  guarded links only.
\<close>

definition same_node :: "BaseNode \<Rightarrow> BaseNode \<Rightarrow> bool" where
  "same_node n m \<longleftrightarrow>
     core_id (node_core m) = core_id (node_core n) \<and>
     core_mem_vec (node_core m) = core_mem_vec (node_core n) \<and>
     node_address m = node_address n"

lemma same_node_refl [simp]: "same_node n n"
  by (simp add: same_node_def)

lemma same_node_trans: "same_node n m \<Longrightarrow> same_node m k \<Longrightarrow> same_node n k"
  by (simp add: same_node_def)

lemma same_node_requests [simp]: "same_node n (n\<lparr>node_requests := r\<rparr>)"
  by (simp add: same_node_def)

lemma same_node_link: "same_node n (n\<lparr>node_core := fst (core_try_link (node_core n) l d e)\<rparr>)"
  by (simp add: same_node_def node_simps)

lemma node_ok_requests:
  "node_ok n \<Longrightarrow> wf_requests r \<Longrightarrow> node_ok (n\<lparr>node_requests := r\<rparr>)"
  by (simp add: node_ok_def)

lemma node_ok_link:
  "node_ok n \<Longrightarrow> belongs (node_core n) l d e \<Longrightarrow>
   node_ok (n\<lparr>node_core := fst (core_try_link (node_core n) l d e)\<rparr>)"
  by (simp add: node_ok_def core.link_ordered)

text \<open>The link handler, branch by branch.\<close>

lemma handle_get_link_request_cases:
  assumes "ordered_core (node_core n)"
  obtains
    (rejected) "\<not> belongs (node_core n) (lreq_level req) (lreq_dir req) (lreq_candidate req)"
      "handle_get_link_request n req = (n, Done (Ok ()))"
  | (linked) "belongs (node_core n) (lreq_level req) (lreq_dir req) (lreq_candidate req)"
      "snd (core_try_link (node_core n) (lreq_level req) (lreq_dir req) (lreq_candidate req)) =
         Ok LinkedDirectly"
      "handle_get_link_request n req =
         (n\<lparr>node_core := fst (core_try_link (node_core n) (lreq_level req) (lreq_dir req)
              (lreq_candidate req))\<rparr>,
          Send (ident_id (lreq_candidate req))
            (SetLinkOp \<lparr>lres_nonce = lreq_nonce req, lres_dir = opposite (lreq_dir req),
               lres_level = lreq_level req, lres_linked = Some (self_identity n)\<rparr>)
            ''failed to send link response'')"
  | (forwarded) x where
      "belongs (node_core n) (lreq_level req) (lreq_dir req) (lreq_candidate req)"
      "belongs (node_core n) (lreq_level req) (lreq_dir req) x"
      "slot (core_lt (node_core n)) (lreq_level req) (lreq_dir req) = Some x"
      "beyond (lreq_dir req) (ident_id x) (ident_id (lreq_candidate req))"
      "handle_get_link_request n req =
         (n, Send (ident_id x) (GetLinkOp req) ''failed to forward get link request'')"
proof (cases "belongs (node_core n) (lreq_level req) (lreq_dir req) (lreq_candidate req)")
  case False
  then show ?thesis
    by (intro rejected) (simp_all add: handle_get_link_request_def belongs_in_own_slot_iff)
next
  case True
  let ?l = "lreq_level req" and ?d = "lreq_dir req" and ?e = "lreq_candidate req"
  let ?r = "core_try_link (node_core n) ?l ?d ?e"
  have wf: "wf_table (core_lt (node_core n))" "?l < LOOKUP_TABLE_LEVELS"
    using assms True by (auto simp: ordered_core_def belongs_def)
  have snd_r: "snd ?r = Ok (link_outcome ?d ?e (slot (core_lt (node_core n)) ?l ?d))"
    by (simp add: node_simps try_link_decision wf)
  show ?thesis
  proof (cases "link_outcome ?d ?e (slot (core_lt (node_core n)) ?l ?d)")
    case LinkedDirectly
    with snd_r obtain c where r: "?r = (c, Ok LinkedDirectly)" by (metis prod.collapse)
    have c: "core_id c = core_id (node_core n)" "core_mem_vec c = core_mem_vec (node_core n)"
      using core_try_link_simps(1,2) [of "node_core n" ?l ?d ?e] by (simp_all add: r)
    show ?thesis using True r c
      by (intro linked)
        (simp_all add: handle_get_link_request_def belongs_in_own_slot_iff self_identity_def
          Let_def)
  next
    case (Forward x)
    then have s: "slot (core_lt (node_core n)) ?l ?d = Some x"
      "strictly_between ?d x ?e"
      by (auto simp: link_outcome_def split: option.splits if_splits)
    have "fst ?r = node_core n"
      using s wf write_slot_same [OF wf(1), of ?l ?d]
      by (simp add: core_try_link_def try_link_decision link_slot_def slot_def split: if_splits)
    then have "?r = (node_core n, Ok (Forward x))"
      using snd_r Forward by (metis prod.collapse)
    then show ?thesis
      using True s ordered_coreD(2) [OF assms s(1)]
      by (intro forwarded) (simp_all add: handle_get_link_request_def belongs_in_own_slot_iff
          strictly_between_def)
  qed
qed

lemma apply_set_link_eq:
  assumes "ordered_core (node_core n)"
  shows "apply_set_link n res =
    (case lres_linked res of
       Some e \<Rightarrow>
         (if belongs (node_core n) (lres_level res) (lres_dir res) e
          then n\<lparr>node_core := fst (core_try_link (node_core n) (lres_level res) (lres_dir res) e)\<rparr>
          else n)
     | None \<Rightarrow> n, Ok ())"
proof -
  have ok: "core_try_link (node_core n) l d e \<noteq> (c, Err x)" if "belongs (node_core n) l d e"
    for l d e c x
    using core.link_ok [OF assms that] by auto
  show ?thesis
    by (auto simp: apply_set_link_def belongs_in_own_slot_iff ok split: option.splits
        prod.splits sum.splits)
qed

lemma handle_set_link_response_eq:
  assumes "ordered_core (node_core n)"
  shows "handle_set_link_response n res =
    (let n' = fst (apply_set_link n res)
     in n'\<lparr>node_requests :=
            resolve (lres_nonce res) (is_link_at (lres_level res) (lres_dir res))
              (ReplyLink res) (node_requests n')\<rparr>,
     Done (Ok ()))"
  by (simp add: handle_set_link_response_def apply_set_link_eq [OF assms] Let_def)

lemma apply_set_link_keeps:
  assumes "node_ok n"
  shows "node_ok (fst (apply_set_link n res))" "same_node n (fst (apply_set_link n res))"
    "node_requests (fst (apply_set_link n res)) = node_requests n"
proof -
  have o: "ordered_core (node_core n)" using assms by (simp add: node_ok_def)
  show "node_ok (fst (apply_set_link n res))" "same_node n (fst (apply_set_link n res))"
    "node_requests (fst (apply_set_link n res)) = node_requests n"
    using assms by (simp_all add: apply_set_link_eq [OF o] node_ok_link same_node_link
        split: option.splits)
qed

theorem process_incoming_event_keeps [keeps]:
  assumes "node_ok n"
  shows "node_ok (fst (process_incoming_event n origin ev))"
    and "same_node n (fst (process_incoming_event n origin ev))"
proof -
  have o: "ordered_core (node_core n)" and w: "wf_requests (node_requests n)"
    using assms by (simp_all add: node_ok_def)
  note handlers = handle_search_by_id_request_def handle_search_by_id_response_def
    handle_get_max_level_request_def handle_ret_max_level_response_def
    handle_get_neighbor_request_def handle_ret_neighbor_response_def
  have "node_ok (fst (process_incoming_event n origin ev)) \<and>
      same_node n (fst (process_incoming_event n origin ev))"
  proof (cases ev)
    case (GetLinkOp req)
    show ?thesis
      by (cases rule: handle_get_link_request_cases [OF o, of req])
        (simp_all add: GetLinkOp assms node_ok_link same_node_link)
  next
    case (SetLinkOp res)
    then show ?thesis
      using apply_set_link_keeps [OF assms, of res]
      by (auto simp: handle_set_link_response_eq [OF o] Let_def resolve_wf [OF w]
          intro!: node_ok_requests elim: same_node_trans)
  qed (use assms in \<open>auto simp: handlers w resolve_wf intro: node_ok_requests split: sum.splits\<close>)
  then show "node_ok (fst (process_incoming_event n origin ev))"
    "same_node n (fst (process_incoming_event n origin ev))" by simp_all
qed

section \<open>Replies and waiters\<close>

text \<open>The reply that answers a waiter parked under a nonce.\<close>

fun answers :: "Event \<Rightarrow> Nonce \<Rightarrow> Waiter \<Rightarrow> bool" where
  "answers (RetMaxLevelOp res) nonce (MaxLevel _) = (mlres_nonce res = nonce)"
| "answers (SearchByIdResponse res) nonce (AsyncSearch _) = (sres_nonce res = nonce)"
| "answers (RetNeighborOp res) nonce (Neighbor _) = (nres_nonce res = nonce)"
| "answers (SetLinkOp res) nonce (Link _ level dir) =
     (lres_nonce res = nonce \<and> lres_level res = level \<and> lres_dir res = dir)"
| "answers _ _ _ = False"

lemma request_handlers_keep_waiters:
  "node_requests (fst (handle_search_by_id_request n sreq)) = node_requests n"
  "node_requests (fst (handle_get_max_level_request n mreq)) = node_requests n"
  "node_requests (fst (handle_get_neighbor_request n nreq)) = node_requests n"
  "node_requests (fst (handle_get_link_request n lreq)) = node_requests n"
  by (auto simp: handle_search_by_id_request_def handle_get_max_level_request_def
      handle_get_neighbor_request_def handle_get_link_request_def Let_def
      split: sum.splits prod.splits LinkOutcome.splits)

text \<open>A handled message resolves the waiter that it answers and leaves every other one alone.\<close>

lemma processed_pending:
  assumes "node_ok n" "request_id_map (node_requests n) nonce = Some w"
    and "oneshots (node_requests n) (waiter_chan w) = []"
    and "process_incoming_event n origin ev = (n', eff)"
  shows "if answers ev nonce w
    then request_id_map (node_requests n') nonce = None \<and>
      (\<exists>reply. oneshots (node_requests n') (waiter_chan w) = [TxSend reply])
    else request_id_map (node_requests n') nonce = Some w \<and>
      oneshots (node_requests n') (waiter_chan w) = []"
proof -
  have o: "ordered_core (node_core n)" and wf: "wf_requests (node_requests n)"
    using assms(1) by (simp_all add: node_ok_def)
  have n': "n' = fst (process_incoming_event n origin ev)" using assms(4) by simp
  note r = resolve_pending [OF wf assms(2,3)]
  show ?thesis
  proof (cases ev)
    case (SearchByIdResponse res)
    then show ?thesis
      using r [of "sres_nonce res" is_async_search "ReplySearch res"]
      by (cases w) (auto simp: n' handle_search_by_id_response_def split: if_splits)
  next
    case (RetMaxLevelOp res)
    then show ?thesis
      using r [of "mlres_nonce res" is_max_level "ReplyMaxLevel res"]
      by (cases w) (auto simp: n' handle_ret_max_level_response_def split: if_splits)
  next
    case (RetNeighborOp res)
    then show ?thesis
      using r [of "nres_nonce res" is_neighbor "ReplyNeighbor res"]
      by (cases w) (auto simp: n' handle_ret_neighbor_response_def split: if_splits)
  next
    case (SetLinkOp res)
    then show ?thesis
      using r [of "lres_nonce res" "is_link_at (lres_level res) (lres_dir res)" "ReplyLink res"]
        apply_set_link_keeps(3) [OF assms(1), of res]
      by (cases w) (auto simp: n' handle_set_link_response_eq [OF o] Let_def split: if_splits)
  qed (use assms(2,3) in \<open>simp_all add: n' request_handlers_keep_waiters\<close>)
qed

text \<open>A concrete node: identifier 2, with the node 5 to its right at level 0.\<close>

definition sample_node :: BaseNode where
  "sample_node = node_new (core_new (sample_id 2) (MembershipVector (fill32 0))
     (write_slot new_table 0 Right (Some (sample_identity 5)))) \<lparr>host = ''localhost'', port = ''0''\<rparr>"

lemma sample_node_simps [simp]:
  "core_id (node_core sample_node) = sample_id 2"
  "slot (core_lt (node_core sample_node)) l d =
     (if l = 0 \<and> d = Right then Some (sample_identity 5) else None)"
  "wf_table (core_lt (node_core sample_node))"
  "node_requests sample_node = no_requests"
  by (simp_all add: sample_node_def node_new_def core_new_def slot_simps size_defs)

lemma node_ok_sample [simp]: "node_ok sample_node"
  by (auto simp: node_ok_def ordered_core_def belongs_def size_defs split: if_splits)

section \<open>Properties\<close>

text \<open>
  A forwarded link request makes progress: the node forwards it unchanged, keeps its own state,
  and the next hop lies strictly between the node and the candidate on the requested side.
\<close>

theorem forward_moves_closer:
  assumes "node_ok n" "handle_get_link_request n req = (n', Send dest (GetLinkOp req') msg)"
  shows "n' = n \<and> req' = req \<and> beyond (lreq_dir req) (node_id n) dest \<and>
    beyond (lreq_dir req) dest (ident_id (lreq_candidate req))"
proof -
  have "ordered_core (node_core n)" using assms(1) by (simp add: node_ok_def)
  then show ?thesis
  proof (cases rule: handle_get_link_request_cases [where req = req])
    case (forwarded x)
    then show ?thesis using assms(2) by (auto simp: belongs_def node_id_def)
  qed (use assms(2) in auto)
qed

theorem forward_moves_closer_witness:
  "handle_get_link_request sample_node \<lparr>lreq_nonce = Nonce 0, lreq_candidate = sample_identity 9,
       lreq_dir = Right, lreq_level = 0\<rparr> =
     (sample_node, Send (sample_id 5) (GetLinkOp \<lparr>lreq_nonce = Nonce 0,
       lreq_candidate = sample_identity 9, lreq_dir = Right, lreq_level = 0\<rparr>)
       ''failed to forward get link request'') \<and>
   beyond Right (node_id sample_node) (sample_id 5)"
proof -
  let ?req = "\<lparr>lreq_nonce = Nonce 0, lreq_candidate = sample_identity 9, lreq_dir = Right,
    lreq_level = 0\<rparr>"
  have o: "ordered_core (node_core sample_node)" using node_ok_sample by (simp add: node_ok_def)
  have h: "handle_get_link_request sample_node ?req =
      (sample_node, Send (sample_id 5) (GetLinkOp ?req) ''failed to forward get link request'')"
    using o
  proof (cases rule: handle_get_link_request_cases [where req = ?req])
    case linked
    then show ?thesis
      by (simp add: node_simps try_link_decision link_outcome_def strictly_between_def size_defs)
  qed (auto simp: belongs_def size_defs)
  from forward_moves_closer [OF node_ok_sample h] h show ?thesis by simp
qed

text \<open>
  Whatever message arrives from whatever peer, a node keeps its identity and address, and every
  entry of its table still lies on the slot's side of it, shares the prefix that the level asks
  for and sits at one of the 256 levels.
\<close>

theorem any_event_keeps_node:
  assumes "node_ok n" "process_incoming_event n origin ev = (n', eff)"
    and "slot (core_lt (node_core n')) level d = Some e"
  shows "node_ok n' \<and> node_id n' = node_id n \<and> node_mem_vec n' = node_mem_vec n \<and>
    node_address n' = node_address n \<and>
    level < LOOKUP_TABLE_LEVELS \<and> beyond d (node_id n) (ident_id e) \<and>
    level \<le> common_prefix_bit (node_mem_vec n) (ident_mem_vec e)"
proof -
  have k: "node_ok n'" "same_node n n'"
    using process_incoming_event_keeps [OF assms(1), of origin ev] assms(2) by simp_all
  then have "belongs (node_core n') level d e"
    using assms(3) by (simp add: node_ok_def ordered_core_def)
  then show ?thesis
    using k by (simp add: belongs_def same_node_def node_id_def node_mem_vec_def)
qed

theorem any_event_keeps_node_witness:
  "process_incoming_event sample_node (sample_id 3) (TestMessage ''x'') =
     (sample_node, Done (Err (Msg ''unsupported event payload type''))) \<and>
   slot (core_lt (node_core sample_node)) 0 Right = Some (sample_identity 5) \<and>
   beyond Right (node_id sample_node) (sample_id 5)"
  using any_event_keeps_node [OF node_ok_sample, of "sample_id 3" "TestMessage ''x''" sample_node
      "Done (Err (Msg ''unsupported event payload type''))" 0 Right "sample_identity 5"]
  by simp

text \<open>
  C11. The guard on link messages: a request or reply that names an impossible level, an identity on
  the wrong side or one without the shared prefix changes no table and sends nothing.
\<close>

theorem unfit_link_ignored:
  assumes "\<not> (level < LOOKUP_TABLE_LEVELS \<and> beyond d (node_id n) (ident_id e) \<and>
      level \<le> common_prefix_bit (node_mem_vec n) (ident_mem_vec e))"
  shows "handle_get_link_request n
        \<lparr>lreq_nonce = nonce, lreq_candidate = e, lreq_dir = d, lreq_level = level\<rparr> =
      (n, Done (Ok ())) \<and>
    (\<exists>r. handle_set_link_response n
        \<lparr>lres_nonce = nonce, lres_dir = d, lres_level = level, lres_linked = Some e\<rparr> =
      (n\<lparr>node_requests := r\<rparr>, Done (Ok ())))"
proof -
  have "\<not> belongs_in_own_slot n level d e"
    using assms by (simp add: belongs_in_own_slot_iff belongs_def node_id_def node_mem_vec_def)
  then show ?thesis
    by (auto simp: handle_get_link_request_def handle_set_link_response_def apply_set_link_def)
qed

theorem unfit_link_ignored_witness:
  "handle_get_link_request sample_node
     \<lparr>lreq_nonce = Nonce 0, lreq_candidate = sample_identity 9, lreq_dir = Left, lreq_level = 0\<rparr> =
   (sample_node, Done (Ok ()))"
  using unfit_link_ignored [of 0 Left sample_node "sample_identity 9" "Nonce 0"]
  by (simp add: node_id_def)

text \<open>
  C12. Correlation of replies: a pending request is resolved by a reply of its own kind that carries
  its nonce (and, for a link, names the slot that was asked about), which removes the waiter and
  sends the reply to its channel; every other message leaves it pending.
\<close>

theorem pending_until_answered:
  assumes "node_ok n" "request_id_map (node_requests n) nonce = Some w"
    and "oneshots (node_requests n) (waiter_chan w) = []"
    and "process_incoming_event n origin ev = (n', eff)"
  shows "if answers ev nonce w
    then request_id_map (node_requests n') nonce = None \<and>
      (\<exists>reply. oneshots (node_requests n') (waiter_chan w) = [TxSend reply])
    else request_id_map (node_requests n') nonce = Some w \<and>
      oneshots (node_requests n') (waiter_chan w) = []"
  by (rule processed_pending [OF assms])

theorem pending_until_answered_witness:
  "request_id_map (node_requests (fst (process_incoming_event
     (snd (park sample_node (Nonce 7) MaxLevel)) (sample_id 5)
     (RetMaxLevelOp \<lparr>mlres_nonce = Nonce 7, mlres_max_level = 3\<rparr>)))) (Nonce 7) = None"
proof -
  let ?n = "snd (park sample_node (Nonce 7) MaxLevel)"
  let ?ev = "RetMaxLevelOp \<lparr>mlres_nonce = Nonce 7, mlres_max_level = 3\<rparr>"
  have ok: "node_ok ?n"
    using node_ok_sample open_request_wf [of no_requests MaxLevel "Nonce 7"]
    by (auto simp: park_def node_ok_def split: prod.splits)
  have m: "request_id_map (node_requests ?n) (Nonce 7) = Some (MaxLevel 0)"
    and l: "oneshots (node_requests ?n) (waiter_chan (MaxLevel 0)) = []"
    by (simp_all add: park_def open_request_def no_requests_def insert_waiter_def Let_def)
  have "answers ?ev (Nonce 7) (MaxLevel 0)" by simp
  then show ?thesis
    using pending_until_answered [OF ok m l prod.collapse [symmetric], of ?ev "sample_id 5"]
    by (simp only: if_True)
qed


text \<open>
  A request that was sent and whose channel sees neither a reply nor a drop returns the timeout
  error of its kind; it never returns a value.
\<close>

theorem silent_request_times_out:
  assumes "oneshot aw" "oneshots (node_requests n) ch = []"
  shows "snd (get_max_level_end aw n nonce ch (Ok ())) =
      Err (Msg ''timed out waiting for get max level response'') \<and>
    snd (send_search_by_id_req_end aw n nonce ch (Ok ())) =
      Err (Msg ''timed out waiting for search by id response'') \<and>
    snd (get_neighbor_end aw n nonce ch (Ok ())) =
      Err (Msg ''timed out waiting for get neighbor response'') \<and>
    snd (send_link_request_end aw n nonce ch (Ok ())) =
      Err (Msg ''timed out waiting for get link response'')"
  using assms
  by (simp add: get_max_level_end_def send_search_by_id_req_end_def get_neighbor_end_def
      send_link_request_end_def await_reply_def oneshot.silent_elapses)

theorem silent_request_times_out_witness:
  "snd (get_max_level_end std_await sample_node (Nonce 7) 0 (Ok ())) =
     Err (Msg ''timed out waiting for get max level response'')"
  using silent_request_times_out [OF std.oneshot_axioms, of sample_node 0 "Nonce 7"]
  by (simp add: no_requests_def)

text \<open>
  C16. A search or neighbour request from a peer that names a level the table does not have makes the
  handler return an error; the node is unchanged and the peer gets no reply.
\<close>

theorem peer_level_error:
  assumes "LOOKUP_TABLE_LEVELS \<le> level"
  shows "\<exists>e1 e2. handle_get_neighbor_request n
        \<lparr>nreq_nonce = nonce, nreq_origin = origin, nreq_level = level, nreq_direction = d\<rparr> =
      (n, Done (Err e1)) \<and>
    handle_search_by_id_request n
        \<lparr>sreq_nonce = nonce, sreq_target = target, sreq_origin = origin, sreq_level = level,
         sreq_direction = d\<rparr> =
      (n, Done (Err e2))"
proof -
  let ?req = "\<lparr>sreq_nonce = nonce, sreq_target = target, sreq_origin = origin, sreq_level = level,
    sreq_direction = d\<rparr>"
  obtain e where "core_search_by_id (node_core n) ?req = Err e"
    using core_search_by_id_level_error [of ?req "node_core n"] assms
    by (cases "core_search_by_id (node_core n) ?req") auto
  then show ?thesis
    using assms by (simp add: handle_get_neighbor_request_def core_neighbor_entry_def get_entry_def
        level_error_def handle_search_by_id_request_def)
qed

theorem peer_level_error_witness:
  "\<exists>e. handle_get_neighbor_request sample_node
      \<lparr>nreq_nonce = Nonce 0, nreq_origin = sample_id 3, nreq_level = 256, nreq_direction = Left\<rparr> =
    (sample_node, Done (Err e))"
  using peer_level_error [of 256 sample_node "Nonce 0" "sample_id 3" Left] by (auto simp: size_defs)

end
