(* ===== verification/Interleaving.thy ===== *)
theory Interleaving
  imports Base_Node
begin

text \<open>
  The same nodes on a network with messages in flight. Handlers run one at a time per message,
  but messages are delivered in any order, may be lost, and, when peers are not trusted, may be
  forged. A handler touches the table under one lock acquisition and the waiter map under
  another, and reads nothing else that can change, so running it as one step loses no behaviour
  of the table. The ordering of the tables survives every run; the claims of section 4.1 of the
  protocol document on forwarded requests hold for honest runs; and the split of its section 5.2
  is a reachable state.
\<close>

section \<open>Definitions\<close>

type_synonym Packet = "Identifier \<times> Identifier \<times> Event"

record Net =
  net_nodes :: "Identifier \<rightharpoonup> BaseNode"
  in_flight :: "Packet list"

datatype Request =
    AskMaxLevel Identifier Nonce
  | AskSearch Identifier Nonce Identifier LookupTableLevel Direction
  | AskNeighbor Identifier Direction LookupTableLevel Nonce
  | AskLink Identifier Direction LookupTableLevel Nonce

fun begin_request :: "BaseNode \<Rightarrow> Request \<Rightarrow> BaseNode \<times> chan \<times> Identifier \<times> Event" where
  "begin_request n (AskMaxLevel dest nonce) = get_max_level_begin n dest nonce"
| "begin_request n (AskSearch dest nonce target level d) =
     send_search_by_id_req_begin n dest nonce target level d"
| "begin_request n (AskNeighbor dest d level nonce) = get_neighbor_begin n dest d level nonce"
| "begin_request n (AskLink dest d level nonce) = send_link_request_begin n dest d level nonce"

definition outgoing :: "Identifier \<Rightarrow> Effect \<Rightarrow> Packet list" where
  "outgoing i eff = (case eff of Done _ \<Rightarrow> [] | Send dest ev _ \<Rightarrow> [(i, dest, ev)])"

text \<open>An honest node asks for a link only where it fits.\<close>

fun request_fits :: "Net \<Rightarrow> BaseNode \<Rightarrow> Request \<Rightarrow> bool" where
  "request_fits s n (AskLink dest d level nonce) =
     (case net_nodes s dest of
        None \<Rightarrow> False
      | Some m \<Rightarrow> belongs_in_own_slot m level d (self_identity n))"
| "request_fits s n _ = True"

definition deliver_to :: "Net \<Rightarrow> Packet \<Rightarrow> BaseNode \<Rightarrow> Net" where
  "deliver_to s p n =
     (case p of (origin, i, ev) \<Rightarrow>
        let (n', eff) = process_incoming_event n origin ev
        in s\<lparr>net_nodes := (net_nodes s)(i \<mapsto> n'),
             in_flight := remove1 p (in_flight s) @ outgoing i eff\<rparr>)"

inductive net_step :: "bool \<Rightarrow> Net \<Rightarrow> Net \<Rightarrow> bool" for honest where
  deliver: "(origin, i, ev) \<in> set (in_flight s) \<Longrightarrow> net_nodes s i = Some n \<Longrightarrow>
    net_step honest s (deliver_to s (origin, i, ev) n)"
| lose: "p \<in> set (in_flight s) \<Longrightarrow> net_step honest s (s\<lparr>in_flight := remove1 p (in_flight s)\<rparr>)"
| ask: "net_nodes s i = Some n \<Longrightarrow> (honest \<longrightarrow> request_fits s n rq) \<Longrightarrow>
    begin_request n rq = (n', ch, dest, ev) \<Longrightarrow>
    net_step honest s
      (s\<lparr>net_nodes := (net_nodes s)(i \<mapsto> n'), in_flight := in_flight s @ [(i, dest, ev)]\<rparr>)"
| finish: "net_nodes s i = Some n \<Longrightarrow>
    net_step honest s (s\<lparr>net_nodes := (net_nodes s)(i \<mapsto> unpark n nonce ch)\<rparr>)"
| forge: "\<not> honest \<Longrightarrow> net_step honest s (s\<lparr>in_flight := in_flight s @ [p]\<rparr>)"

definition reaches :: "bool \<Rightarrow> Net \<Rightarrow> Net \<Rightarrow> bool" where
  "reaches honest = (net_step honest)\<^sup>*\<^sup>*"

inductive_cases net_stepE: "net_step honest s s'"

section \<open>Ordering under every interleaving\<close>

definition net_ok :: "Net \<Rightarrow> bool" where
  "net_ok s \<longleftrightarrow> (\<forall>i n. net_nodes s i = Some n \<longrightarrow> core_id (node_core n) = i \<and> node_ok n)"

definition net_evolves :: "Net \<Rightarrow> Net \<Rightarrow> bool" where
  "net_evolves s s' \<longleftrightarrow> (\<forall>i. rel_option same_node (net_nodes s i) (net_nodes s' i))"

lemma begin_request_keeps:
  assumes "node_ok n" "begin_request n rq = (n', ch, dest, ev)"
  shows "node_ok n' \<and> same_node n n' \<and> node_core n' = node_core n"
proof -
  have "node_ok (snd (park n nonce mk)) \<and> same_node n (snd (park n nonce mk)) \<and>
      node_core (snd (park n nonce mk)) = node_core n"
    if "\<And>ch. waiter_chan (mk ch) = ch" for nonce mk
    using assms(1) open_request_wf [of "node_requests n" mk nonce] that
    by (auto simp: park_def node_ok_def split: prod.splits)
  note parked = this
  have "\<exists>nonce mk. (\<forall>ch. waiter_chan (mk ch) = ch) \<and> n' = snd (park n nonce mk)"
  proof (cases rq)
    case (AskMaxLevel dest nonce)
    then show ?thesis using assms(2)
      by (intro exI [of _ nonce] exI [of _ MaxLevel])
        (auto simp: get_max_level_begin_def split: prod.splits)
  next
    case (AskSearch dest nonce target level d)
    then show ?thesis using assms(2)
      by (intro exI [of _ nonce] exI [of _ AsyncSearch])
        (auto simp: send_search_by_id_req_begin_def split: prod.splits)
  next
    case (AskNeighbor dest d level nonce)
    then show ?thesis using assms(2)
      by (intro exI [of _ nonce] exI [of _ Neighbor])
        (auto simp: get_neighbor_begin_def split: prod.splits)
  next
    case (AskLink dest d level nonce)
    then show ?thesis using assms(2)
      by (intro exI [of _ nonce] exI [of _ "\<lambda>ch. Link ch level (opposite d)"])
        (auto simp: send_link_request_begin_def split: prod.splits)
  qed
  then show ?thesis using parked by blast
qed

text \<open>A step changes at most one node, and keeps that node's identity and invariant.\<close>

lemma net_step_node:
  assumes "net_step honest s s'"
  obtains "net_nodes s' = net_nodes s"
  | i n n' where "net_nodes s i = Some n" "net_nodes s' = (net_nodes s)(i \<mapsto> n')"
      "node_ok n \<Longrightarrow> node_ok n' \<and> same_node n n'"
  using assms
proof (cases rule: net_step.cases)
  case (deliver origin i ev n)
  then show ?thesis
    using that(2) [of i n "fst (process_incoming_event n origin ev)"]
      process_incoming_event_keeps [of n origin ev]
    by (auto simp: deliver_to_def split: prod.splits)
next
  case (ask i n rq n' ch dest ev)
  then show ?thesis
    using that(2) [of i n n'] begin_request_keeps [of n rq n' ch dest ev] by auto
next
  case (finish i n nonce ch)
  then show ?thesis
    using that(2) [of i n "unpark n nonce ch"]
    by (auto simp: unpark_def node_ok_def keeps)
qed (use that(1) in auto)

lemma net_step_keeps:
  assumes "net_ok s" "net_step honest s s'"
  shows "net_ok s' \<and> net_evolves s s'"
  using assms(2)
proof (cases rule: net_step_node)
  case 1
  then show ?thesis using assms(1) by (simp add: net_ok_def net_evolves_def option.rel_refl)
next
  case (2 i n n')
  then have n': "node_ok n'" "same_node n n'" "core_id (node_core n) = i"
    using assms(1) by (auto simp: net_ok_def)
  have "net_ok s'" using assms(1) n' 2(2) by (auto simp: net_ok_def same_node_def)
  moreover have "net_evolves s s'"
    using n'(2) 2(1,2) by (simp add: net_evolves_def option.rel_refl)
  ultimately show ?thesis ..
qed

lemma reaches_keeps:
  assumes "net_ok s" "reaches honest s s'"
  shows "net_ok s'"
  using assms(2) unfolding reaches_def
  by (induction rule: rtranclp_induct) (use assms(1) net_step_keeps in auto)

section \<open>Honest runs\<close>

text \<open>
  An identity is truthful when the node it names has it. Every link message in flight names a
  truthful identity that fits the slot it asks for at its destination.
\<close>

definition truthful :: "Net \<Rightarrow> Identity \<Rightarrow> bool" where
  "truthful s e \<longleftrightarrow> (\<exists>m. net_nodes s (ident_id e) = Some m \<and> self_identity m = e)"

definition fits_at :: "Net \<Rightarrow> Identifier \<Rightarrow> LookupTableLevel \<Rightarrow> Direction \<Rightarrow> Identity \<Rightarrow> bool" where
  "fits_at s i level d e \<longleftrightarrow> (\<exists>n. net_nodes s i = Some n \<and> belongs (node_core n) level d e)"

fun event_fits :: "Net \<Rightarrow> Identifier \<Rightarrow> Event \<Rightarrow> bool" where
  "event_fits s i (GetLinkOp req) =
     (truthful s (lreq_candidate req) \<and>
      fits_at s i (lreq_level req) (lreq_dir req) (lreq_candidate req))"
| "event_fits s i (SetLinkOp res) =
     (case lres_linked res of
        Some e \<Rightarrow> truthful s e \<and> fits_at s i (lres_level res) (lres_dir res) e
      | None \<Rightarrow> True)"
| "event_fits s i _ = True"

definition net_honest :: "Net \<Rightarrow> bool" where
  "net_honest s \<longleftrightarrow>
     net_ok s \<and>
     (\<forall>i n l d e. net_nodes s i = Some n \<longrightarrow> slot (core_lt (node_core n)) l d = Some e \<longrightarrow>
        truthful s e) \<and>
     (\<forall>origin i ev. (origin, i, ev) \<in> set (in_flight s) \<longrightarrow> event_fits s i ev)"

lemma same_node_self_identity: "same_node n m \<Longrightarrow> self_identity m = self_identity n"
  by (simp add: same_node_def self_identity_def)

lemma net_evolves_nodeE:
  assumes "net_evolves s s'" "net_nodes s i = Some n"
  obtains n' where "net_nodes s' i = Some n'" "same_node n n'"
  using assms unfolding net_evolves_def by (metis option.rel_cases option.distinct(1) option.inject)

lemma truthful_evolves: "net_evolves s s' \<Longrightarrow> truthful s e \<Longrightarrow> truthful s' e"
  unfolding truthful_def by (metis net_evolves_nodeE same_node_self_identity)

lemma same_node_belongs: "same_node n m \<Longrightarrow> belongs (node_core m) = belongs (node_core n)"
  by (rule belongs_cong) (simp_all add: same_node_def)

lemma fits_at_evolves: "net_evolves s s' \<Longrightarrow> fits_at s i l d e \<Longrightarrow> fits_at s' i l d e"
  unfolding fits_at_def by (metis net_evolves_nodeE same_node_belongs)

lemma event_fits_evolves: "net_evolves s s' \<Longrightarrow> event_fits s i ev \<Longrightarrow> event_fits s' i ev"
  by (cases "(s, i, ev)" rule: event_fits.cases)
    (auto split: option.splits intro: truthful_evolves fits_at_evolves)

text \<open>
  The two facts on membership vectors and order behind section 4.1: what fits at a node fits at
  any of its neighbours in between, and the mirror slot fits too.
\<close>

lemma belongs_forward:
  assumes "belongs c l d x" "belongs c l d e" "beyond d (ident_id x) (ident_id e)"
    and "core_id cx = ident_id x" "core_mem_vec cx = ident_mem_vec x"
  shows "belongs cx l d e"
  using assms shared_prefix_trans [OF shared_prefix_sym, of l "core_mem_vec c" "ident_mem_vec x"
      "ident_mem_vec e"]
  by (simp add: belongs_def)

lemma belongs_mirror:
  assumes "belongs (node_core n) l d (self_identity m)"
  shows "belongs (node_core m) l (opposite d) (self_identity n)"
  using assms shared_prefix_sym
  by (simp add: belongs_def self_identity_def identity_new_def beyond_opposite)

lemma truthful_node:
  assumes "net_ok s" "net_nodes s i = Some n"
  shows "truthful s (self_identity n)"
  using assms by (auto simp: truthful_def net_ok_def self_identity_def identity_new_def)

text \<open>What a node sends on fits, given that the message it handles does.\<close>

lemma sent_event_fits:
  assumes "net_honest s" "net_nodes s i = Some n" "event_fits s i ev"
    and "process_incoming_event n origin ev = (n', Send dest ev' msg)"
  shows "event_fits s dest ev'"
proof (cases ev)
  case (GetLinkOp req)
  let ?e = "lreq_candidate req"
  have ok: "net_ok s" using assms(1) by (simp add: net_honest_def)
  have o: "ordered_core (node_core n)" using ok assms(2) by (auto simp: net_ok_def node_ok_def)
  obtain m where m: "net_nodes s (ident_id ?e) = Some m" "self_identity m = ?e"
    using assms(3) GetLinkOp by (auto simp: truthful_def)
  show ?thesis
    using o
  proof (cases rule: handle_get_link_request_cases [where req = req])
    case rejected
    then show ?thesis using assms(4) GetLinkOp by simp
  next
    case linked
    have "belongs (node_core m) (lreq_level req) (opposite (lreq_dir req)) (self_identity n)"
      using belongs_mirror [of n _ _ m] linked(1) m(2) by simp
    then show ?thesis
      using linked(3) assms(4) GetLinkOp m(1) truthful_node [OF ok assms(2)]
      by (auto simp: fits_at_def)
  next
    case (forwarded x)
    have "truthful s x" using assms(1,2) forwarded(3) by (auto simp: net_honest_def)
    then obtain mx where mx: "net_nodes s (ident_id x) = Some mx" "self_identity mx = x"
      by (auto simp: truthful_def)
    then have "core_id (node_core mx) = ident_id x" "core_mem_vec (node_core mx) = ident_mem_vec x"
      by (auto simp: self_identity_def identity_new_def)
    from belongs_forward [OF forwarded(2,1,4) this] show ?thesis
      using forwarded(5) assms(3,4) GetLinkOp mx(1) by (auto simp: fits_at_def)
  qed
qed (use assms(4) in \<open>auto simp: handle_search_by_id_request_def handle_search_by_id_response_def
    handle_get_max_level_request_def handle_ret_max_level_response_def
    handle_get_neighbor_request_def handle_ret_neighbor_response_def
    handle_set_link_response_def split: sum.splits prod.splits if_splits\<close>)

text \<open>An entry of a table was there before or is named by the message just handled.\<close>

fun names :: "Event \<Rightarrow> Identity option" where
  "names (GetLinkOp req) = Some (lreq_candidate req)"
| "names (SetLinkOp res) = lres_linked res"
| "names _ = None"

lemma core_try_link_source:
  assumes "ordered_core c" "belongs c l d x"
    and "slot (core_lt (fst (core_try_link c l d x))) l' d' = Some e"
  shows "slot (core_lt c) l' d' = Some e \<or> e = x"
  using assms
  by (auto simp: node_simps arr.entry_link ordered_core_def belongs_def split: if_splits
      dest: link_slot_source)

lemma processed_slot:
  assumes "node_ok n"
    and "slot (core_lt (node_core (fst (process_incoming_event n origin ev)))) l d = Some e"
  shows "slot (core_lt (node_core n)) l d = Some e \<or> names ev = Some e"
proof (cases ev)
  case (GetLinkOp req)
  have o: "ordered_core (node_core n)" using assms(1) by (simp add: node_ok_def)
  show ?thesis
    using o
  proof (cases rule: handle_get_link_request_cases [where req = req])
    case linked
    then show ?thesis using assms(2) GetLinkOp core_try_link_source [OF o linked(1)] by auto
  qed (use assms(2) GetLinkOp in auto)
next
  case (SetLinkOp res)
  have o: "ordered_core (node_core n)" using assms(1) by (simp add: node_ok_def)
  show ?thesis
    using assms(2) SetLinkOp
    by (auto simp: handle_set_link_response_eq [OF o] apply_set_link_eq [OF o] Let_def
        split: option.splits if_splits dest: core_try_link_source [OF o])
qed (use assms(2) in \<open>auto simp: handle_search_by_id_request_def handle_search_by_id_response_def
    handle_get_max_level_request_def handle_ret_max_level_response_def
    handle_get_neighbor_request_def handle_ret_neighbor_response_def split: sum.splits if_splits\<close>)

lemma event_fits_names: "event_fits s i ev \<Longrightarrow> names ev = Some e \<Longrightarrow> truthful s e"
  by (cases ev) (auto split: option.splits)

lemma begin_request_fits:
  assumes "net_ok s" "net_nodes s i = Some n" "request_fits s n rq"
    and "begin_request n rq = (n', ch, dest, ev)"
  shows "event_fits s dest ev"
  using assms truthful_node [OF assms(1,2)]
  by (cases rq) (auto simp: get_max_level_begin_def send_search_by_id_req_begin_def
      get_neighbor_begin_def send_link_request_begin_def belongs_in_own_slot_iff fits_at_def
      split: prod.splits option.splits)

lemma net_honest_intro:
  assumes "net_honest s" "net_step True s s'"
    and tables: "\<And>i n l d e. net_nodes s' i = Some n \<Longrightarrow> slot (core_lt (node_core n)) l d = Some e \<Longrightarrow>
      truthful s e"
    and flight: "\<And>origin i ev. (origin, i, ev) \<in> set (in_flight s') \<Longrightarrow> event_fits s i ev"
  shows "net_honest s'"
proof -
  have "net_ok s'" "net_evolves s s'"
    using net_step_keeps [OF _ assms(2)] assms(1) by (auto simp: net_honest_def)
  then show ?thesis
    unfolding net_honest_def
    using tables flight truthful_evolves event_fits_evolves by blast
qed

lemma net_honest_step:
  assumes "net_honest s" "net_step True s s'"
  shows "net_honest s'"
proof (rule net_honest_intro [OF assms])
  have ok: "net_ok s" using assms(1) by (simp add: net_honest_def)
  have old: "truthful s e" if "net_nodes s i = Some n" "slot (core_lt (node_core n)) l d = Some e"
    for i n l d e
    using assms(1) that unfolding net_honest_def by blast
  have fl: "event_fits s i ev" if "(origin, i, ev) \<in> set (in_flight s)" for origin i ev
    using assms(1) that unfolding net_honest_def by blast
  show "truthful s e" if "net_nodes s' i = Some n" "slot (core_lt (node_core n)) l d = Some e"
    for i n l d e
    using assms(2)
  proof (cases rule: net_step.cases)
    case (deliver origin j ev m)
    have "node_ok m" using ok deliver(3) by (auto simp: net_ok_def)
    then show ?thesis
      using that deliver processed_slot [of m origin ev l d e] event_fits_names [OF fl] old
      by (auto simp: deliver_to_def split: prod.splits if_splits)
  next
    case (ask j m rq m' ch dest ev)
    then show ?thesis
      using that begin_request_keeps [of m rq m' ch dest ev] ok old
      by (auto simp: net_ok_def split: if_splits)
  next
    case (finish j m nonce ch)
    then show ?thesis using that old by (auto simp: unpark_def split: if_splits)
  qed (use that old in auto)
  show "event_fits s i ev" if "(origin, i, ev) \<in> set (in_flight s')" for origin i ev
    using assms(2)
  proof (cases rule: net_step.cases)
    case (deliver origin' j ev' m)
    obtain m' eff where p: "process_incoming_event m origin' ev' = (m', eff)" by fastforce
    then show ?thesis
      using that deliver fl sent_event_fits [OF assms(1) deliver(3) fl [OF deliver(2)]]
      by (auto simp: deliver_to_def outgoing_def split: Effect.splits dest: subsetD [OF set_remove1_subset])
  next
    case (lose p)
    then show ?thesis using that fl by (auto dest: subsetD [OF set_remove1_subset])
  next
    case (ask j m rq m' ch dest ev')
    then show ?thesis using that fl begin_request_fits [OF ok ask(2) _ ask(4)] by auto
  qed (use that fl in auto)
qed

lemma reaches_honest:
  assumes "net_honest s" "reaches True s s'"
  shows "net_honest s'"
  using assms(2) unfolding reaches_def
  by (induction rule: rtranclp_induct) (use assms(1) net_honest_step in auto)

section \<open>The split of two concurrent joins\<close>

definition net_slot :: "Net \<Rightarrow> Identity \<Rightarrow> Direction \<Rightarrow> Identity option" where
  "net_slot s e d =
     Option.bind (net_nodes s (ident_id e)) (\<lambda>n. slot (core_lt (node_core n)) 0 d)"

text \<open>
  \<open>A\<close> and \<open>D\<close> are neighbours at level 0; \<open>B\<close> and \<open>C\<close> are about to join between them.
\<close>

definition level0_node :: "Identity \<Rightarrow> Identity option \<Rightarrow> Identity option \<Rightarrow> BaseNode" where
  "level0_node e l r =
     node_new (core_new (ident_id e) (ident_mem_vec e)
       (write_slot (write_slot new_table 0 Left l) 0 Right r)) (ident_address e)"

definition split_start :: "Identity \<Rightarrow> Identity \<Rightarrow> Identity \<Rightarrow> Identity \<Rightarrow> Net" where
  "split_start A B C D =
     \<lparr>net_nodes =
        [ident_id A \<mapsto> level0_node A None (Some D), ident_id B \<mapsto> level0_node B None None,
         ident_id C \<mapsto> level0_node C None None, ident_id D \<mapsto> level0_node D (Some A) None],
      in_flight = []\<rparr>"

text \<open>The members \<open>I\<close> with their level-0 slots \<open>F\<close>, and the messages in flight.\<close>

definition placed ::
  "Net \<Rightarrow> Identity set \<Rightarrow> (Identifier \<Rightarrow> Direction \<Rightarrow> Identity option) \<Rightarrow> Packet list \<Rightarrow> bool" where
  "placed s I F fl \<longleftrightarrow>
     net_ok s \<and> in_flight s = fl \<and>
     (\<forall>e \<in> I. \<exists>n. net_nodes s (ident_id e) = Some n \<and> self_identity n = e \<and>
        (\<forall>d. slot (core_lt (node_core n)) 0 d = F (ident_id e) d))"

lemma placedD:
  assumes "placed s I F fl" "e \<in> I"
  obtains n where "net_nodes s (ident_id e) = Some n" "self_identity n = e" "node_ok n"
    "core_id (node_core n) = ident_id e" "\<And>d. slot (core_lt (node_core n)) 0 d = F (ident_id e) d"
  using assms unfolding placed_def net_ok_def by blast

text \<open>Replacing one member's node by one with the same identity and known level-0 slots.\<close>

lemma placed_update:
  assumes "placed s I F fl" "e \<in> I" "net_step True s s'"
    and "net_nodes s' = (net_nodes s)(ident_id e \<mapsto> n')" "self_identity n' = e" "in_flight s' = fl'"
    and "\<And>d. slot (core_lt (node_core n')) 0 d = G d"
  shows "placed s' I (F(ident_id e := G)) fl'"
proof -
  have same: "e' = e" if "e' \<in> I" "ident_id e' = ident_id e" for e'
    using assms(1,2) that unfolding placed_def by (metis option.inject)
  have "net_ok s'" using assms(1) net_step_keeps [OF _ assms(3)] by (simp add: placed_def)
  moreover have "\<exists>n. net_nodes s' (ident_id e') = Some n \<and> self_identity n = e' \<and>
      (\<forall>d. slot (core_lt (node_core n)) 0 d = (F(ident_id e := G)) (ident_id e') d)"
    if "e' \<in> I" for e'
  proof (cases "ident_id e' = ident_id e")
    case True
    then show ?thesis using same [OF that] assms(4,5,7) by simp
  next
    case False
    then show ?thesis using assms(1,4) that by (simp add: placed_def)
  qed
  ultimately show ?thesis using assms(6) by (simp add: placed_def)
qed

lemma placed_ask:
  assumes "placed s I F fl" "e \<in> I" "x \<in> I" "beyond d (ident_id x) (ident_id e)"
  shows "\<exists>s'. net_step True s s' \<and> placed s' I F (fl @ [(ident_id e, ident_id x,
    GetLinkOp \<lparr>lreq_nonce = nonce, lreq_candidate = e, lreq_dir = d, lreq_level = 0\<rparr>)])"
proof -
  obtain n where n: "net_nodes s (ident_id e) = Some n" "self_identity n = e" "node_ok n"
    "\<And>d. slot (core_lt (node_core n)) 0 d = F (ident_id e) d"
    using placedD [OF assms(1,2)] by metis
  obtain m where m: "net_nodes s (ident_id x) = Some m" "core_id (node_core m) = ident_id x"
    using placedD [OF assms(1,3)] by metis
  let ?rq = "AskLink (ident_id x) d 0 nonce"
  let ?p = "(ident_id e, ident_id x,
    GetLinkOp \<lparr>lreq_nonce = nonce, lreq_candidate = e, lreq_dir = d, lreq_level = 0\<rparr>)"
  obtain n' ch where b: "begin_request n ?rq = (n', ch, snd ?p)"
    using n(2) by (cases "park n nonce (\<lambda>ch. Link ch 0 (opposite d))")
      (auto simp: send_link_request_begin_def)
  have n': "same_node n n'" "node_core n' = node_core n"
    using begin_request_keeps [OF n(3), of ?rq n' ch "fst (snd ?p)" "snd (snd ?p)"] b by auto
  have fits: "request_fits s n ?rq"
    using assms(4) m n(2) by (simp add: belongs_in_own_slot_iff belongs_def size_defs)
  let ?s = "s\<lparr>net_nodes := (net_nodes s)(ident_id e \<mapsto> n'), in_flight := in_flight s @ [?p]\<rparr>"
  have st: "net_step True s ?s"
    using net_step.ask [OF n(1), of True ?rq n' ch] fits b by simp
  have "placed ?s I (F(ident_id e := F (ident_id e))) (fl @ [?p])"
    using n(2,4) n' assms(1) by (intro placed_update [OF assms(1,2) st, where n' = n'])
      (auto simp: same_node_self_identity placed_def)
  then show ?thesis using st by auto
qed

text \<open>A link request and a link reply, delivered at level 0 where the slot takes the candidate.\<close>

lemma linked_slot0:
  assumes "node_ok n" "link_outcome d e (slot (core_lt (node_core n)) 0 d) = LinkedDirectly"
  shows "slot (core_lt (fst (core_try_link (node_core n) 0 d e))) 0 dir =
    (if dir = d then Some e else slot (core_lt (node_core n)) 0 dir)"
proof -
  have "link_slot d e (slot (core_lt (node_core n)) 0 d) = Some e"
    using assms(2) by (auto simp: link_slot_def link_outcome_def split: option.splits if_splits)
  then show ?thesis
    using assms(1) by (simp add: node_simps arr.entry_link node_ok_def ordered_core_def size_defs)
qed

lemma self_identity_link:
  "self_identity (n\<lparr>node_core := fst (core_try_link (node_core n) l d e)\<rparr>) = self_identity n"
  by (simp add: self_identity_def node_simps)

lemma placed_get_link:
  assumes "placed s I F ((origin, ident_id x, GetLinkOp \<lparr>lreq_nonce = nonce, lreq_candidate = e,
      lreq_dir = d, lreq_level = 0\<rparr>) # fl)"
    and "x \<in> I" "beyond d (ident_id x) (ident_id e)"
    and "link_outcome d e (F (ident_id x) d) = LinkedDirectly"
  shows "\<exists>s'. net_step True s s' \<and>
    placed s' I (F(ident_id x := (F (ident_id x))(d := Some e)))
      (fl @ [(ident_id x, ident_id e, SetLinkOp \<lparr>lres_nonce = nonce, lres_dir = opposite d,
         lres_level = 0, lres_linked = Some x\<rparr>)])"
proof -
  obtain n where n: "net_nodes s (ident_id x) = Some n" "self_identity n = x" "node_ok n"
    "core_id (node_core n) = ident_id x" "\<And>d. slot (core_lt (node_core n)) 0 d = F (ident_id x) d"
    using placedD [OF assms(1,2)] by metis
  let ?req = "\<lparr>lreq_nonce = nonce, lreq_candidate = e, lreq_dir = d, lreq_level = 0\<rparr>"
  let ?p = "(origin, ident_id x, GetLinkOp ?req)"
  let ?n' = "n\<lparr>node_core := fst (core_try_link (node_core n) 0 d e)\<rparr>"
  let ?q = "(ident_id x, ident_id e, SetLinkOp \<lparr>lres_nonce = nonce, lres_dir = opposite d,
    lres_level = 0, lres_linked = Some x\<rparr>)"
  have o: "ordered_core (node_core n)" "wf_table (core_lt (node_core n))"
    using n(3) by (auto simp: node_ok_def ordered_core_def)
  have out: "link_outcome d e (slot (core_lt (node_core n)) 0 d) = LinkedDirectly"
    using assms(4) n(5) by simp
  then have "snd (core_try_link (node_core n) 0 d e) = Ok LinkedDirectly"
    using o(2) by (simp add: node_simps try_link_decision size_defs)
  then obtain c where c: "core_try_link (node_core n) 0 d e = (c, Ok LinkedDirectly)"
    by (metis prod.collapse)
  have "self_identity (n\<lparr>node_core := c\<rparr>) = x"
    using self_identity_link [of n 0 d e] n(2) c by simp
  then have h: "handle_get_link_request n ?req =
      (?n', Send (ident_id e) (snd (snd ?q)) ''failed to send link response'')"
    using c assms(3) n(4)
    by (simp add: handle_get_link_request_def belongs_in_own_slot_iff belongs_def size_defs Let_def)
  have "?p \<in> set (in_flight s)" using assms(1) by (simp add: placed_def)
  then have st: "net_step True s (deliver_to s ?p n)" by (rule net_step.deliver [OF _ n(1)])
  have "placed (deliver_to s ?p n) I (F(ident_id x := (F (ident_id x))(d := Some e))) (fl @ [?q])"
  proof (rule placed_update [OF assms(1,2) st, where n' = ?n'])
    show "slot (core_lt (node_core ?n')) 0 dir = ((F (ident_id x))(d := Some e)) dir" for dir
      using linked_slot0 [OF n(3) out] n(5) by simp
  qed (use h assms(1) n(2) in \<open>simp_all add: deliver_to_def outgoing_def placed_def self_identity_link\<close>)
  then show ?thesis using st by blast
qed

lemma placed_set_link:
  assumes "placed s I F ((origin, ident_id x, SetLinkOp \<lparr>lres_nonce = nonce, lres_dir = d,
      lres_level = 0, lres_linked = Some e\<rparr>) # fl)"
    and "x \<in> I" "beyond d (ident_id x) (ident_id e)"
    and "link_outcome d e (F (ident_id x) d) = LinkedDirectly"
  shows "\<exists>s'. net_step True s s' \<and>
    placed s' I (F(ident_id x := (F (ident_id x))(d := Some e))) fl"
proof -
  obtain n where n: "net_nodes s (ident_id x) = Some n" "self_identity n = x" "node_ok n"
    "core_id (node_core n) = ident_id x" "\<And>d. slot (core_lt (node_core n)) 0 d = F (ident_id x) d"
    using placedD [OF assms(1,2)] by metis
  let ?res = "\<lparr>lres_nonce = nonce, lres_dir = d, lres_level = 0, lres_linked = Some e\<rparr>"
  let ?p = "(origin, ident_id x, SetLinkOp ?res)"
  let ?m = "n\<lparr>node_core := fst (core_try_link (node_core n) 0 d e)\<rparr>"
  let ?n' = "?m\<lparr>node_requests := resolve nonce (is_link_at 0 d) (ReplyLink ?res) (node_requests n)\<rparr>"
  have o: "ordered_core (node_core n)" using n(3) by (simp add: node_ok_def)
  have out: "link_outcome d e (slot (core_lt (node_core n)) 0 d) = LinkedDirectly"
    using assms(4) n(5) by simp
  have h: "handle_set_link_response n ?res = (?n', Done (Ok ()))"
    using assms(3) n(4)
    by (simp add: handle_set_link_response_eq [OF o] apply_set_link_eq [OF o] belongs_def
        size_defs Let_def)
  have "?p \<in> set (in_flight s)" using assms(1) by (simp add: placed_def)
  then have st: "net_step True s (deliver_to s ?p n)" by (rule net_step.deliver [OF _ n(1)])
  have "placed (deliver_to s ?p n) I (F(ident_id x := (F (ident_id x))(d := Some e))) fl"
  proof (rule placed_update [OF assms(1,2) st, where n' = ?n'])
    show "slot (core_lt (node_core ?n')) 0 dir = ((F (ident_id x))(d := Some e)) dir" for dir
      using linked_slot0 [OF n(3) out] n(5) by simp
    show "self_identity ?n' = x" using n(2) by (simp add: self_identity_def node_simps)
  qed (use h assms(1) in \<open>simp_all add: deliver_to_def outgoing_def placed_def\<close>)
  then show ?thesis using st by blast
qed

lemma level0_node_simps:
  "core_id (node_core (level0_node e l r)) = ident_id e"
  "self_identity (level0_node e l r) = e"
  "slot (core_lt (node_core (level0_node e l r))) k d =
     (if k = 0 then case d of Left \<Rightarrow> l | Right \<Rightarrow> r else None)"
  by (cases d; simp add: level0_node_def node_new_def core_new_def self_identity_def
      identity_new_def slot_simps size_defs)+

lemma level0_node_ok:
  assumes "\<And>x. l = Some x \<Longrightarrow> ident_id x < ident_id e" "\<And>x. r = Some x \<Longrightarrow> ident_id e < ident_id x"
  shows "node_ok (level0_node e l r)"
proof -
  have "wf_table (core_lt (node_core (level0_node e l r)))" "wf_requests (node_requests (level0_node e l r))"
    by (simp_all add: level0_node_def node_new_def core_new_def)
  then show ?thesis
    using assms by (auto simp: node_ok_def ordered_core_def belongs_def level0_node_simps size_defs
        split: if_splits Direction.splits)
qed

lemma net_honest_split_start:
  assumes "ident_id A < ident_id B" "ident_id B < ident_id C" "ident_id C < ident_id D"
  shows "net_honest (split_start A B C D)"
proof -
  have "ident_id A < ident_id D" using assms by simp
  then have "node_ok (level0_node A None (Some D))" "node_ok (level0_node D (Some A) None)"
    "node_ok (level0_node e None None)" for e
    by (intro level0_node_ok; simp)+
  then have "net_ok (split_start A B C D)"
    by (auto simp: net_ok_def split_start_def level0_node_simps split: if_splits)
  moreover have "truthful (split_start A B C D) A" "truthful (split_start A B C D) D"
    using assms by (auto simp: truthful_def split_start_def level0_node_simps)
  ultimately show ?thesis
    by (auto simp: net_honest_def) (auto simp: split_start_def level0_node_simps
        split: if_splits Direction.splits)
qed

lemma placed_split_start:
  assumes "ident_id A < ident_id B" "ident_id B < ident_id C" "ident_id C < ident_id D"
  shows "placed (split_start A B C D) {A, B, C, D}
    ((\<lambda>_ _. None)(ident_id A := (\<lambda>_. None)(Right := Some D), ident_id D := (\<lambda>_. None)(Left := Some A)))
    []"
proof -
  have "net_ok (split_start A B C D)"
    using net_honest_split_start [OF assms] by (simp add: net_honest_def)
  then show ?thesis
    using assms by (auto simp: placed_def split_start_def level0_node_simps split: Direction.splits)
qed

definition can ::
  "Net \<Rightarrow> Identity set \<Rightarrow> (Identifier \<Rightarrow> Direction \<Rightarrow> Identity option) \<Rightarrow> Packet list \<Rightarrow> bool" where
  "can s0 I F fl \<longleftrightarrow> (\<exists>s. reaches True s0 s \<and> placed s I F fl)"

abbreviation get_link :: "Identity \<Rightarrow> Identity \<Rightarrow> Direction \<Rightarrow> Packet" where
  "get_link e x d \<equiv> (ident_id e, ident_id x,
     GetLinkOp \<lparr>lreq_nonce = Nonce 0, lreq_candidate = e, lreq_dir = d, lreq_level = 0\<rparr>)"

abbreviation set_link :: "Identity \<Rightarrow> Identity \<Rightarrow> Direction \<Rightarrow> Packet" where
  "set_link x e d \<equiv> (ident_id x, ident_id e,
     SetLinkOp \<lparr>lres_nonce = Nonce 0, lres_dir = d, lres_level = 0, lres_linked = Some x\<rparr>)"

lemma can_start: "placed s I F fl \<Longrightarrow> can s I F fl"
  by (auto simp: can_def reaches_def)

lemma can_step:
  assumes "can s0 I F fl" "\<And>s. placed s I F fl \<Longrightarrow> \<exists>s'. net_step True s s' \<and> placed s' I F' fl'"
  shows "can s0 I F' fl'"
proof -
  obtain s where s: "reaches True s0 s" "placed s I F fl" using assms(1) by (auto simp: can_def)
  then obtain s' where "net_step True s s'" "placed s' I F' fl'" using assms(2) by blast
  then show ?thesis using s(1) unfolding can_def reaches_def by (meson rtranclp.rtrancl_into_rtrancl)
qed

lemma can_ask:
  "can s0 I F fl \<Longrightarrow> e \<in> I \<Longrightarrow> x \<in> I \<Longrightarrow> beyond d (ident_id x) (ident_id e) \<Longrightarrow>
   can s0 I F (fl @ [get_link e x d])"
  by (erule can_step) (rule placed_ask)

lemma can_get_link:
  "can s0 I F (get_link e x d # fl) \<Longrightarrow> x \<in> I \<Longrightarrow> beyond d (ident_id x) (ident_id e) \<Longrightarrow>
   link_outcome d e (F (ident_id x) d) = LinkedDirectly \<Longrightarrow>
   can s0 I (F(ident_id x := (F (ident_id x))(d := Some e))) (fl @ [set_link x e (opposite d)])"
  by (erule can_step) (rule placed_get_link)

lemma can_set_link:
  "can s0 I F (set_link x e d # fl) \<Longrightarrow> e \<in> I \<Longrightarrow> beyond d (ident_id e) (ident_id x) \<Longrightarrow>
   link_outcome d x (F (ident_id e) d) = LinkedDirectly \<Longrightarrow>
   can s0 I (F(ident_id e := (F (ident_id e))(d := Some x))) fl"
  by (erule can_step) (rule placed_set_link)

lemma split_run:
  assumes "ident_id A < ident_id B" "ident_id B < ident_id C" "ident_id C < ident_id D"
  shows "\<exists>s. reaches True (split_start A B C D) s \<and> in_flight s = [] \<and>
    net_slot s A Right = Some B \<and> net_slot s B Left = Some A \<and> net_slot s B Right = Some D \<and>
    net_slot s C Left = Some A \<and> net_slot s C Right = Some D \<and> net_slot s D Left = Some C"
proof -
  let ?s = "split_start A B C D" and ?I = "{A, B, C, D}"
  have lt: "ident_id A < ident_id C" "ident_id A < ident_id D" "ident_id B < ident_id D"
    using assms by auto
  note lts = assms lt
  note facts = lts lts [THEN less_not_sym] lts [THEN less_imp_neq] lts [THEN less_imp_neq, symmetric]
    link_outcome_def strictly_between_def
  define F where "F = (\<lambda>_ _. None)(ident_id A := (\<lambda>_. None)(Right := Some D),
    ident_id D := (\<lambda>_. None)(Left := Some A))"
  have "can ?s ?I F []" unfolding F_def by (rule can_start [OF placed_split_start [OF assms]])
  then have "can ?s ?I F ([] @ [get_link C A Right])" by (rule can_ask) (simp_all add: facts)
  then have "can ?s ?I F ([get_link C A Right] @ [get_link B A Right])"
    by (intro can_ask) (simp_all add: facts)
  then have "can ?s ?I F ([get_link C A Right, get_link B A Right] @ [get_link B D Left])"
    by (intro can_ask) (simp_all add: facts)
  then have "can ?s ?I F
      ([get_link C A Right, get_link B A Right, get_link B D Left] @ [get_link C D Left])"
    by (intro can_ask) (simp_all add: facts)
  then have c: "can ?s ?I F
      [get_link C A Right, get_link B A Right, get_link B D Left, get_link C D Left]" by simp
  define F1 where "F1 = F(ident_id A := (F (ident_id A))(Right := Some C))"
  have c1: "can ?s ?I F1 [get_link B A Right, get_link B D Left, get_link C D Left, set_link A C Left]"
    using can_get_link [OF c] by (simp add: F1_def F_def facts)
  define F2 where "F2 = F1(ident_id A := (F1 (ident_id A))(Right := Some B))"
  have c2: "can ?s ?I F2 [get_link B D Left, get_link C D Left, set_link A C Left, set_link A B Left]"
    using can_get_link [OF c1] by (simp add: F2_def F1_def F_def facts)
  define F3 where "F3 = F2(ident_id D := (F2 (ident_id D))(Left := Some B))"
  have c3: "can ?s ?I F3 [get_link C D Left, set_link A C Left, set_link A B Left, set_link D B Right]"
    using can_get_link [OF c2] by (simp add: F3_def F2_def F1_def F_def facts)
  define F4 where "F4 = F3(ident_id D := (F3 (ident_id D))(Left := Some C))"
  have c4: "can ?s ?I F4 [set_link A C Left, set_link A B Left, set_link D B Right, set_link D C Right]"
    using can_get_link [OF c3] by (simp add: F4_def F3_def F2_def F1_def F_def facts)
  define F5 where "F5 = F4(ident_id C := (F4 (ident_id C))(Left := Some A))"
  have c5: "can ?s ?I F5 [set_link A B Left, set_link D B Right, set_link D C Right]"
    using can_set_link [OF c4] by (simp add: F5_def F4_def F3_def F2_def F1_def F_def facts)
  define F6 where "F6 = F5(ident_id B := (F5 (ident_id B))(Left := Some A))"
  have c6: "can ?s ?I F6 [set_link D B Right, set_link D C Right]"
    using can_set_link [OF c5] by (simp add: F6_def F5_def F4_def F3_def F2_def F1_def F_def facts)
  define F7 where "F7 = F6(ident_id B := (F6 (ident_id B))(Right := Some D))"
  have c7: "can ?s ?I F7 [set_link D C Right]"
    using can_set_link [OF c6] by (simp add: F7_def F6_def F5_def F4_def F3_def F2_def F1_def F_def facts)
  define F8 where "F8 = F7(ident_id C := (F7 (ident_id C))(Right := Some D))"
  have c8: "can ?s ?I F8 []"
    using can_set_link [OF c7] by (simp add: F8_def F7_def F6_def F5_def F4_def F3_def F2_def F1_def F_def facts)
  from c8 obtain s where "reaches True ?s s" and s: "placed s ?I F8 []" by (auto simp: can_def)
  have sl: "net_slot s e d = F8 (ident_id e) d" if "e \<in> ?I" for e d
    using placedD [OF s that] by (metis net_slot_def bind.bind_lunit)
  show ?thesis
    using \<open>reaches True ?s s\<close> s by (intro exI [of _ s]) (simp add: sl F8_def F7_def F6_def F5_def F4_def F3_def F2_def F1_def F_def facts placed_def)
qed

end
