(* ===== verification/Delivery.thy ===== *)
theory Delivery
  imports Interleaving
begin

text \<open>
  Progress on a network with messages in flight. When no new request is made, the messages in
  flight die out: a relayed request moves strictly towards its goal at every hop, a request is
  answered once, and a reply is consumed. The bound holds for forged messages too, so no peer can
  start a message storm. On a network that loses nothing, every pending request of an honest run
  is answered by the time nothing is in flight any more.
\<close>

section \<open>Definitions\<close>

text \<open>
  One delivery: the destination handles the message, or, when no node has that identifier, the
  network refuses it and it is gone.
\<close>

inductive delivery_step :: "Net \<Rightarrow> Net \<Rightarrow> bool" where
  delivered: "(origin, i, ev) \<in> set (in_flight s) \<Longrightarrow> net_nodes s i = Some n \<Longrightarrow>
    delivery_step s (deliver_to s (origin, i, ev) n)"
| refused: "(origin, i, ev) \<in> set (in_flight s) \<Longrightarrow> net_nodes s i = None \<Longrightarrow>
    delivery_step s (s\<lparr>in_flight := remove1 (origin, i, ev) (in_flight s)\<rparr>)"

inductive_cases delivery_stepE: "delivery_step s s'"

text \<open>How many deliveries a message can still cause on a network with the nodes \<open>D\<close>.\<close>

fun event_work :: "Identifier set \<Rightarrow> Identifier \<Rightarrow> Event \<Rightarrow> nat" where
  "event_work D i (SearchByIdRequest req) =
     2 + card {x \<in> D. beyond (sreq_direction req) i x \<and>
                      \<not> beyond (sreq_direction req) (sreq_target req) x}"
| "event_work D i (GetLinkOp req) =
     2 + card {x \<in> D. beyond (lreq_dir req) i x \<and>
                      beyond (lreq_dir req) x (ident_id (lreq_candidate req))}"
| "event_work D i (GetMaxLevelOp req) = 2"
| "event_work D i (GetNeighborOp req) = 2"
| "event_work D i _ = 1"

definition packet_work :: "Identifier set \<Rightarrow> Packet \<Rightarrow> nat" where
  "packet_work D p = (case p of (origin, i, ev) \<Rightarrow> if i \<in> D then event_work D i ev else 1)"

definition net_work :: "Net \<Rightarrow> nat" where
  "net_work s = sum_list (map (packet_work (dom (net_nodes s))) (in_flight s))"

section \<open>Systems that run dry\<close>

locale draining =
  fixes ok :: "'s \<Rightarrow> bool"
    and step :: "'s \<Rightarrow> 's \<Rightarrow> bool"
    and work :: "'s \<Rightarrow> nat"
    and idle :: "'s \<Rightarrow> bool"
  assumes ok_step: "ok s \<Longrightarrow> step s s' \<Longrightarrow> ok s'"
    and work_less: "ok s \<Longrightarrow> step s s' \<Longrightarrow> work s' < work s"
    and progress: "ok s \<Longrightarrow> \<not> idle s \<Longrightarrow> \<exists>s'. step s s'"
begin

lemma ok_run: "step\<^sup>*\<^sup>* s s' \<Longrightarrow> ok s \<Longrightarrow> ok s'"
  by (induction rule: rtranclp_induct) (auto intro: ok_step)

lemma run_bounded: "(step ^^ k) s s' \<Longrightarrow> ok s \<Longrightarrow> k + work s' \<le> work s"
proof (induction k arbitrary: s')
  case (Suc k)
  then obtain t where t: "(step ^^ k) s t" "step t s'" by auto
  then have "ok t" using ok_run Suc.prems(2) by (meson relpowp_imp_rtranclp)
  then show ?case using Suc.IH [OF t(1) Suc.prems(2)] work_less [OF _ t(2)] by simp
qed simp

lemma run_dry: "ok s \<Longrightarrow> \<exists>s'. step\<^sup>*\<^sup>* s s' \<and> idle s'"
proof (induction "work s" arbitrary: s rule: less_induct)
  case less
  show ?case
  proof (cases "idle s")
    case False
    then obtain t where t: "step s t" using progress less.prems by blast
    then obtain s' where "step\<^sup>*\<^sup>* t s'" "idle s'"
      using less.hyps [OF work_less [OF less.prems t] ok_step [OF less.prems t]] by blast
    then show ?thesis using t by (meson converse_rtranclp_into_rtranclp)
  qed blast
qed

end

section \<open>Deliveries run dry\<close>

lemma delivery_step_net_step: "delivery_step s s' \<Longrightarrow> net_step honest s s'"
  by (cases rule: delivery_step.cases) (auto intro: net_step.deliver net_step.lose)

lemma delivery_dom:
  assumes "delivery_step s s'"
  shows "dom (net_nodes s') = dom (net_nodes s)"
  using assms by cases (auto simp: deliver_to_def split: prod.splits)

text \<open>The set of members ahead shrinks when the request hops onto one of them.\<close>

lemma card_ahead_less:
  assumes "finite D" "j \<in> D" "beyond d i j" "P j"
  shows "card {x \<in> D. beyond d j x \<and> P x} < card {x \<in> D. beyond d i x \<and> P x}"
proof (rule psubset_card_mono)
  have "{x \<in> D. beyond d j x \<and> P x} \<subseteq> {x \<in> D. beyond d i x \<and> P x}"
    using beyond_trans [OF assms(3)] by auto
  moreover have "j \<in> {x \<in> D. beyond d i x \<and> P x} - {x \<in> D. beyond d j x \<and> P x}"
    using assms(2-4) by simp
  ultimately show "{x \<in> D. beyond d j x \<and> P x} \<subset> {x \<in> D. beyond d i x \<and> P x}"
    by blast
qed (use assms(1) in simp)

lemma search_hop:
  assumes "ordered_core (node_core n)"
    and "handle_search_by_id_request n req = (n', Send dest ev msg)"
  shows "sreq_level req < LOOKUP_TABLE_LEVELS \<and> n' = n \<and>
    (dest = sreq_origin req \<and>
       (\<exists>res. ev = SearchByIdResponse res \<and> sres_nonce res = sreq_nonce req) \<or>
     (\<exists>l e. l \<le> sreq_level req \<and> ev = SearchByIdRequest (req\<lparr>sreq_level := l\<rparr>) \<and>
       slot (core_lt (node_core n)) l (sreq_direction req) = Some e \<and> ident_id e = dest \<and>
       beyond (sreq_direction req) (core_id (node_core n)) dest \<and>
       \<not> beyond (sreq_direction req) (sreq_target req) dest))"
proof -
  have l: "sreq_level req < LOOKUP_TABLE_LEVELS"
    using core_search_by_id_level_error [of req "node_core n"] assms(2)
    by (cases "core_search_by_id (node_core n) req")
      (auto simp: handle_search_by_id_request_def not_less [symmetric])
  have wf: "wf_table (core_lt (node_core n))" using assms(1) by (simp add: ordered_core_def)
  from wf l show ?thesis
  proof (cases rule: core_search_by_id_cases)
    case (found i k)
    then obtain e where e: "slot (core_lt (node_core n)) k (sreq_direction req) = Some e"
      "ident_id e = i" "k \<le> sreq_level req" "\<not> beyond (sreq_direction req) (sreq_target req) i"
      by (auto simp: closest_eligible_def eligible_def)
    then have "beyond (sreq_direction req) (core_id (node_core n)) i"
      using ordered_coreD(2) [OF assms(1) e(1)] by (simp add: belongs_def)
    then show ?thesis
      using found(2) assms(2) e l by (auto simp: handle_search_by_id_request_def split: if_splits)
  qed (use assms(2) l in \<open>auto simp: handle_search_by_id_request_def split: if_splits\<close>)
qed

text \<open>What a handler sends costs less than what it received.\<close>

lemma sent_work_less:
  assumes "finite D" "node_ok n" "i \<in> D" "core_id (node_core n) = i"
    and "process_incoming_event n origin ev = (n', eff)"
  shows "sum_list (map (packet_work D) (outgoing i eff)) < event_work D i ev"
proof (cases eff)
  case (Done r)
  then show ?thesis by (cases ev) (simp_all add: outgoing_def)
next
  case (Send dest ev' msg)
  have o: "ordered_core (node_core n)" using assms(2) by (simp add: node_ok_def)
  have "packet_work D (i, dest, ev') < event_work D i ev"
  proof (cases ev)
    case (SearchByIdRequest req)
    with search_hop [OF o, of req n' dest ev' msg] assms(4,5) Send show ?thesis
      using card_ahead_less [OF assms(1), of dest "sreq_direction req" i
          "\<lambda>x. \<not> beyond (sreq_direction req) (sreq_target req) x"]
      by (auto simp: packet_work_def)
  next
    case (GetLinkOp req)
    from o show ?thesis
    proof (cases rule: handle_get_link_request_cases [where req = req])
      case (forwarded x)
      then show ?thesis
        using card_ahead_less [OF assms(1), of "ident_id x" "lreq_dir req" i
            "\<lambda>y. beyond (lreq_dir req) y (ident_id (lreq_candidate req))"] assms(4,5) Send GetLinkOp
        by (auto simp: packet_work_def belongs_def)
    qed (use assms(5) Send GetLinkOp in \<open>auto simp: packet_work_def\<close>)
  qed (use assms(5) Send in \<open>auto simp: packet_work_def handle_search_by_id_response_def
      handle_get_max_level_request_def handle_ret_max_level_response_def
      handle_get_neighbor_request_def handle_ret_neighbor_response_def
      handle_set_link_response_def split: sum.splits prod.splits if_splits\<close>)
  then show ?thesis by (simp add: Send outgoing_def)
qed

lemma sum_list_remove1:
  fixes f :: "'a \<Rightarrow> nat"
  shows "x \<in> set xs \<Longrightarrow> sum_list (map f xs) = f x + sum_list (map f (remove1 x xs))"
  by (induction xs) auto

definition finite_net :: "Net \<Rightarrow> bool" where
  "finite_net s \<longleftrightarrow> net_ok s \<and> finite (dom (net_nodes s))"

lemma delivery_work_less:
  assumes "finite_net s" "delivery_step s s'"
  shows "net_work s' < net_work s"
  using assms(2)
proof cases
  case (delivered origin i ev n)
  obtain n' eff where p: "process_incoming_event n origin ev = (n', eff)" by fastforce
  let ?D = "dom (net_nodes s)"
  have "sum_list (map (packet_work ?D) (outgoing i eff)) < packet_work ?D (origin, i, ev)"
    using sent_work_less [OF _ _ _ _ p, of ?D i] assms(1) delivered(3)
    by (auto simp: packet_work_def finite_net_def net_ok_def)
  moreover have "in_flight s' = remove1 (origin, i, ev) (in_flight s) @ outgoing i eff"
    using delivered(1) p by (simp add: deliver_to_def)
  ultimately show ?thesis
    using sum_list_remove1 [OF delivered(2), of "packet_work ?D"] delivery_dom [OF assms(2)]
    by (simp add: net_work_def)
next
  case (refused origin i ev)
  then have "packet_work (dom (net_nodes s)) (origin, i, ev) = 1"
    by (simp add: packet_work_def domIff)
  then show ?thesis
    using refused sum_list_remove1 [OF refused(2), of "packet_work (dom (net_nodes s))"]
    by (simp add: net_work_def)
qed

interpretation dry: draining finite_net delivery_step net_work "\<lambda>s. in_flight s = []"
proof
  fix s s'
  assume s: "finite_net s"
  show "delivery_step s s' \<Longrightarrow> finite_net s'"
    using s net_step_keeps delivery_step_net_step delivery_dom by (metis finite_net_def)
  show "delivery_step s s' \<Longrightarrow> net_work s' < net_work s"
    by (rule delivery_work_less [OF s])
  show "\<exists>s'. delivery_step s s'" if fl: "in_flight s \<noteq> []"
  proof -
    obtain origin i ev where "(origin, i, ev) \<in> set (in_flight s)"
      using fl by (cases "in_flight s") auto
    then show ?thesis
      by (cases "net_nodes s i") (auto intro: delivery_step.intros)
  qed
qed

lemma packet_work_le:
  assumes "finite D"
  shows "packet_work D p \<le> card D + 1"
proof -
  have ahead: "card {x \<in> D. beyond d i x \<and> P x} + 1 \<le> card D" if "i \<in> D" for d i P
  proof -
    have "{x \<in> D. beyond d i x \<and> P x} \<subseteq> D - {i}" by auto
    then have "card {x \<in> D. beyond d i x \<and> P x} \<le> card (D - {i})"
      by (rule card_mono [rotated]) (simp add: assms)
    then show ?thesis using that assms card_gt_0_iff [of D] by (auto simp: card_Diff_singleton_if)
  qed
  obtain origin i ev where p: "p = (origin, i, ev)" by (cases p)
  have "card D \<ge> 1" if "i \<in> D" using that assms card_gt_0_iff [of D] by fastforce
  then show ?thesis
    using ahead [of i] by (cases ev) (auto simp: p packet_work_def)
qed

lemma net_work_le:
  assumes "finite (dom (net_nodes s))"
  shows "net_work s \<le> length (in_flight s) * (card (dom (net_nodes s)) + 1)"
  unfolding net_work_def
  using sum_list_mono [of "in_flight s" "packet_work (dom (net_nodes s))"
      "\<lambda>_. card (dom (net_nodes s)) + 1"] packet_work_le [OF assms]
  by (simp add: sum_list_triv)

section \<open>Every request is answered\<close>

text \<open>
  A network that loses nothing: messages are delivered, honest nodes make requests that name a
  level of the table and a registered node, and requests end.
\<close>

fun request_served :: "Net \<Rightarrow> Request \<Rightarrow> bool" where
  "request_served s (AskMaxLevel dest nonce) = (net_nodes s dest \<noteq> None)"
| "request_served s (AskSearch dest nonce target level d) =
     (net_nodes s dest \<noteq> None \<and> level < LOOKUP_TABLE_LEVELS)"
| "request_served s (AskNeighbor dest d level nonce) =
     (net_nodes s dest \<noteq> None \<and> level < LOOKUP_TABLE_LEVELS)"
| "request_served s (AskLink dest d level nonce) = (net_nodes s dest \<noteq> None)"

inductive reliable_step :: "Net \<Rightarrow> Net \<Rightarrow> bool" where
  rel_deliver: "delivery_step s s' \<Longrightarrow> reliable_step s s'"
| rel_ask: "net_nodes s i = Some n \<Longrightarrow> request_fits s n rq \<Longrightarrow> request_served s rq \<Longrightarrow>
    begin_request n rq = (n', ch, dest, ev) \<Longrightarrow>
    reliable_step s
      (s\<lparr>net_nodes := (net_nodes s)(i \<mapsto> n'), in_flight := in_flight s @ [(i, dest, ev)]\<rparr>)"
| rel_finish: "net_nodes s i = Some n \<Longrightarrow>
    reliable_step s (s\<lparr>net_nodes := (net_nodes s)(i \<mapsto> unpark n nonce ch)\<rparr>)"

lemma reliable_step_net_step: "reliable_step s s' \<Longrightarrow> net_step True s s'"
  by (cases rule: reliable_step.cases)
    (auto intro: net_step.ask net_step.finish delivery_step_net_step)

text \<open>
  A message carries the answer of a waiter when it is the reply, or a request that leads to it.
\<close>

fun asks_for :: "Event \<Rightarrow> Identifier \<Rightarrow> Nonce \<Rightarrow> Waiter \<Rightarrow> bool" where
  "asks_for (GetMaxLevelOp req) i nonce (MaxLevel _) =
     (mlreq_nonce req = nonce \<and> mlreq_origin req = i)"
| "asks_for (SearchByIdRequest req) i nonce (AsyncSearch _) =
     (sreq_nonce req = nonce \<and> sreq_origin req = i \<and> sreq_level req < LOOKUP_TABLE_LEVELS)"
| "asks_for (GetNeighborOp req) i nonce (Neighbor _) =
     (nreq_nonce req = nonce \<and> nreq_origin req = i \<and> nreq_level req < LOOKUP_TABLE_LEVELS)"
| "asks_for (GetLinkOp req) i nonce (Link _ level dir) =
     (lreq_nonce req = nonce \<and> ident_id (lreq_candidate req) = i \<and> lreq_level req = level \<and>
      opposite (lreq_dir req) = dir)"
| "asks_for _ _ _ _ = False"

definition carries :: "Net \<Rightarrow> Packet \<Rightarrow> Identifier \<Rightarrow> Nonce \<Rightarrow> Waiter \<Rightarrow> bool" where
  "carries s p i nonce w =
     (case p of (origin, j, ev) \<Rightarrow>
        net_nodes s j \<noteq> None \<and> (asks_for ev i nonce w \<or> j = i \<and> answers ev nonce w))"

definition accounted :: "Net \<Rightarrow> bool" where
  "accounted s \<longleftrightarrow>
     (\<forall>i n nonce w. net_nodes s i = Some n \<longrightarrow> request_id_map (node_requests n) nonce = Some w \<longrightarrow>
        (\<exists>p \<in> set (in_flight s). carries s p i nonce w))"

lemma accountedD:
  assumes "accounted s" "net_nodes s i = Some n" "request_id_map (node_requests n) nonce = Some w"
  obtains p where "p \<in> set (in_flight s)" "carries s p i nonce w"
  using assms unfolding accounted_def by blast

lemma accounted_idle:
  "accounted s \<Longrightarrow> in_flight s = [] \<Longrightarrow> net_nodes s i = Some n \<Longrightarrow>
   request_id_map (node_requests n) = Map.empty"
  by (rule ext) (metis accountedD empty_iff empty_set not_None_eq)

text \<open>A handler never adds a waiter, and removes the one that its message answers.\<close>

lemma resolve_map:
  "request_id_map (resolve m p reply r) nonce = Some w \<longleftrightarrow>
   request_id_map r nonce = Some w \<and> \<not> (m = nonce \<and> p w)"
  by (cases rule: take_waiter_cases [of r m p]) (auto simp: resolve_def tx_send_def)

lemma processed_waiters:
  assumes "node_ok n"
    and "request_id_map (node_requests (fst (process_incoming_event n origin ev))) nonce = Some w"
  shows "request_id_map (node_requests n) nonce = Some w \<and> \<not> answers ev nonce w"
proof -
  have o: "ordered_core (node_core n)" using assms(1) by (simp add: node_ok_def)
  show ?thesis
  proof (cases ev)
    case (SetLinkOp res)
    then show ?thesis
      using assms(2) apply_set_link_keeps(3) [OF assms(1), of res]
      by (cases w) (auto simp: handle_set_link_response_eq [OF o] Let_def resolve_map)
  qed (use assms(2) in \<open>cases w; auto simp: handle_search_by_id_response_def
      handle_ret_max_level_response_def handle_ret_neighbor_response_def resolve_map
      request_handlers_keep_waiters\<close>)+
qed

text \<open>A handled request passes the duty to answer on to the message it sends.\<close>

lemma asks_for_kept:
  assumes "net_honest s" "net_nodes s j = Some m" "event_fits s j ev"
    and "asks_for ev i nonce w" "net_nodes s i \<noteq> None"
  shows "\<exists>p \<in> set (outgoing j (snd (process_incoming_event m origin ev))). carries s p i nonce w"
proof -
  have m: "ordered_core (node_core m)" "wf_table (core_lt (node_core m))"
    using assms(1,2) by (auto simp: net_honest_def net_ok_def node_ok_def ordered_core_def)
  show ?thesis
  proof (cases ev)
    case (SearchByIdRequest req)
    then have l: "sreq_level req < LOOKUP_TABLE_LEVELS" using assms(4) by (cases w) auto
    obtain res where "core_search_by_id (node_core m) req = Ok res"
      using m(2) l by (cases rule: core_search_by_id_cases) auto
    then obtain dest ev' msg where h: "handle_search_by_id_request m req = (m, Send dest ev' msg)"
      by (cases "sres_result res = core_id (node_core m)")
        (simp_all add: handle_search_by_id_request_def)
    have "net_nodes s (ident_id e) \<noteq> None"
      if "slot (core_lt (node_core m)) k (sreq_direction req) = Some e" for k e
      using assms(1,2) that unfolding net_honest_def truthful_def by blast
    then have "carries s (j, dest, ev') i nonce w"
      using search_hop [OF m(1) h] SearchByIdRequest assms(4,5)
      by (cases w) (auto simp: carries_def)
    then show ?thesis using h SearchByIdRequest by (simp add: outgoing_def)
  next
    case (GetLinkOp req)
    from m(1) show ?thesis
    proof (cases rule: handle_get_link_request_cases [where req = req])
      case rejected
      then show ?thesis using assms(2,3) GetLinkOp by (auto simp: fits_at_def)
    next
      case linked
      then show ?thesis
        using GetLinkOp assms(4,5) by (cases w) (auto simp: outgoing_def carries_def)
    next
      case (forwarded x)
      then have "net_nodes s (ident_id x) \<noteq> None"
        using assms(1,2) unfolding net_honest_def truthful_def by blast
      then show ?thesis
        using forwarded GetLinkOp assms(4) by (auto simp: outgoing_def carries_def)
    qed
  next
    case (GetNeighborOp req)
    then show ?thesis
      using assms(4,5) m(2)
      by (cases w) (auto simp: outgoing_def carries_def handle_get_neighbor_request_def
          core_neighbor_entry_def arr.get_entry_law)
  next
    case (GetMaxLevelOp req)
    then show ?thesis
      using assms(4,5)
      by (cases w) (auto simp: outgoing_def carries_def handle_get_max_level_request_def
          core_max_level_def)
  qed (use assms(4) in auto)
qed

lemma carries_dom:
  "dom (net_nodes s') = dom (net_nodes s) \<Longrightarrow> carries s' p i nonce w = carries s p i nonce w"
  by (cases p) (simp add: carries_def domIff set_eq_iff)

lemma delivery_accounted:
  assumes "net_honest s" "accounted s" "delivery_step s s'"
  shows "accounted s'"
  unfolding accounted_def
proof (intro allI impI)
  fix i n nonce w
  assume n: "net_nodes s' i = Some n" "request_id_map (node_requests n) nonce = Some w"
  note dom = carries_dom [OF delivery_dom [OF assms(3)]]
  from assms(3) show "\<exists>p \<in> set (in_flight s'). carries s' p i nonce w"
  proof cases
    case (delivered origin j ev m)
    let ?r = "process_incoming_event m origin ev"
    have fl: "in_flight s' = remove1 (origin, j, ev) (in_flight s) @ outgoing j (snd ?r)"
      and nodes: "net_nodes s' = (net_nodes s)(j \<mapsto> fst ?r)"
      using delivered(1) by (simp_all add: deliver_to_def split: prod.splits)
    have m: "node_ok m" using assms(1) delivered(3) by (auto simp: net_honest_def net_ok_def)
    obtain n0 where n0: "net_nodes s i = Some n0" "request_id_map (node_requests n0) nonce = Some w"
      "j = i \<Longrightarrow> \<not> answers ev nonce w"
      using n nodes delivered(3) processed_waiters [OF m, of origin ev nonce w]
      by (auto split: if_splits)
    obtain p where p: "p \<in> set (in_flight s)" "carries s p i nonce w"
      by (rule accountedD [OF assms(2) n0(1,2)])
    show ?thesis
    proof (cases "p = (origin, j, ev)")
      case True
      then have "asks_for ev i nonce w" using p(2) n0(3) by (auto simp: carries_def)
      moreover have "event_fits s j ev" using assms(1) delivered(2) by (auto simp: net_honest_def)
      ultimately show ?thesis
        using asks_for_kept [OF assms(1) delivered(3), of ev i nonce w origin] n0(1) fl dom by auto
    next
      case False
      then show ?thesis using p fl dom by (auto simp: in_set_remove1)
    qed
  next
    case (refused origin j ev)
    then obtain p where p: "p \<in> set (in_flight s)" "carries s p i nonce w"
      using n assms(2) unfolding accounted_def by fastforce
    then have "p \<noteq> (origin, j, ev)" using refused(3) by (auto simp: carries_def)
    then show ?thesis using p refused(1) dom by (auto simp: in_set_remove1)
  qed
qed

lemma begin_request_asks:
  assumes "begin_request n rq = (n', ch, dest, ev)" "request_served s rq"
  shows "\<exists>nonce w. request_id_map (node_requests n') = (request_id_map (node_requests n))(nonce \<mapsto> w) \<and>
    asks_for ev (core_id (node_core n)) nonce w \<and> net_nodes s dest \<noteq> None"
  using assms
  by (cases rq) (auto simp: get_max_level_begin_def send_search_by_id_req_begin_def
      get_neighbor_begin_def send_link_request_begin_def park_def open_request_def Let_def
      self_identity_def identity_new_def intro!: exI)

lemma reliable_accounted:
  assumes "net_honest s" "accounted s" "reliable_step s s'"
  shows "accounted s'"
  using assms(3)
proof cases
  case rel_deliver
  then show ?thesis by (rule delivery_accounted [OF assms(1,2)])
next
  case (rel_ask i n rq n' ch dest ev)
  have id: "core_id (node_core n) = i"
    using assms(1) rel_ask(2) by (auto simp: net_honest_def net_ok_def)
  obtain nonce w where new:
    "request_id_map (node_requests n') = (request_id_map (node_requests n))(nonce \<mapsto> w)"
    "asks_for ev i nonce w" "net_nodes s dest \<noteq> None"
    using begin_request_asks [OF rel_ask(5,4)] id by blast
  have dom: "dom (net_nodes s') = dom (net_nodes s)" using rel_ask(1,2) by auto
  show ?thesis
    unfolding accounted_def carries_dom [OF dom]
  proof (intro allI impI)
    fix j m nonce' w'
    assume m: "net_nodes s' j = Some m" "request_id_map (node_requests m) nonce' = Some w'"
    show "\<exists>p \<in> set (in_flight s'). carries s p j nonce' w'"
    proof (cases "j = i \<and> nonce' = nonce")
      case True
      then show ?thesis using m new rel_ask(1) by (auto simp: carries_def)
    next
      case False
      then obtain m0 where "net_nodes s j = Some m0"
        "request_id_map (node_requests m0) nonce' = Some w'"
        using m new(1) rel_ask(1,2) by (auto split: if_splits)
      then show ?thesis using assms(2) rel_ask(1) unfolding accounted_def by fastforce
    qed
  qed
next
  case (rel_finish i n nonce ch)
  have dom: "dom (net_nodes s') = dom (net_nodes s)" using rel_finish(1,2) by auto
  have "\<exists>m0. net_nodes s j = Some m0 \<and> request_id_map (node_requests m0) nonce' = Some w'"
    if "net_nodes s' j = Some m" "request_id_map (node_requests m) nonce' = Some w'"
    for j m nonce' w'
    using that rel_finish(1,2)
    by (auto simp: unpark_def close_request_def rx_drop_def split: if_splits)
  then show ?thesis
    using assms(2) rel_finish(1) unfolding accounted_def carries_dom [OF dom] by fastforce
qed

definition reliable_run :: "Net \<Rightarrow> Net \<Rightarrow> bool" where
  "reliable_run = reliable_step\<^sup>*\<^sup>*"

definition deliveries :: "Net \<Rightarrow> Net \<Rightarrow> bool" where
  "deliveries = delivery_step\<^sup>*\<^sup>*"

lemma reliable_run_keeps:
  assumes "reliable_run s s'" "net_honest s" "accounted s"
  shows "net_honest s' \<and> accounted s' \<and> dom (net_nodes s') = dom (net_nodes s)"
  using assms(1) unfolding reliable_run_def
proof (induction rule: rtranclp_induct)
  case (step t u)
  have "dom (net_nodes u) = dom (net_nodes t)"
    using step.hyps(2) by cases (auto simp: delivery_dom)
  then show ?case
    using step.IH net_honest_step [OF _ reliable_step_net_step [OF step.hyps(2)]]
      reliable_accounted [OF _ _ step.hyps(2)] by simp
qed (use assms in simp)

lemma deliveries_reliable: "deliveries s s' \<Longrightarrow> reliable_run s s'"
  unfolding deliveries_def reliable_run_def
  by (rule mono_rtranclp [rule_format]) (auto intro: rel_deliver)

text \<open>A request is open, or settled by exactly one reply on its channel.\<close>

definition open_or_settled :: "Nonce \<Rightarrow> Waiter \<Rightarrow> Requests \<Rightarrow> bool" where
  "open_or_settled nonce w r \<longleftrightarrow>
     request_id_map r nonce = Some w \<and> oneshots r (waiter_chan w) = [] \<or>
     (\<forall>m v. request_id_map r m = Some v \<longrightarrow> waiter_chan v \<noteq> waiter_chan w) \<and>
     (\<exists>reply. oneshots r (waiter_chan w) = [TxSend reply])"

lemma resolve_chan:
  assumes "\<And>m v. request_id_map r m = Some v \<Longrightarrow> waiter_chan v \<noteq> ch"
  shows "oneshots (resolve m p reply r) ch = oneshots r ch"
  using assms
  by (cases rule: take_waiter_cases [of r m p]) (auto simp: resolve_def tx_send_def)

lemma processed_chan:
  assumes "node_ok n"
    and "\<And>m v. request_id_map (node_requests n) m = Some v \<Longrightarrow> waiter_chan v \<noteq> ch"
  shows "oneshots (node_requests (fst (process_incoming_event n origin ev))) ch =
    oneshots (node_requests n) ch"
proof -
  have o: "ordered_core (node_core n)" using assms(1) by (simp add: node_ok_def)
  show ?thesis
  proof (cases ev)
    case (SetLinkOp res)
    then show ?thesis
      using assms apply_set_link_keeps(3) [OF assms(1), of res]
      by (simp add: handle_set_link_response_eq [OF o] Let_def resolve_chan)
  qed (use assms(2) in \<open>simp_all add: handle_search_by_id_response_def
      handle_ret_max_level_response_def handle_ret_neighbor_response_def resolve_chan
      request_handlers_keep_waiters\<close>)
qed

lemma processed_open_or_settled:
  assumes "node_ok n" "open_or_settled nonce w (node_requests n)"
  shows "open_or_settled nonce w (node_requests (fst (process_incoming_event n origin ev)))"
  using assms(2) unfolding open_or_settled_def
proof (elim disjE conjE exE)
  let ?n' = "fst (process_incoming_event n origin ev)"
  assume w: "request_id_map (node_requests n) nonce = Some w"
    "oneshots (node_requests n) (waiter_chan w) = []"
  have "waiter_chan v \<noteq> waiter_chan w"
    if "request_id_map (node_requests ?n') nonce = None"
      "request_id_map (node_requests ?n') m = Some v" for m v
  proof -
    have "request_id_map (node_requests n) m = Some v"
      using processed_waiters [OF assms(1) that(2)] by simp
    moreover have "m \<noteq> nonce" using that by auto
    ultimately show ?thesis
      using wf_requestsD(3) [OF _ w(1), of m v] assms(1) by (auto simp: node_ok_def)
  qed
  then show "request_id_map (node_requests ?n') nonce = Some w \<and>
      oneshots (node_requests ?n') (waiter_chan w) = [] \<or>
    (\<forall>m v. request_id_map (node_requests ?n') m = Some v \<longrightarrow> waiter_chan v \<noteq> waiter_chan w) \<and>
      (\<exists>reply. oneshots (node_requests ?n') (waiter_chan w) = [TxSend reply])"
    using processed_pending [OF assms(1) w prod.collapse [symmetric], of ev origin]
    by (auto split: if_splits)
next
  fix reply
  let ?n' = "fst (process_incoming_event n origin ev)"
  assume w: "\<forall>m v. request_id_map (node_requests n) m = Some v \<longrightarrow> waiter_chan v \<noteq> waiter_chan w"
    "oneshots (node_requests n) (waiter_chan w) = [TxSend reply]"
  moreover have "waiter_chan v \<noteq> waiter_chan w"
    if "request_id_map (node_requests ?n') m = Some v" for m v
    using processed_waiters [OF assms(1) that] w(1) by blast
  ultimately show "request_id_map (node_requests ?n') nonce = Some w \<and>
      oneshots (node_requests ?n') (waiter_chan w) = [] \<or>
    (\<forall>m v. request_id_map (node_requests ?n') m = Some v \<longrightarrow> waiter_chan v \<noteq> waiter_chan w) \<and>
      (\<exists>reply. oneshots (node_requests ?n') (waiter_chan w) = [TxSend reply])"
    using processed_chan [OF assms(1), of "waiter_chan w" origin ev] by auto
qed

lemma deliveries_settle:
  assumes "deliveries s s'" "net_ok s" "net_nodes s i = Some n"
    and "open_or_settled nonce w (node_requests n)"
  shows "\<exists>n'. net_nodes s' i = Some n' \<and> open_or_settled nonce w (node_requests n')"
  using assms(1) unfolding deliveries_def
proof (induction rule: rtranclp_induct)
  case (step t u)
  then obtain m where m: "net_nodes t i = Some m" "open_or_settled nonce w (node_requests m)"
    by blast
  have "net_ok t"
    using step.hyps(1) assms(2)
    by (induction rule: rtranclp_induct) (auto dest: net_step_keeps delivery_step_net_step)
  then have "node_ok m" using m(1) by (auto simp: net_ok_def)
  from step.hyps(2) show ?case
  proof cases
    case (delivered origin j ev m')
    then show ?thesis
      using m processed_open_or_settled [OF \<open>node_ok m\<close> m(2), of origin ev]
      by (cases "j = i") (auto simp: deliver_to_def split: prod.splits)
  qed (use m in simp)
qed (use assms in auto)

section \<open>Properties\<close>

text \<open>
  C8. No message storm: whatever messages are in flight, forged ones included, at most one delivery
  per message and node (and one more) can follow when nothing new is asked, every delivery that is
  due can happen, and the network comes to rest.
\<close>

theorem deliveries_run_dry:
  assumes "net_ok s" "finite (dom (net_nodes s))"
  shows "((delivery_step ^^ k) s s' \<longrightarrow>
      k \<le> length (in_flight s) * (card (dom (net_nodes s)) + 1) \<and>
      (in_flight s' \<noteq> [] \<longrightarrow> (\<exists>s''. delivery_step s' s''))) \<and>
    (\<exists>s'. deliveries s s' \<and> in_flight s' = [])"
proof -
  have ok: "finite_net s" using assms by (simp add: finite_net_def)
  have "k \<le> length (in_flight s) * (card (dom (net_nodes s)) + 1) \<and>
      (in_flight s' \<noteq> [] \<longrightarrow> (\<exists>s''. delivery_step s' s''))"
    if "(delivery_step ^^ k) s s'"
    using dry.run_bounded [OF that ok] net_work_le [OF assms(2)] dry.progress
      dry.ok_run [OF relpowp_imp_rtranclp [OF that] ok] by simp
  then show ?thesis using dry.run_dry [OF ok] by (auto simp: deliveries_def)
qed

text \<open>Two neighbours and two nodes beside them; one of these asks another for its top level.\<close>

definition sample_net :: Net where
  "sample_net = split_start (sample_identity 2) (sample_identity 4) (sample_identity 6)
     (sample_identity 8)"

definition asking_net :: Net where
  "asking_net =
     (let (n', ch, dest, ev) = get_max_level_begin (level0_node (sample_identity 4) None None)
            (sample_id 2) (Nonce 7)
      in sample_net\<lparr>net_nodes := (net_nodes sample_net)(sample_id 4 \<mapsto> n'),
           in_flight := [(sample_id 4, dest, ev)]\<rparr>)"

lemma sample_net_honest: "net_honest sample_net"
  unfolding sample_net_def by (rule net_honest_split_start) simp_all

lemma sample_net_quiet:
  "net_nodes sample_net i = Some n \<Longrightarrow> request_id_map (node_requests n) = Map.empty"
  "net_nodes sample_net (sample_id 4) = Some (level0_node (sample_identity 4) None None)"
  "net_nodes sample_net (sample_id 2) \<noteq> None" "finite (dom (net_nodes sample_net))"
  "in_flight sample_net = []"
  by (auto simp: sample_net_def split_start_def level0_node_def node_new_def no_requests_def
      split: if_splits)

lemma asking_net_run: "reliable_run sample_net asking_net"
proof -
  have "reliable_step sample_net asking_net"
    using rel_ask [OF sample_net_quiet(2), of "AskMaxLevel (sample_id 2) (Nonce 7)"]
      sample_net_quiet(3,5)
    by (auto simp: asking_net_def split: prod.splits)
  then show ?thesis by (simp add: reliable_run_def)
qed

lemma asking_net_pending:
  "\<exists>n. net_nodes asking_net (sample_id 4) = Some n \<and>
     request_id_map (node_requests n) (Nonce 7) = Some (MaxLevel 0) \<and>
     oneshots (node_requests n) 0 = []"
  by (simp add: asking_net_def get_max_level_begin_def park_def open_request_def Let_def
      level0_node_def node_new_def no_requests_def insert_waiter_def)

lemma asking_net_ok: "net_ok asking_net" "finite (dom (net_nodes asking_net))"
proof -
  have "accounted sample_net" using sample_net_quiet(1) by (simp add: accounted_def)
  from reliable_run_keeps [OF asking_net_run sample_net_honest this] sample_net_quiet(4)
  show "net_ok asking_net" "finite (dom (net_nodes asking_net))" by (simp_all add: net_honest_def)
qed

theorem deliveries_run_dry_witness:
  "in_flight asking_net \<noteq> [] \<and> (\<exists>s'. deliveries asking_net s' \<and> in_flight s' = [])"
  using deliveries_run_dry [OF asking_net_ok] by (simp add: asking_net_def split: prod.splits)

text \<open>
  C7. Every request is answered: in an honest run over a network that loses nothing, any request that
  is still waiting gets exactly one reply, in whatever order the messages in flight are delivered;
  the deliveries come to an end, and then no waiter is left at any node.
\<close>

theorem pending_requests_answered:
  assumes "oneshot aw" "net_honest s" "finite (dom (net_nodes s))"
    and "\<forall>i n. net_nodes s i = Some n \<longrightarrow> request_id_map (node_requests n) = Map.empty"
    and "reliable_run s t" "net_nodes t i = Some n"
    and "request_id_map (node_requests n) nonce = Some w"
    and "oneshots (node_requests n) (waiter_chan w) = []"
  shows "(\<exists>u. deliveries t u \<and> in_flight u = []) \<and>
    (\<forall>u. deliveries t u \<longrightarrow> in_flight u = [] \<longrightarrow>
      (\<exists>n' reply. net_nodes u i = Some n' \<and>
        request_id_map (node_requests n') = Map.empty \<and>
        await_reply aw (waiter_chan w) (node_requests n') = Received reply))"
proof (intro conjI allI impI)
  have "accounted s" using assms(4) by (simp add: accounted_def)
  from reliable_run_keeps [OF assms(5,2) this] assms(3)
  have t: "net_honest t" "accounted t" "net_ok t" "finite (dom (net_nodes t))"
    by (auto simp: net_honest_def)
  then show "\<exists>u. deliveries t u \<and> in_flight u = []"
    using dry.run_dry [of t] by (auto simp: finite_net_def deliveries_def)
  fix u
  assume u: "deliveries t u" "in_flight u = []"
  have "open_or_settled nonce w (node_requests n)" using assms(7,8) by (simp add: open_or_settled_def)
  from deliveries_settle [OF u(1) t(3) assms(6) this]
  obtain n' where n': "net_nodes u i = Some n'" "open_or_settled nonce w (node_requests n')" by blast
  have "accounted u" using reliable_run_keeps [OF deliveries_reliable [OF u(1)] t(1,2)] by simp
  from accounted_idle [OF this u(2) n'(1)]
  have e: "request_id_map (node_requests n') = Map.empty" .
  then obtain reply where "oneshots (node_requests n') (waiter_chan w) = [TxSend reply]"
    using n'(2) by (auto simp: open_or_settled_def)
  then have "await_reply aw (waiter_chan w) (node_requests n') = Received reply"
    using oneshot.sent_received [OF assms(1)] by (simp add: await_reply_def)
  then show "\<exists>n' reply. net_nodes u i = Some n' \<and>
      request_id_map (node_requests n') = Map.empty \<and>
      await_reply aw (waiter_chan w) (node_requests n') = Received reply"
    using n'(1) e by blast
qed

theorem pending_requests_answered_witness:
  "\<exists>u n reply. deliveries asking_net u \<and> in_flight u = [] \<and> net_nodes u (sample_id 4) = Some n \<and>
     await_reply std_await 0 (node_requests n) = Received reply"
proof -
  obtain n where n: "net_nodes asking_net (sample_id 4) = Some n"
    "request_id_map (node_requests n) (Nonce 7) = Some (MaxLevel 0)"
    "oneshots (node_requests n) (waiter_chan (MaxLevel 0)) = []"
    using asking_net_pending by auto
  have "\<forall>i n. net_nodes sample_net i = Some n \<longrightarrow> request_id_map (node_requests n) = Map.empty"
    using sample_net_quiet(1) by blast
  from pending_requests_answered [OF std.oneshot_axioms sample_net_honest sample_net_quiet(4)
      this asking_net_run n]
  show ?thesis unfolding waiter_chan.simps by blast
qed

end
