(* ===== verification/Hub.thy ===== *)
theory Hub
  imports Base_Node
begin

text \<open>
  \<^verbatim>\<open>src/network/mock\<close> with \<^verbatim>\<open>src/network/processor.rs\<close>: the in-memory network. \<^verbatim>\<open>send_event\<close> looks the
  target up in the hub and runs its processor inside the caller's own call, which may send
  again. The model follows that recursion with a bound on its depth, so that a chain of
  messages that never ends is the value \<^term>\<open>None\<close>; how much depth is enough is proved for the
  message chains of the protocol. A processor is a clone of the node and shares its state, so
  the hub holds one state per registered identifier.
\<close>

section \<open>Definitions\<close>

record MockNetwork =
  net_id :: Identifier
  net_address :: Address
  processor :: "BaseNode option"

record NetworkHub =
  networks :: "Identifier \<rightharpoonup> MockNetwork"

definition hub_new :: NetworkHub where
  "hub_new = \<lparr>networks = Map.empty\<rparr>"

definition mock_network_new :: "Identifier \<Rightarrow> Address \<Rightarrow> MockNetwork" where
  "mock_network_new i a = \<lparr>net_id = i, net_address = a, processor = None\<rparr>"

definition new_mock_network ::
  "NetworkHub \<Rightarrow> Identifier \<Rightarrow> Address \<Rightarrow> NetworkHub \<times> Identifier result" where
  "new_mock_network hub i a =
     (if networks hub i \<noteq> None
      then (hub, Err (MsgId ''network with identifier already exists'' (as_bytes i)))
      else (hub\<lparr>networks := (networks hub)(i \<mapsto> mock_network_new i a)\<rparr>, Ok i))"

definition register_processor ::
  "NetworkHub \<Rightarrow> Identifier \<Rightarrow> BaseNode \<Rightarrow> NetworkHub \<times> unit result" where
  "register_processor hub i n =
     (case networks hub i of
        None \<Rightarrow> (hub, Err (MsgId ''network with identifier not found'' (as_bytes i)))
      | Some net \<Rightarrow>
          (case processor net of
             Some _ \<Rightarrow> (hub, Err (Msg ''an event processor is already registered''))
           | None \<Rightarrow>
               (hub\<lparr>networks := (networks hub)(i \<mapsto> net\<lparr>processor := Some n\<rparr>)\<rparr>, Ok ())))"

text \<open>
  \<^verbatim>\<open>BaseNode::new\<close> on the network handle \<open>i\<close>. A failed registration ends in \<^verbatim>\<open>throw_irrecoverable\<close>,
  which panics: \<^term>\<open>None\<close>.
\<close>

definition base_node_new :: "NetworkHub \<Rightarrow> Identifier \<Rightarrow> BaseCore \<Rightarrow> NetworkHub option" where
  "base_node_new hub i c =
     (case networks hub i of
        None \<Rightarrow> None
      | Some net \<Rightarrow>
          (case register_processor hub i (node_new c (net_address net)) of
             (hub', Ok _) \<Rightarrow> Some hub'
           | (hub', Err _) \<Rightarrow> None))"

definition node_at :: "NetworkHub \<Rightarrow> Identifier \<Rightarrow> BaseNode option" where
  "node_at hub i = Option.bind (networks hub i) processor"

definition put_node :: "NetworkHub \<Rightarrow> Identifier \<Rightarrow> BaseNode \<Rightarrow> NetworkHub" where
  "put_node hub i n =
     (case networks hub i of
        None \<Rightarrow> hub
      | Some net \<Rightarrow> hub\<lparr>networks := (networks hub)(i \<mapsto> net\<lparr>processor := Some n\<rparr>)\<rparr>)"

type_synonym outcome = "(NetworkHub \<times> unit result) option"

definition wrap_outcome :: "string \<Rightarrow> outcome \<Rightarrow> outcome" where
  "wrap_outcome msg = map_option (\<lambda>(hub, r). (hub, map_err msg r))"

definition run_effect ::
  "(NetworkHub \<Rightarrow> Identifier \<Rightarrow> Event \<Rightarrow> outcome) \<Rightarrow> NetworkHub \<Rightarrow> Effect \<Rightarrow> outcome" where
  "run_effect send hub eff =
     (case eff of
        Done r \<Rightarrow> Some (hub, r)
      | Send dest ev msg \<Rightarrow> wrap_outcome msg (send hub dest ev))"

text \<open>
  \<^verbatim>\<open>MockNetwork::incoming_event\<close> through \<^verbatim>\<open>MessageProcessor\<close>; \<open>send\<close> is the network the node sends on.
\<close>

definition incoming_event ::
  "(NetworkHub \<Rightarrow> Identifier \<Rightarrow> Event \<Rightarrow> outcome) \<Rightarrow> NetworkHub \<Rightarrow> Identifier \<Rightarrow> Identifier
   \<Rightarrow> Event \<Rightarrow> outcome" where
  "incoming_event send hub i origin_id ev =
     (case node_at hub i of
        None \<Rightarrow> Some (hub, Err (Msg ''no event processor registered''))
      | Some n \<Rightarrow>
          (let (n', eff) = process_incoming_event n origin_id ev
           in wrap_outcome ''failed to process incoming event''
                (run_effect send (put_node hub i n') eff)))"

text \<open>\<^verbatim>\<open>NetworkHub::route_event\<close>, with \<^verbatim>\<open>MockNetwork::send_event\<close> as the way back into it.\<close>

primrec route_event ::
  "nat \<Rightarrow> NetworkHub \<Rightarrow> Identifier \<Rightarrow> Identifier \<Rightarrow> Event \<Rightarrow> outcome" where
  "route_event 0 hub origin_id target_id ev = None"
| "route_event (Suc k) hub origin_id target_id ev =
     (case networks hub target_id of
        None \<Rightarrow> Some (hub, Err (MsgId ''network with identifier not found'' (as_bytes target_id)))
      | Some net \<Rightarrow>
          wrap_outcome ''hub failed to process routing event''
            (incoming_event
               (\<lambda>h dest e. wrap_outcome ''failed to route event'' (route_event k h (net_id net) dest e))
               hub target_id origin_id ev))"

definition send_event ::
  "nat \<Rightarrow> NetworkHub \<Rightarrow> Identifier \<Rightarrow> Identifier \<Rightarrow> Event \<Rightarrow> outcome" where
  "send_event k hub own target ev =
     wrap_outcome ''failed to route event'' (route_event k hub own target ev)"

subsection \<open>Requests over the hub\<close>

text \<open>
  One request of the node registered under \<open>own\<close>: park the waiter, send, and, since the hub has
  delivered everything by the time the send returns, look at the channel. A reply that is not
  there by then never comes, so the wait runs into its timeout.
\<close>

definition request_over ::
  "(NetworkHub \<Rightarrow> Identifier \<Rightarrow> Identifier \<Rightarrow> Event \<Rightarrow> outcome) \<Rightarrow> NetworkHub \<Rightarrow> Identifier
   \<Rightarrow> (BaseNode \<Rightarrow> BaseNode \<times> chan \<times> Identifier \<times> Event)
   \<Rightarrow> (BaseNode \<Rightarrow> chan \<Rightarrow> unit result \<Rightarrow> BaseNode \<times> 'a result)
   \<Rightarrow> (NetworkHub \<times> 'a result) option" where
  "request_over send hub own first_half second_half =
     Option.bind (node_at hub own) (\<lambda>n.
       let (n1, ch, dest, ev) = first_half n in
       Option.bind (send (put_node hub own n1) own dest ev) (\<lambda>(hub2, sent).
         Option.bind (node_at hub2 own) (\<lambda>n2.
           let (n3, r) = second_half n2 ch sent in Some (put_node hub2 own n3, r))))"

definition get_max_level ::
  "await_fn \<Rightarrow> nat \<Rightarrow> NetworkHub \<Rightarrow> Identifier \<Rightarrow> Identifier \<Rightarrow> Nonce
   \<Rightarrow> (NetworkHub \<times> LookupTableLevel result) option" where
  "get_max_level aw k hub own introducer nonce =
     request_over (send_event k) hub own (\<lambda>n. get_max_level_begin n introducer nonce)
       (\<lambda>n ch sent. get_max_level_end aw n nonce ch sent)"

definition send_search_by_id_req ::
  "await_fn \<Rightarrow> nat \<Rightarrow> NetworkHub \<Rightarrow> Identifier \<Rightarrow> Identifier \<Rightarrow> Nonce \<Rightarrow> Identifier \<Rightarrow> LookupTableLevel
   \<Rightarrow> Direction \<Rightarrow> (NetworkHub \<times> IdSearchRes result) option" where
  "send_search_by_id_req aw k hub own dest nonce target level d =
     request_over (send_event k) hub own (\<lambda>n. send_search_by_id_req_begin n dest nonce target level d)
       (\<lambda>n ch sent. send_search_by_id_req_end aw n nonce ch sent)"

definition search_by_id ::
  "await_fn \<Rightarrow> nat \<Rightarrow> NetworkHub \<Rightarrow> Identifier \<Rightarrow> IdSearchReq \<Rightarrow> (NetworkHub \<times> IdSearchRes result) option" where
  "search_by_id aw k hub own req =
     Option.bind (node_at hub own) (\<lambda>n.
       case map_err ''failed to perform search by id'' (core_search_by_id (node_core n) req) of
         Err e \<Rightarrow> Some (hub, Err e)
       | Ok local_res \<Rightarrow>
           if sres_result local_res = core_id (node_core n) then Some (hub, Ok local_res)
           else send_search_by_id_req aw k hub own (sres_result local_res) (sreq_nonce req)
                  (sreq_target req) (sres_termination_level local_res) (sreq_direction req))"

definition get_neighbor ::
  "await_fn \<Rightarrow> nat \<Rightarrow> NetworkHub \<Rightarrow> Identifier \<Rightarrow> Identifier \<Rightarrow> Direction \<Rightarrow> LookupTableLevel \<Rightarrow> Nonce
   \<Rightarrow> (NetworkHub \<times> Identity option result) option" where
  "get_neighbor aw k hub own from d level nonce =
     request_over (send_event k) hub own (\<lambda>n. get_neighbor_begin n from d level nonce)
       (\<lambda>n ch sent. get_neighbor_end aw n nonce ch sent)"

definition send_link_request ::
  "await_fn \<Rightarrow> nat \<Rightarrow> NetworkHub \<Rightarrow> Identifier \<Rightarrow> Identifier \<Rightarrow> Direction \<Rightarrow> LookupTableLevel \<Rightarrow> Nonce
   \<Rightarrow> (NetworkHub \<times> unit result) option" where
  "send_link_request aw k hub own dest d level nonce =
     request_over (send_event k) hub own (\<lambda>n. send_link_request_begin n dest d level nonce)
       (\<lambda>n ch sent. send_link_request_end aw n nonce ch sent)"

text \<open>
  \<^verbatim>\<open>join_stage1_link_level0\<close>. The four nonces are the draws of the four requests. The two link
  requests of \<^verbatim>\<open>tokio::join!\<close> both run; over the hub the first is complete before the second is
  polled, and the first error is the one reported.
\<close>

definition link_both ::
  "await_fn \<Rightarrow> nat \<Rightarrow> NetworkHub \<Rightarrow> Identifier \<Rightarrow> Identifier \<Rightarrow> Direction \<Rightarrow> Nonce \<Rightarrow> Identifier \<Rightarrow> Nonce
   \<Rightarrow> (NetworkHub \<times> unit result) option" where
  "link_both aw k hub own search_result d nonce1 query_id nonce2 =
     Option.bind (send_link_request aw k hub own search_result d 0 nonce1) (\<lambda>(hub1, search_res).
       Option.bind (send_link_request aw k hub1 own query_id (opposite d) 0 nonce2)
         (\<lambda>(hub2, query_res).
            Some (hub2, case search_res of Err e \<Rightarrow> Err e | Ok _ \<Rightarrow> query_res)))"

definition stage1_link ::
  "await_fn \<Rightarrow> nat \<Rightarrow> NetworkHub \<Rightarrow> Identifier \<Rightarrow> Identifier \<Rightarrow> Direction \<Rightarrow> Nonce \<Rightarrow> Nonce \<Rightarrow> Nonce
   \<Rightarrow> (NetworkHub \<times> unit result) option" where
  "stage1_link aw k hub own search_result d nonce_query nonce1 nonce2 =
     Option.bind (get_neighbor aw k hub own search_result d 0 nonce_query) (\<lambda>(hub1, q).
       case q of
         Err e \<Rightarrow> Some (hub1, Err e)
       | Ok (Some query_identity) \<Rightarrow>
           link_both aw k hub1 own search_result d nonce1 (ident_id query_identity) nonce2
       | Ok None \<Rightarrow> send_link_request aw k hub1 own search_result d 0 nonce1)"

definition join_stage1_link_level0 ::
  "await_fn \<Rightarrow> nat \<Rightarrow> NetworkHub \<Rightarrow> Identifier \<Rightarrow> Identifier \<Rightarrow> LookupTableLevel
   \<Rightarrow> Nonce \<times> Nonce \<times> Nonce \<times> Nonce \<Rightarrow> (NetworkHub \<times> unit result) option" where
  "join_stage1_link_level0 aw k hub own introducer max_level nonces =
     (let (nonce_search, nonce_query, nonce1, nonce2) = nonces in
      Option.bind (node_at hub own) (\<lambda>n.
      let own_id = core_id (node_core n) in
      case stage1_direction introducer own_id of
        Err e \<Rightarrow> Some (hub, Err e)
      | Ok search_direction \<Rightarrow>
          Option.bind
            (send_search_by_id_req aw k hub own introducer nonce_search own_id max_level
               search_direction)
            (\<lambda>(hub1, res).
               case res of
                 Err e \<Rightarrow> Some (hub1, Err e)
               | Ok r \<Rightarrow>
                   if sres_result r = own_id
                   then Some (hub1, Err (Msg ''stage-1 search resolved a node with this node's own id, another node already holds it''))
                   else stage1_link aw k hub1 own (sres_result r) search_direction
                          nonce_query nonce1 nonce2)))"

section \<open>The hub invariant\<close>

definition hub_ok :: "NetworkHub \<Rightarrow> bool" where
  "hub_ok hub \<longleftrightarrow>
     (\<forall>i net. networks hub i = Some net \<longrightarrow> net_id net = i \<and>
        (\<forall>n. processor net = Some n \<longrightarrow>
           core_id (node_core n) = i \<and> node_address n = net_address net \<and> node_ok n))"

lemma node_at_Some: "node_at hub i = Some n \<longleftrightarrow> (\<exists>net. networks hub i = Some net \<and> processor net = Some n)"
  by (auto simp: node_at_def bind_eq_Some_conv)

lemma node_at_networks: "node_at hub i = Some n \<Longrightarrow> networks hub i \<noteq> None"
  by (auto simp: node_at_Some)

lemma hub_okD:
  assumes "hub_ok hub" "node_at hub i = Some n"
  shows "core_id (node_core n) = i" "node_ok n" "ordered_core (node_core n)"
    "wf_requests (node_requests n)" "wf_table (core_lt (node_core n))"
  using assms unfolding hub_ok_def node_at_Some node_ok_def ordered_core_def by blast+

lemma node_at_put_node [simp]:
  "node_at (put_node hub i n) j =
     (if j = i \<and> networks hub i \<noteq> None then Some n else node_at hub j)"
  by (auto simp: node_at_def put_node_def split: option.splits)

lemma networks_put_node:
  "networks (put_node hub i n) j =
     (if j = i then map_option (\<lambda>net. net\<lparr>processor := Some n\<rparr>) (networks hub i)
      else networks hub j)"
  by (auto simp: put_node_def split: option.splits)

lemma hub_ok_put_node:
  assumes "hub_ok hub" "node_at hub i = Some m" "same_node m n" "node_ok n"
  shows "hub_ok (put_node hub i n)"
  using assms by (auto simp: hub_ok_def networks_put_node node_at_Some same_node_def)

text \<open>
  What any traffic leaves alone: which networks exist and the identity of the node behind each.
\<close>

definition evolves :: "NetworkHub \<Rightarrow> NetworkHub \<Rightarrow> bool" where
  "evolves hub hub' \<longleftrightarrow>
     (\<forall>i. (networks hub' i = None) = (networks hub i = None)) \<and>
     (\<forall>i. rel_option same_node (node_at hub i) (node_at hub' i))"

lemma evolves_refl [simp]: "evolves hub hub"
  by (simp add: evolves_def option.rel_refl)

lemma evolves_trans: "evolves a b \<Longrightarrow> evolves b c \<Longrightarrow> evolves a c"
proof -
  have "rel_option same_node x y \<Longrightarrow> rel_option same_node y z \<Longrightarrow> rel_option same_node x z"
    for x y z
    by (cases x; cases y; cases z) (auto elim: same_node_trans)
  then show "evolves a b \<Longrightarrow> evolves b c \<Longrightarrow> evolves a c"
    unfolding evolves_def by blast
qed

lemma evolves_put_node:
  "node_at hub i = Some m \<Longrightarrow> same_node m n \<Longrightarrow> evolves hub (put_node hub i n)"
  by (simp add: evolves_def networks_put_node option.rel_refl node_at_networks)

lemma evolves_node:
  assumes "evolves hub hub'" "node_at hub i = Some n"
  obtains n' where "node_at hub' i = Some n'" "same_node n n'"
  using assms unfolding evolves_def by (metis option.rel_cases option.distinct(1) option.inject)

lemma put_node_same: "node_at hub i = Some n \<Longrightarrow> put_node hub i n = hub"
  by (auto simp: node_at_Some put_node_def fun_upd_idem)

lemma put_node_twice [simp]: "put_node (put_node hub i n) i m = put_node hub i m"
  by (auto simp: put_node_def split: option.splits)

lemma put_node_swap: "i \<noteq> j \<Longrightarrow> put_node (put_node hub i n) j m = put_node (put_node hub j m) i n"
  by (auto simp: put_node_def fun_upd_twist split: option.splits)

lemma wrap_outcome_simps [simp]:
  "wrap_outcome m None = None"
  "wrap_outcome m (Some (h, r)) = Some (h, map_err m r)"
  by (simp_all add: wrap_outcome_def)

lemma wrap_outcome_Some:
  "wrap_outcome m x = Some (h, r) \<longleftrightarrow> (\<exists>r'. x = Some (h, r') \<and> r = map_err m r')"
  by (cases x) (auto simp: wrap_outcome_def)

lemma request_overE:
  assumes "request_over send hub own first second = Some (hub', r)"
  obtains n n1 ch dest ev hub2 sent n2 n3 where
    "node_at hub own = Some n" "first n = (n1, ch, dest, ev)"
    "send (put_node hub own n1) own dest ev = Some (hub2, sent)"
    "node_at hub2 own = Some n2" "second n2 ch sent = (n3, r)" "hub' = put_node hub2 own n3"
proof -
  obtain n where n: "node_at hub own = Some n"
    using assms by (cases "node_at hub own") (auto simp: request_over_def)
  obtain n1 ch dest ev where f: "first n = (n1, ch, dest, ev)" by (metis surj_pair)
  obtain hub2 sent where s: "send (put_node hub own n1) own dest ev = Some (hub2, sent)"
    using assms n f by (cases "send (put_node hub own n1) own dest ev") (auto simp: request_over_def)
  obtain n2 where n2: "node_at hub2 own = Some n2"
    using assms n f s by (cases "node_at hub2 own") (auto simp: request_over_def)
  obtain n3 r' where g: "second n2 ch sent = (n3, r')" by fastforce
  from assms n f s n2 g show thesis
    by (intro that [OF n f s n2]) (auto simp: request_over_def)
qed

section \<open>The network interface\<close>

locale network =
  fixes send :: "NetworkHub \<Rightarrow> Identifier \<Rightarrow> Identifier \<Rightarrow> Event \<Rightarrow> outcome"
  assumes send_keeps: "hub_ok hub \<Longrightarrow> send hub own dest ev = Some (hub', r) \<Longrightarrow>
    hub_ok hub' \<and> evolves hub hub'"
begin

text \<open>A request whose two halves keep the node's invariant keeps the hub's.\<close>

lemma request_keeps:
  assumes "hub_ok hub" "request_over send hub own first second = Some (hub', r)"
    and first: "\<And>n. node_ok n \<Longrightarrow> node_ok (fst (first n)) \<and> same_node n (fst (first n))"
    and second: "\<And>n ch s. node_ok n \<Longrightarrow>
      node_ok (fst (second n ch s)) \<and> same_node n (fst (second n ch s))"
  shows "hub_ok hub' \<and> evolves hub hub'"
proof -
  from assms(2) obtain n n1 ch dest ev hub2 sent n2 n3 where
    n: "node_at hub own = Some n" and f: "first n = (n1, ch, dest, ev)"
    and s: "send (put_node hub own n1) own dest ev = Some (hub2, sent)"
    and n2: "node_at hub2 own = Some n2" and g: "second n2 ch sent = (n3, r)"
    and hub': "hub' = put_node hub2 own n3"
    by (rule request_overE)
  have n1: "node_ok n1" "same_node n n1"
    using first [of n] hub_okD(2) [OF assms(1) n] f by auto
  have h1: "hub_ok (put_node hub own n1)" "evolves hub (put_node hub own n1)"
    using hub_ok_put_node [OF assms(1) n n1(2,1)] evolves_put_node [OF n n1(2)] by auto
  have h2: "hub_ok hub2" "evolves (put_node hub own n1) hub2"
    using send_keeps [OF h1(1) s] by auto
  have n3: "node_ok n3" "same_node n2 n3"
    using second [of n2 ch sent] hub_okD(2) [OF h2(1) n2] g by auto
  show ?thesis
    using hub_ok_put_node [OF h2(1) n2 n3(2,1)] evolves_put_node [OF n2 n3(2)] h1(2) h2(2) hub'
    by (auto intro: evolves_trans)
qed

end

lemma route_event_keeps:
  "hub_ok hub \<Longrightarrow> route_event k hub origin target ev = Some (hub', r) \<Longrightarrow>
   hub_ok hub' \<and> evolves hub hub'"
proof (induction k arbitrary: hub origin target ev hub' r)
  case (Suc k)
  show ?case
  proof (cases "node_at hub target")
    case None
    then show ?thesis using Suc.prems
      by (auto simp: incoming_event_def wrap_outcome_Some split: option.splits)
  next
    case (Some n)
    then obtain net where net: "networks hub target = Some net" by (auto simp: node_at_Some)
    obtain n' eff where p: "process_incoming_event n origin ev = (n', eff)" by fastforce
    have n': "node_ok n'" "same_node n n'"
      using process_incoming_event_keeps [OF hub_okD(2) [OF Suc.prems(1) Some], of origin ev] p
      by auto
    have h: "hub_ok (put_node hub target n')" "evolves hub (put_node hub target n')"
      using hub_ok_put_node [OF Suc.prems(1) Some n'(2,1)] evolves_put_node [OF Some n'(2)] by auto
    show ?thesis
    proof (cases eff)
      case (Done x)
      then show ?thesis using Suc.prems(2) net Some p h
        by (auto simp: incoming_event_def run_effect_def)
    next
      case (Send dest e msg)
      then obtain r' where "route_event k (put_node hub target n') (net_id net) dest e = Some (hub', r')"
        using Suc.prems(2) net Some p
        by (auto simp: incoming_event_def run_effect_def wrap_outcome_Some)
      from Suc.IH [OF h(1) this] h(2) show ?thesis by (auto intro: evolves_trans)
    qed
  qed
qed simp

interpretation hub_net: network "send_event k" for k
  by unfold_locales (auto simp: send_event_def wrap_outcome_Some dest: route_event_keeps)

section \<open>One hop\<close>

lemma route_to_node:
  assumes "networks hub i = Some net" "node_at hub i = Some n"
    and "process_incoming_event n origin ev = (n', eff)"
  shows "route_event (Suc k) hub origin i ev =
    wrap_outcome ''hub failed to process routing event''
      (wrap_outcome ''failed to process incoming event''
        (case eff of
           Done r \<Rightarrow> Some (put_node hub i n', r)
         | Send dest e msg \<Rightarrow>
             wrap_outcome msg (wrap_outcome ''failed to route event''
               (route_event k (put_node hub i n') (net_id net) dest e))))"
  using assms by (simp add: incoming_event_def run_effect_def split: Effect.splits)

lemma route_done:
  assumes "node_at hub i = Some n" "process_incoming_event n origin ev = (n', Done r)"
  shows "\<exists>r'. route_event (Suc k) hub origin i ev = Some (put_node hub i n', r') \<and> is_ok r' = is_ok r"
  using assms node_at_networks [OF assms(1)] by (auto simp: incoming_event_def run_effect_def)

lemma route_done_ok:
  "node_at hub i = Some n \<Longrightarrow> process_incoming_event n origin ev = (n', Done (Ok ())) \<Longrightarrow>
   route_event (Suc k) hub origin i ev = Some (put_node hub i n', Ok ())"
  using node_at_networks [of hub i n] by (auto simp: incoming_event_def run_effect_def)

lemma route_send_ok:
  assumes "hub_ok hub" "node_at hub i = Some n"
    and "process_incoming_event n origin ev = (n', Send dest e msg)"
    and "route_event k (put_node hub i n') i dest e = Some (hub', Ok ())"
  shows "route_event (Suc k) hub origin i ev = Some (hub', Ok ())"
proof -
  from assms(2) obtain net where net: "networks hub i = Some net" by (auto simp: node_at_Some)
  then have "net_id net = i" using assms(1) by (simp add: hub_ok_def)
  then show ?thesis using route_to_node [OF net assms(2,3)] assms(4) by simp
qed

section \<open>Tables\<close>

definition table_at :: "NetworkHub \<Rightarrow> Identifier \<Rightarrow> InnerArrayLookupTable option" where
  "table_at hub i = map_option (\<lambda>n. core_lt (node_core n)) (node_at hub i)"

lemma table_at_put_node:
  "node_at hub i = Some m \<Longrightarrow> core_lt (node_core n) = core_lt (node_core m) \<Longrightarrow>
   table_at (put_node hub i n) j = table_at hub j"
  by (auto simp: table_at_def node_at_networks)

section \<open>Properties\<close>

text \<open>
  Whatever message is routed through the hub, and however long the chain of messages is that it
  sets off, the hub's networks and the identity of every node stay as they were and every node's
  table stays ordered.
\<close>

theorem any_traffic_keeps_hub:
  assumes "hub_ok hub" "route_event k hub origin target ev = Some (hub', r)"
  shows "hub_ok hub' \<and>
    (\<forall>i. (networks hub' i = None) = (networks hub i = None)) \<and>
    (\<forall>i. map_option self_identity (node_at hub' i) = map_option self_identity (node_at hub i))"
proof -
  have k: "hub_ok hub'" "evolves hub hub'" using route_event_keeps [OF assms] by auto
  have "map_option self_identity (node_at hub' i) = map_option self_identity (node_at hub i)" for i
  proof -
    from k(2) have "rel_option same_node (node_at hub i) (node_at hub' i)" by (simp add: evolves_def)
    then show ?thesis
      by (cases rule: option.rel_cases) (simp_all add: same_node_def self_identity_def)
  qed
  with k show ?thesis by (simp add: evolves_def)
qed

theorem any_traffic_keeps_hub_witness:
  "hub_ok hub_new \<and>
   route_event 1 hub_new (sample_id 2) (sample_id 3) (TestMessage ''x'') =
     Some (hub_new, Err (MsgId ''network with identifier not found'' (as_bytes (sample_id 3))))"
proof -
  have "hub_ok hub_new" by (simp add: hub_ok_def hub_new_def)
  moreover have r: "route_event 1 hub_new (sample_id 2) (sample_id 3) (TestMessage ''x'') =
      Some (hub_new, Err (MsgId ''network with identifier not found'' (as_bytes (sample_id 3))))"
    by (simp add: hub_new_def)
  ultimately show ?thesis using any_traffic_keeps_hub [OF _ r] by blast
qed

text \<open>
  A join through an introducer with the joining node's own identifier is refused before anything
  is sent: the hub is unchanged and the call returns the collision error.
\<close>

theorem introducer_collision:
  assumes "hub_ok hub" "node_at hub own = Some n"
  shows "join_stage1_link_level0 aw k hub own own max_level nonces =
    Some (hub, Err (Msg ''introducer id collides with this node's own id, cannot determine stage-1 search direction''))"
  using assms hub_okD(1) [OF assms]
  by (simp add: join_stage1_link_level0_def stage1_direction_def split: prod.splits)

text \<open>One registered node, for concrete instances.\<close>

definition one_node_hub :: NetworkHub where
  "one_node_hub =
     \<lparr>networks = [sample_id 2 \<mapsto>
        \<lparr>net_id = sample_id 2, net_address = \<lparr>host = ''localhost'', port = ''0''\<rparr>,
         processor = Some sample_node\<rparr>]\<rparr>"

lemma one_node_hub_ok: "hub_ok one_node_hub" "node_at one_node_hub (sample_id 2) = Some sample_node"
  by (auto simp: hub_ok_def one_node_hub_def node_at_def sample_node_def node_new_def core_new_def
      split: if_splits) (use node_ok_sample in \<open>simp add: sample_node_def node_new_def core_new_def\<close>)

theorem introducer_collision_witness:
  "join_stage1_link_level0 std_await 5 one_node_hub (sample_id 2) (sample_id 2) 0
     (Nonce 1, Nonce 2, Nonce 3, Nonce 4) =
   Some (one_node_hub, Err (Msg ''introducer id collides with this node's own id, cannot determine stage-1 search direction''))"
  by (rule introducer_collision [OF one_node_hub_ok])

text \<open>
  Registration on the hub: an identifier gets at most one network and a network at most one
  processor, a refused registration changes nothing, and a message to a target that has no
  processor is an error that changes nothing.
\<close>

theorem hub_registration:
  assumes "node_at hub i = None"
  shows "(if networks hub i = None
      then networks (fst (new_mock_network hub i a)) = (networks hub)(i \<mapsto> mock_network_new i a) \<and>
        snd (new_mock_network hub i a) = Ok i
      else fst (new_mock_network hub i a) = hub \<and> \<not> is_ok (snd (new_mock_network hub i a))) \<and>
    (if networks hub i = None
      then fst (register_processor hub i n) = hub \<and> \<not> is_ok (snd (register_processor hub i n))
      else node_at (fst (register_processor hub i n)) i = Some n \<and>
        snd (register_processor hub i n) = Ok () \<and>
        register_processor (fst (register_processor hub i n)) i m =
          (fst (register_processor hub i n), Err (Msg ''an event processor is already registered''))) \<and>
    (\<exists>r. send_event (Suc k) hub own i ev = Some (hub, r) \<and> \<not> is_ok r)"
  using assms
  by (auto simp: new_mock_network_def register_processor_def node_at_def send_event_def
      incoming_event_def split: option.splits)

theorem hub_registration_witness:
  "snd (new_mock_network hub_new (sample_id 3) \<lparr>host = ''h'', port = ''1''\<rparr>) = Ok (sample_id 3) \<and>
   fst (register_processor hub_new (sample_id 3) sample_node) = hub_new"
proof -
  have "node_at hub_new (sample_id 3) = None" "networks hub_new (sample_id 3) = None"
    by (simp_all add: node_at_def hub_new_def)
  then show ?thesis
    using hub_registration [of hub_new "sample_id 3" "\<lparr>host = ''h'', port = ''1''\<rparr>" sample_node]
    by simp
qed

end
