(* ===== verification/Round_Trips.thy ===== *)
theory Round_Trips
  imports Hub
begin

text \<open>
  Requests that one node answers in place: \<^verbatim>\<open>get_max_level\<close> and \<^verbatim>\<open>get_neighbor\<close>. Over the hub the call
  returns exactly what the queried table holds, changes no table, and leaves no waiter behind.
\<close>

section \<open>Parking and unparking\<close>

lemma park_eq:
  assumes "wf_requests (node_requests n)" "\<And>ch. waiter_chan (mk ch) = ch" "park n nonce mk = (ch, n1)"
  obtains r where "n1 = n\<lparr>node_requests := r\<rparr>" "open_request nonce mk (node_requests n) = (ch, r)"
    "wf_requests r"
  using assms open_request_wf [of "node_requests n" mk nonce]
  by (auto simp: park_def split: prod.splits)

lemma unpark_simps [simp]:
  "node_core (unpark n nonce ch) = node_core n"
  "node_address (unpark n nonce ch) = node_address n"
  "node_requests (unpark n nonce ch) = close_request nonce ch (node_requests n)"
  by (simp_all add: unpark_def)

lemma close_request_map [simp]:
  "request_id_map (close_request nonce ch r) = (request_id_map r)(nonce := None)"
  by (simp add: close_request_def rx_drop_def)

section \<open>A request that is answered\<close>

text \<open>
  The node \<open>own\<close> parks a waiter of some kind and sends; the message chain ends with the reply
  resolving that waiter and nothing else changed. Then the second half sees the reply.
\<close>

context oneshot
begin

lemma answered_request:
  assumes "hub_ok hub" "node_at hub own = Some n" "request_kind mk expected"
    and first: "first n = (snd (park n nonce mk), fst (park n nonce mk), dest, ev)"
    and sent: "\<And>r. wf_requests r \<Longrightarrow>
      send_event k (put_node hub own (n\<lparr>node_requests := r\<rparr>)) own dest ev =
        Some (G (m\<lparr>node_requests := resolve nonce expected reply r\<rparr>), Ok ())"
    and G: "\<And>x. node_at (G x) own = Some x" "\<And>x y. put_node (G x) own y = G y"
    and second: "\<And>n2 ch. await_reply aw ch (node_requests n2) = Received reply \<Longrightarrow>
      second n2 ch (Ok ()) = (unpark n2 nonce ch, res)"
  shows "\<exists>r. request_over (send_event k) hub own first second =
      Some (G (m\<lparr>node_requests := r\<rparr>), res) \<and>
    wf_requests r \<and> request_id_map r = (request_id_map (node_requests n))(nonce := None)"
proof -
  obtain ch r1 where op: "open_request nonce mk (node_requests n) = (ch, r1)" by fastforce
  have pk: "park n nonce mk = (ch, n\<lparr>node_requests := r1\<rparr>)" by (simp add: park_def op)
  have r1: "pending mk nonce ch r1" "wf_requests r1"
    using request_kind.opened [OF assms(3) hub_okD(4) [OF assms(1,2)] op] by auto
  let ?r2 = "resolve nonce expected reply r1"
  have "await_reply aw ch ?r2 = Received reply"
    by (rule awaited_kind.answered [OF awaited_kindI [OF assms(3) oneshot_axioms] r1(1)])
  then have "request_over (send_event k) hub own first second =
      Some (G (m\<lparr>node_requests := close_request nonce ch ?r2\<rparr>), res)"
    using assms(2) sent [OF r1(2)] by (simp add: request_over_def first pk G second unpark_def)
  moreover have "wf_requests (close_request nonce ch ?r2)" by (simp add: keeps r1(2))
  moreover have "request_id_map r1 = (request_id_map (node_requests n))(nonce \<mapsto> mk ch)"
    using op by (auto simp: open_request_def Let_def)
  then have "request_id_map (close_request nonce ch ?r2) =
      (request_id_map (node_requests n))(nonce := None)"
    by (simp add: request_kind.answered_removed [OF assms(3) r1(1)])
  ultimately show ?thesis by blast
qed

end

section \<open>Answers given in place\<close>

text \<open>
  The destination replies from its own state without changing it, and the reply's handler only
  resolves the waiter.
\<close>

lemma direct_reply:
  assumes "hub_ok hub" "node_at hub own = Some n" "node_at hub dest = Some d" "wf_requests r"
    and ask: "\<And>d'. node_core d' = node_core d \<Longrightarrow>
      process_incoming_event d' own ev = (d', Send own rep msg)"
    and answer: "\<And>n'. process_incoming_event n' dest rep =
      (n'\<lparr>node_requests := resolve nonce expected reply (node_requests n')\<rparr>, Done (Ok ()))"
    and "2 \<le> k"
  shows "send_event k (put_node hub own (n\<lparr>node_requests := r\<rparr>)) own dest ev =
    Some (put_node hub own (n\<lparr>node_requests := resolve nonce expected reply r\<rparr>), Ok ())"
proof -
  let ?n1 = "n\<lparr>node_requests := r\<rparr>"
  let ?h = "put_node hub own ?n1"
  obtain k' where k: "k = Suc (Suc k')" using le_Suc_ex [OF assms(7)] by auto
  have own: "node_at ?h own = Some ?n1" using node_at_networks [OF assms(2)] by simp
  have ok: "hub_ok ?h"
    using hub_okD(3) [OF assms(1,2)] assms(4)
    by (intro hub_ok_put_node [OF assms(1,2)]) (simp_all add: node_ok_def)
  obtain d' where d': "node_at ?h dest = Some d'" "node_core d' = node_core d"
    using assms(2,3) by (cases "dest = own") (auto simp: node_at_networks)
  have "route_event (Suc k') ?h dest own rep =
      Some (put_node ?h own (?n1\<lparr>node_requests := resolve nonce expected reply r\<rparr>), Ok ())"
    using route_done_ok [OF own answer] by simp
  then have "route_event (Suc (Suc k')) ?h own dest ev =
      Some (put_node hub own (n\<lparr>node_requests := resolve nonce expected reply r\<rparr>), Ok ())"
    using route_send_ok [OF ok d'(1) ask [OF d'(2)]] put_node_same [OF d'(1)] by simp
  then show ?thesis by (simp add: send_event_def k del: route_event.simps)
qed

context oneshot
begin

lemma get_max_level_answer:
  assumes "hub_ok hub" "node_at hub own = Some n" "node_at hub introducer = Some d" "2 \<le> k"
  shows "\<exists>r. get_max_level aw k hub own introducer nonce =
      Some (put_node hub own (n\<lparr>node_requests := r\<rparr>),
            Ok (case max_populated_level (core_lt (node_core d)) of Some l \<Rightarrow> l | None \<Rightarrow> 0)) \<and>
    wf_requests r \<and> request_id_map r = (request_id_map (node_requests n))(nonce := None)"
proof -
  let ?lvl = "case max_populated_level (core_lt (node_core d)) of Some l \<Rightarrow> l | None \<Rightarrow> 0"
  let ?req = "\<lparr>mlreq_nonce = nonce, mlreq_origin = core_id (node_core n)\<rparr>"
  let ?res = "\<lparr>mlres_nonce = nonce, mlres_max_level = ?lvl\<rparr>"
  have id: "core_id (node_core n) = own" by (rule hub_okD(1) [OF assms(1,2)])
  show ?thesis
    unfolding get_max_level_def
  proof (rule answered_request [OF assms(1,2) max_level_kind.request_kind_axioms,
        where reply = "ReplyMaxLevel ?res"])
    show "get_max_level_begin n introducer nonce =
        (snd (park n nonce MaxLevel), fst (park n nonce MaxLevel), introducer, GetMaxLevelOp ?req)"
      by (simp add: get_max_level_begin_def split: prod.splits)
    fix r :: Requests
    assume r: "wf_requests r"
    show "send_event k (put_node hub own (n\<lparr>node_requests := r\<rparr>)) own introducer (GetMaxLevelOp ?req) =
        Some (put_node hub own (n\<lparr>node_requests :=
          resolve nonce is_max_level (ReplyMaxLevel ?res) r\<rparr>), Ok ())"
    proof (rule direct_reply [OF assms(1,2,3) r _ _ assms(4), where rep = "RetMaxLevelOp ?res"
          and msg = "''failed to send max level response''"])
      fix d' :: BaseNode
      assume "node_core d' = node_core d"
      then show "process_incoming_event d' own (GetMaxLevelOp ?req) =
          (d', Send own (RetMaxLevelOp ?res) ''failed to send max level response'')"
        by (simp add: handle_get_max_level_request_def core_max_level_def id)
    qed (simp add: handle_ret_max_level_response_def)
  qed (simp_all add: get_max_level_end_def node_at_networks [OF assms(2)])
qed

lemma get_neighbor_answer:
  assumes "hub_ok hub" "node_at hub own = Some n" "node_at hub from = Some d" "2 \<le> k"
    and "level < LOOKUP_TABLE_LEVELS"
  shows "\<exists>r. get_neighbor aw k hub own from dir level nonce =
      Some (put_node hub own (n\<lparr>node_requests := r\<rparr>), Ok (slot (core_lt (node_core d)) level dir)) \<and>
    wf_requests r \<and> request_id_map r = (request_id_map (node_requests n))(nonce := None)"
proof -
  let ?s = "slot (core_lt (node_core d)) level dir"
  let ?req = "\<lparr>nreq_nonce = nonce, nreq_origin = core_id (node_core n), nreq_level = level,
    nreq_direction = dir\<rparr>"
  let ?res = "\<lparr>nres_nonce = nonce, nres_level = level, nres_direction = dir, nres_neighbor = ?s\<rparr>"
  have id: "core_id (node_core n) = own" by (rule hub_okD(1) [OF assms(1,2)])
  have get: "get_entry (core_lt (node_core d)) level dir = Ok ?s"
    by (rule arr.get_entry_law [OF hub_okD(5) [OF assms(1,3)] assms(5)])
  show ?thesis
    unfolding get_neighbor_def
  proof (rule answered_request [OF assms(1,2) neighbor_kind.request_kind_axioms,
        where reply = "ReplyNeighbor ?res"])
    show "get_neighbor_begin n from dir level nonce =
        (snd (park n nonce Neighbor), fst (park n nonce Neighbor), from, GetNeighborOp ?req)"
      by (simp add: get_neighbor_begin_def split: prod.splits)
    fix r :: Requests
    assume r: "wf_requests r"
    show "send_event k (put_node hub own (n\<lparr>node_requests := r\<rparr>)) own from (GetNeighborOp ?req) =
        Some (put_node hub own (n\<lparr>node_requests :=
          resolve nonce is_neighbor (ReplyNeighbor ?res) r\<rparr>), Ok ())"
    proof (rule direct_reply [OF assms(1,2,3) r _ _ assms(4), where rep = "RetNeighborOp ?res"
          and msg = "''failed to send neighbor response''"])
      fix d' :: BaseNode
      assume "node_core d' = node_core d"
      then show "process_incoming_event d' own (GetNeighborOp ?req) =
          (d', Send own (RetNeighborOp ?res) ''failed to send neighbor response'')"
        by (simp add: handle_get_neighbor_request_def core_neighbor_entry_def get id)
    qed (simp add: handle_ret_neighbor_response_def)
  qed (simp_all add: get_neighbor_end_def node_at_networks [OF assms(2)])
qed

end

section \<open>Properties\<close>

text \<open>
  C17. \<^verbatim>\<open>get_max_level\<close> over the hub returns the highest populated level of the introducer's table (0 for
  an empty one), changes no table and leaves no waiter under its nonce.
\<close>

theorem get_max_level_round_trip:
  assumes "oneshot aw" "hub_ok hub" "node_at hub own = Some n" "node_at hub introducer = Some m"
    and "2 \<le> k"
  shows "\<exists>hub'. get_max_level aw k hub own introducer nonce =
      Some (hub', Ok (case max_populated_level (core_lt (node_core m)) of Some l \<Rightarrow> l | None \<Rightarrow> 0)) \<and>
    (\<forall>i. table_at hub' i = table_at hub i) \<and>
    (\<exists>n'. node_at hub' own = Some n' \<and> request_id_map (node_requests n') nonce = None)"
proof -
  obtain r where "get_max_level aw k hub own introducer nonce =
      Some (put_node hub own (n\<lparr>node_requests := r\<rparr>),
            Ok (case max_populated_level (core_lt (node_core m)) of Some l \<Rightarrow> l | None \<Rightarrow> 0))"
    "request_id_map r = (request_id_map (node_requests n))(nonce := None)"
    using oneshot.get_max_level_answer [OF assms(1-5)] by blast
  then show ?thesis
    using assms(3) node_at_networks [OF assms(3)] by (auto simp: table_at_put_node)
qed

theorem get_max_level_round_trip_witness:
  "\<exists>hub'. get_max_level std_await 2 one_node_hub (sample_id 2) (sample_id 2) (Nonce 7) = Some (hub',
     Ok (case max_populated_level (core_lt (node_core sample_node)) of Some l \<Rightarrow> l | None \<Rightarrow> 0))"
  using get_max_level_round_trip [OF std.oneshot_axioms one_node_hub_ok one_node_hub_ok(2) order_refl]
  by blast

text \<open>
  \<^verbatim>\<open>get_neighbor\<close> over the hub returns exactly the queried node's entry for that level and side,
  present or absent, changes no table and leaves no waiter under its nonce.
\<close>

theorem get_neighbor_round_trip:
  assumes "oneshot aw" "hub_ok hub" "node_at hub own = Some n" "node_at hub from = Some m"
    and "2 \<le> k" "level < LOOKUP_TABLE_LEVELS"
  shows "\<exists>hub'. get_neighbor aw k hub own from d level nonce =
      Some (hub', Ok (slot (core_lt (node_core m)) level d)) \<and>
    (\<forall>i. table_at hub' i = table_at hub i) \<and>
    (\<exists>n'. node_at hub' own = Some n' \<and> request_id_map (node_requests n') nonce = None)"
proof -
  obtain r where "get_neighbor aw k hub own from d level nonce =
      Some (put_node hub own (n\<lparr>node_requests := r\<rparr>), Ok (slot (core_lt (node_core m)) level d))"
    "request_id_map r = (request_id_map (node_requests n))(nonce := None)"
    using oneshot.get_neighbor_answer [OF assms] by blast
  then show ?thesis
    using assms(3) node_at_networks [OF assms(3)] by (auto simp: table_at_put_node)
qed

theorem get_neighbor_round_trip_witness:
  "\<exists>hub'. get_neighbor std_await 2 one_node_hub (sample_id 2) (sample_id 2) Right 0 (Nonce 7) =
     Some (hub', Ok (Some (sample_identity 5)))"
  using get_neighbor_round_trip [OF std.oneshot_axioms one_node_hub_ok one_node_hub_ok(2) order_refl,
      of 0 Right "Nonce 7"]
  by (auto simp: size_defs)

end
