(* ===== verification/Search_Protocol.thy ===== *)
theory Search_Protocol
  imports Round_Trips
begin

text \<open>
  The distributed search: a request is relayed from node to node until a node finds nobody
  closer and answers the originator. For a graph whose level-0 list is complete, the relay ends
  at the member closest to the target on the searched side, within a depth bounded by the
  number of members, and the originator's call returns that member.
\<close>

section \<open>Linked graphs\<close>

text \<open>\<open>j\<close> is the member next to \<open>i\<close> on side \<open>d\<close>.\<close>

definition nearest :: "Identifier set \<Rightarrow> Direction \<Rightarrow> Identifier \<Rightarrow> Identifier \<Rightarrow> bool" where
  "nearest S d i j \<longleftrightarrow> j \<in> S \<and> beyond d i j \<and> (\<forall>k \<in> S. beyond d i k \<longrightarrow> \<not> beyond d k j)"

definition list_slot :: "Identifier set \<Rightarrow> Direction \<Rightarrow> Identifier \<Rightarrow> Identity option \<Rightarrow> bool" where
  "list_slot S d i s =
     (case s of None \<Rightarrow> \<forall>j \<in> S. \<not> beyond d i j | Some e \<Rightarrow> nearest S d i (ident_id e))"

text \<open>
  The members \<open>S\<close> form one sorted doubly linked list at level 0, and no entry of any level leaves
  \<open>S\<close>.
\<close>

definition graph_linked :: "NetworkHub \<Rightarrow> Identifier set \<Rightarrow> bool" where
  "graph_linked hub S \<longleftrightarrow>
     finite S \<and>
     (\<forall>i \<in> S. \<exists>t. table_at hub i = Some t \<and>
        (\<forall>d. list_slot S d i (slot t 0 d)) \<and>
        (\<forall>l d e. slot t l d = Some e \<longrightarrow> ident_id e \<in> S))"

text \<open>The member that a search for \<open>target\<close> on side \<open>d\<close> has to find.\<close>

definition closest_member ::
  "Identifier set \<Rightarrow> Direction \<Rightarrow> Identifier \<Rightarrow> Identifier \<Rightarrow> bool" where
  "closest_member S d target x \<longleftrightarrow>
     x \<in> S \<and> \<not> beyond d target x \<and> (\<forall>y \<in> S. \<not> beyond d target y \<longrightarrow> \<not> beyond d x y)"

definition ahead :: "Identifier set \<Rightarrow> Direction \<Rightarrow> Identifier \<Rightarrow> Identifier \<Rightarrow> Identifier set" where
  "ahead S d target i = {m \<in> S. beyond d i m \<and> \<not> beyond d target m}"

lemma beyond_between: "beyond d i j \<Longrightarrow> \<not> beyond d k j \<Longrightarrow> \<not> beyond d target k \<Longrightarrow> \<not> beyond d target j"
  by (cases d) auto

lemma graph_linkedD:
  assumes "graph_linked hub S" "i \<in> S"
  obtains n where "node_at hub i = Some n"
    "\<And>d. list_slot S d i (slot (core_lt (node_core n)) 0 d)"
    "\<And>l d e. slot (core_lt (node_core n)) l d = Some e \<Longrightarrow> ident_id e \<in> S"
  using assms unfolding graph_linked_def table_at_def by fastforce

lemma graph_node: "graph_linked hub S \<Longrightarrow> i \<in> S \<Longrightarrow> \<exists>n. node_at hub i = Some n"
  by (erule (1) graph_linkedD) simp

lemma graph_linked_cong:
  "(\<And>i. i \<in> S \<Longrightarrow> table_at hub' i = table_at hub i) \<Longrightarrow> graph_linked hub' S = graph_linked hub S"
  by (simp add: graph_linked_def)

lemma closest_member_unique:
  "closest_member S d target x \<Longrightarrow> closest_member S d target y \<Longrightarrow> x = y"
  unfolding closest_member_def by (meson not_beyond)

section \<open>One hop\<close>

lemma graph_finite: "graph_linked hub S \<Longrightarrow> finite S"
  by (simp add: graph_linked_def)

lemma ahead_empty_closest:
  "i \<in> S \<Longrightarrow> \<not> beyond d target i \<Longrightarrow> ahead S d target i = {} \<Longrightarrow> closest_member S d target i"
  by (auto simp: closest_member_def ahead_def)

lemma ahead_psubset:
  assumes "j \<in> ahead S d target i"
  shows "ahead S d target j \<subset> ahead S d target i"
proof
  show "ahead S d target j \<subseteq> ahead S d target i"
    using assms by (auto simp: ahead_def dest: beyond_trans)
  have "j \<notin> ahead S d target j" by (simp add: ahead_def)
  then show "ahead S d target j \<noteq> ahead S d target i" using assms by blast
qed

text \<open>
  While a member lies ahead, the level-0 neighbour is eligible; what the local search picks lies
  ahead too.
\<close>

lemma eligible_iff_ahead:
  assumes "hub_ok hub" "graph_linked hub S" "i \<in> S" "node_at hub i = Some n"
  shows "(\<exists>j l. eligible (node_core n) d level target j l) \<longleftrightarrow> ahead S d target i \<noteq> {}"
    and "eligible (node_core n) d level target j l \<Longrightarrow> j \<in> ahead S d target i"
proof -
  from graph_linkedD [OF assms(2,3)] assms(4)
  have g: "\<And>d. list_slot S d i (slot (core_lt (node_core n)) 0 d)"
    "\<And>l d e. slot (core_lt (node_core n)) l d = Some e \<Longrightarrow> ident_id e \<in> S"
    by (metis option.inject)+
  have o: "slot (core_lt (node_core n)) l d = Some e \<Longrightarrow> beyond d i (ident_id e)" for l d e
    using ordered_coreD(2) [OF hub_okD(3) [OF assms(1,4)], of l d e] hub_okD(1) [OF assms(1,4)]
    by (simp add: belongs_def)
  show el: "eligible (node_core n) d level target j l \<Longrightarrow> j \<in> ahead S d target i" for j l
    using g(2) o by (auto simp: eligible_def ahead_def)
  have "\<exists>j l. eligible (node_core n) d level target j l" if m: "m \<in> ahead S d target i" for m
  proof (cases "slot (core_lt (node_core n)) 0 d")
    case None
    then show ?thesis using g(1) [of d] m by (auto simp: list_slot_def ahead_def)
  next
    case (Some e)
    then have "nearest S d i (ident_id e)" using g(1) [of d] by (simp add: list_slot_def)
    then have "\<not> beyond d target (ident_id e)"
      using m beyond_between [of d i "ident_id e" m target] by (auto simp: nearest_def ahead_def)
    then show ?thesis using Some by (auto simp: eligible_def)
  qed
  then show "(\<exists>j l. eligible (node_core n) d level target j l) \<longleftrightarrow> ahead S d target i \<noteq> {}"
    using el by blast
qed

section \<open>The relay\<close>

definition found_response :: "IdSearchReq \<Rightarrow> Identifier \<Rightarrow> IdSearchRes" where
  "found_response req x =
     \<lparr>sres_nonce = sreq_nonce req, sres_target = sreq_target req,
      sres_termination_level = 0, sres_result = x\<rparr>"

lemma search_relay:
  assumes "hub_ok hub" "graph_linked hub S" "node_at hub (sreq_origin req) = Some n0"
    and "t \<in> S" "\<not> beyond (sreq_direction req) (sreq_target req) t"
    and "sreq_level req < LOOKUP_TABLE_LEVELS"
    and "card (ahead S (sreq_direction req) (sreq_target req) t) + 1 < k"
  shows "\<exists>x. closest_member S (sreq_direction req) (sreq_target req) x \<and>
    route_event k hub origin t (SearchByIdRequest req) =
      Some (put_node hub (sreq_origin req)
              (fst (handle_search_by_id_response n0 (found_response req x))), Ok ())"
  using assms
proof (induction k arbitrary: req t origin)
  case (Suc k)
  let ?d = "sreq_direction req" and ?target = "sreq_target req"
  obtain n where n: "node_at hub t = Some n" using graph_node [OF Suc.prems(2,4)] by blast
  have id: "core_id (node_core n) = t" using hub_okD(1) [OF Suc.prems(1) n] .
  note wf = hub_okD(5) [OF Suc.prems(1) n]
  note el = eligible_iff_ahead [OF Suc.prems(1,2,4) n, of ?d "sreq_level req" ?target]
  show ?case
    using wf Suc.prems(6)
  proof (cases rule: core_search_by_id_cases)
    case (found j l)
    let ?req = "req\<lparr>sreq_level := l\<rparr>"
    have e: "eligible (node_core n) ?d (sreq_level req) ?target j l"
      using found(1) by (simp add: closest_eligible_def)
    then have j: "j \<in> ahead S ?d ?target t" by (rule el(2))
    then have neq: "j \<noteq> t" by (auto simp: ahead_def)
    have less: "card (ahead S ?d ?target j) < card (ahead S ?d ?target t)"
      using ahead_psubset [OF j] graph_finite [OF Suc.prems(2)]
      by (intro psubset_card_mono) (auto simp: ahead_def)
    have resp: "found_response ?req x = found_response req x" for x
      by (simp add: found_response_def)
    have "\<exists>x. closest_member S (sreq_direction ?req) (sreq_target ?req) x \<and>
        route_event k hub t j (SearchByIdRequest ?req) =
        Some (put_node hub (sreq_origin ?req)
              (fst (handle_search_by_id_response n0 (found_response ?req x))), Ok ())"
    proof (rule Suc.IH)
      show "j \<in> S" "\<not> beyond (sreq_direction ?req) (sreq_target ?req) j"
        using j by (simp_all add: ahead_def)
      show "sreq_level ?req < LOOKUP_TABLE_LEVELS"
        using e Suc.prems(6) by (simp add: eligible_def)
      show "card (ahead S (sreq_direction ?req) (sreq_target ?req) j) + 1 < k"
        using less Suc.prems(7) by simp
    qed (use Suc.prems in simp_all)
    then obtain x where x: "closest_member S ?d ?target x"
      "route_event k hub t j (SearchByIdRequest ?req) =
        Some (put_node hub (sreq_origin req)
              (fst (handle_search_by_id_response n0 (found_response req x))), Ok ())"
      unfolding resp by auto
    moreover have p: "process_incoming_event n origin (SearchByIdRequest req) =
        (n, Send j (SearchByIdRequest ?req) ''failed to send relay response event for search by id'')"
      using found(2) neq id by (simp add: handle_search_by_id_request_def)
    ultimately show ?thesis
      using route_send_ok [OF Suc.prems(1) n p] put_node_same [OF n] by auto
  next
    case fallback
    then have "ahead S ?d ?target t = {}" using el(1) by blast
    then have c: "closest_member S ?d ?target t"
      using ahead_empty_closest [OF Suc.prems(4,5)] by simp
    have p: "process_incoming_event n origin (SearchByIdRequest req) =
        (n, Send (sreq_origin req) (SearchByIdResponse (found_response req t))
           ''failed to send response event for search by id'')"
      using fallback(2) id by (simp add: handle_search_by_id_request_def found_response_def)
    obtain k' where k: "k = Suc k'" using Suc.prems(7) by (cases k) auto
    have "route_event k hub t (sreq_origin req) (SearchByIdResponse (found_response req t)) =
        Some (put_node hub (sreq_origin req)
          (fst (handle_search_by_id_response n0 (found_response req t))), Ok ())"
      unfolding k by (rule route_done_ok [OF Suc.prems(3)])
        (simp add: handle_search_by_id_response_def)
    then show ?thesis using c route_send_ok [OF Suc.prems(1) n p] put_node_same [OF n] by auto
  qed
qed simp

section \<open>The originator's call\<close>

lemma graph_linked_requests:
  "node_at hub own = Some n \<Longrightarrow>
   graph_linked (put_node hub own (n\<lparr>node_requests := r\<rparr>)) S = graph_linked hub S"
  by (rule graph_linked_cong) (simp add: table_at_put_node)

lemma hub_ok_requests:
  assumes "hub_ok hub" "node_at hub own = Some n" "wf_requests r"
  shows "hub_ok (put_node hub own (n\<lparr>node_requests := r\<rparr>))"
  using hub_okD(3) [OF assms(1,2)] assms(3)
  by (intro hub_ok_put_node [OF assms(1,2)]) (simp_all add: node_ok_def)

context oneshot
begin

lemma search_req_answer:
  assumes "hub_ok hub" "graph_linked hub S" "node_at hub own = Some n"
    and "dest \<in> S" "\<not> beyond d target dest" "level < LOOKUP_TABLE_LEVELS"
    and "card (ahead S d target dest) + 1 < k"
  shows "\<exists>x r. closest_member S d target x \<and>
    send_search_by_id_req aw k hub own dest nonce target level d =
      Some (put_node hub own (n\<lparr>node_requests := r\<rparr>),
            Ok \<lparr>sres_nonce = nonce, sres_target = target, sres_termination_level = 0,
                sres_result = x\<rparr>) \<and>
    wf_requests r \<and> request_id_map r = (request_id_map (node_requests n))(nonce := None)"
proof -
  have id: "core_id (node_core n) = own" by (rule hub_okD(1) [OF assms(1,3)])
  let ?req = "\<lparr>sreq_nonce = nonce, sreq_target = target, sreq_origin = core_id (node_core n),
    sreq_level = level, sreq_direction = d\<rparr>"
  have relay: "\<exists>x. closest_member S d target x \<and>
      send_event k (put_node hub own (n\<lparr>node_requests := r\<rparr>)) own dest (SearchByIdRequest ?req) =
        Some (put_node hub own (n\<lparr>node_requests :=
          resolve nonce is_async_search (ReplySearch (found_response ?req x)) r\<rparr>), Ok ())"
    if r: "wf_requests r" for r
    using search_relay [OF hub_ok_requests [OF assms(1,3) r], of S ?req "n\<lparr>node_requests := r\<rparr>"
        dest k own] assms node_at_networks [OF assms(3)]
    by (auto simp: graph_linked_requests [OF assms(3)] id send_event_def found_response_def
        handle_search_by_id_response_def)
  obtain x where x: "closest_member S d target x" using relay [of no_requests] by auto
  have "\<exists>r. send_search_by_id_req aw k hub own dest nonce target level d =
      Some (put_node hub own (n\<lparr>node_requests := r\<rparr>), Ok (found_response ?req x)) \<and>
      wf_requests r \<and> request_id_map r = (request_id_map (node_requests n))(nonce := None)"
    unfolding send_search_by_id_req_def
  proof (rule answered_request [OF assms(1,3) search_kind.request_kind_axioms,
        where reply = "ReplySearch (found_response ?req x)"])
    show "send_search_by_id_req_begin n dest nonce target level d =
        (snd (park n nonce AsyncSearch), fst (park n nonce AsyncSearch), dest,
         SearchByIdRequest ?req)"
      by (simp add: send_search_by_id_req_begin_def split: prod.splits)
    fix r :: Requests
    assume "wf_requests r"
    from relay [OF this] x closest_member_unique
    show "send_event k (put_node hub own (n\<lparr>node_requests := r\<rparr>)) own dest (SearchByIdRequest ?req) =
        Some (put_node hub own (n\<lparr>node_requests :=
          resolve nonce is_async_search (ReplySearch (found_response ?req x)) r\<rparr>), Ok ())"
      by blast
  qed (simp_all add: send_search_by_id_req_end_def node_at_networks [OF assms(3)])
  then show ?thesis using x by (auto simp: found_response_def)
qed

text \<open>\<^verbatim>\<open>BaseNode::search_by_id\<close>, started at a member that already lies on the right side of the target.\<close>

lemma search_by_id_answer:
  assumes "hub_ok hub" "graph_linked hub S" "own \<in> S" "node_at hub own = Some n"
    and "\<not> beyond (sreq_direction req) (sreq_target req) own"
    and "sreq_level req < LOOKUP_TABLE_LEVELS" "card S < k"
  shows "\<exists>hub' res. search_by_id aw k hub own req = Some (hub', Ok res) \<and>
    closest_member S (sreq_direction req) (sreq_target req) (sres_result res) \<and>
    sres_nonce res = sreq_nonce req \<and> sres_target res = sreq_target req \<and>
    (\<forall>i. table_at hub' i = table_at hub i)"
proof -
  let ?d = "sreq_direction req" and ?target = "sreq_target req"
  have id: "core_id (node_core n) = own" by (rule hub_okD(1) [OF assms(1,4)])
  note el = eligible_iff_ahead [OF assms(1,2,3,4), of ?d "sreq_level req" ?target]
  show ?thesis
    using hub_okD(5) [OF assms(1,4)] assms(6)
  proof (cases rule: core_search_by_id_cases)
    case (found j l)
    then have e: "eligible (node_core n) ?d (sreq_level req) ?target j l"
      by (simp add: closest_eligible_def)
    then have j: "j \<in> ahead S ?d ?target own" by (rule el(2))
    have "ahead S ?d ?target own \<subseteq> S - {own}" by (auto simp: ahead_def)
    then have "ahead S ?d ?target j \<subset> S - {own}"
      using ahead_psubset [OF j] by (rule psubset_subset_trans [rotated])
    then have "card (ahead S ?d ?target j) < card (S - {own})"
      using graph_finite [OF assms(2)] by (intro psubset_card_mono) auto
    then have "card (ahead S ?d ?target j) + 1 < k"
      using assms(3,7) graph_finite [OF assms(2)] by simp
    then obtain x r where x: "closest_member S ?d ?target x"
      "send_search_by_id_req aw k hub own j (sreq_nonce req) ?target l ?d =
        Some (put_node hub own (n\<lparr>node_requests := r\<rparr>),
          Ok \<lparr>sres_nonce = sreq_nonce req, sres_target = ?target, sres_termination_level = 0,
              sres_result = x\<rparr>)"
      using search_req_answer [OF assms(1,2,4), of j ?d ?target l k "sreq_nonce req"] j e assms(6)
      by (auto simp: ahead_def eligible_def)
    have "j \<noteq> own" using j by (auto simp: ahead_def)
    then show ?thesis using found(2) x assms(4) id
      by (simp add: search_by_id_def table_at_put_node)
  next
    case fallback
    then have "closest_member S ?d ?target own"
      using ahead_empty_closest [OF assms(3,5)] el(1) by auto
    then show ?thesis using fallback(2) assms(4) id by (simp add: search_by_id_def)
  qed
qed

end

end
