(* ===== verification/Join_Protocol.thy ===== *)
theory Join_Protocol
  imports Search_Protocol
begin

text \<open>
  Linking over the hub: the relay of \<^verbatim>\<open>GetLinkOp\<close> along one side of a sorted list, the reply that
  fills the mirror slot, and \<^verbatim>\<open>join_stage1_link_level0\<close>, which turns the level-0 list of the members
  into the level-0 list of the members and the joining node.
\<close>

section \<open>Slots across the hub\<close>

definition slot_at ::
  "NetworkHub \<Rightarrow> Identifier \<Rightarrow> LookupTableLevel \<Rightarrow> Direction \<Rightarrow> Identity option" where
  "slot_at hub i level d = Option.bind (table_at hub i) (\<lambda>t. slot t level d)"

definition identity_at :: "NetworkHub \<Rightarrow> Identifier \<Rightarrow> Identity option" where
  "identity_at hub i = map_option self_identity (node_at hub i)"

text \<open>One side of the level-0 list of \<open>S\<close>.\<close>

definition side_linked :: "NetworkHub \<Rightarrow> Identifier set \<Rightarrow> Direction \<Rightarrow> bool" where
  "side_linked hub S d \<longleftrightarrow>
     finite S \<and> (\<forall>i \<in> S. node_at hub i \<noteq> None \<and> list_slot S d i (slot_at hub i 0 d))"

lemma slot_at_node:
  "node_at hub i = Some n \<Longrightarrow> slot_at hub i l d = slot (core_lt (node_core n)) l d"
  by (simp add: slot_at_def table_at_def)

lemma graph_linked_sides:
  "graph_linked hub S \<longleftrightarrow>
     (\<forall>d. side_linked hub S d) \<and>
     (\<forall>i \<in> S. \<forall>l d e. slot_at hub i l d = Some e \<longrightarrow> ident_id e \<in> S)"
proof -
  have "(\<exists>t. table_at hub i = Some t \<and> (\<forall>d. list_slot S d i (slot t 0 d)) \<and>
        (\<forall>l d e. slot t l d = Some e \<longrightarrow> ident_id e \<in> S)) \<longleftrightarrow>
      node_at hub i \<noteq> None \<and> (\<forall>d. list_slot S d i (slot_at hub i 0 d)) \<and>
        (\<forall>l d e. slot_at hub i l d = Some e \<longrightarrow> ident_id e \<in> S)" for i
    by (cases "node_at hub i") (simp_all add: slot_at_def table_at_def)
  then show ?thesis
    unfolding graph_linked_def side_linked_def by auto
qed

lemma side_linked_cong:
  "(\<And>i. i \<in> S \<Longrightarrow> (node_at hub' i = None) = (node_at hub i = None)) \<Longrightarrow>
   (\<And>i. i \<in> S \<Longrightarrow> slot_at hub' i 0 d = slot_at hub i 0 d) \<Longrightarrow>
   side_linked hub' S d = side_linked hub S d"
  by (simp add: side_linked_def)

lemma slot_at_put_requests:
  "node_at hub own = Some n \<Longrightarrow>
   slot_at (put_node hub own (n\<lparr>node_requests := r\<rparr>)) i l d = slot_at hub i l d"
  by (simp add: slot_at_def table_at_put_node)

lemma side_linked_requests:
  "node_at hub own = Some n \<Longrightarrow>
   side_linked (put_node hub own (n\<lparr>node_requests := r\<rparr>)) S d = side_linked hub S d"
  by (rule side_linked_cong) (simp_all add: slot_at_put_requests node_at_networks)

section \<open>The relay of a link request\<close>

text \<open>What the two ends of a new link look like.\<close>

definition linked_node :: "BaseNode \<Rightarrow> Direction \<Rightarrow> Identity \<Rightarrow> BaseNode" where
  "linked_node n d e = n\<lparr>node_core := fst (core_try_link (node_core n) 0 d e)\<rparr>"

definition link_reply :: "LinkReq \<Rightarrow> BaseNode \<Rightarrow> LinkRes" where
  "link_reply req n =
     \<lparr>lres_nonce = lreq_nonce req, lres_dir = opposite (lreq_dir req),
      lres_level = lreq_level req, lres_linked = Some (self_identity n)\<rparr>"

lemma belongs_level0: "belongs c 0 d e \<longleftrightarrow> beyond d (core_id c) (ident_id e)"
  by (simp add: belongs_def size_defs)

lemma set_link_level0:
  assumes "ordered_core (node_core n)" "lres_level res = 0" "lres_linked res = Some e"
    "beyond (lres_dir res) (core_id (node_core n)) (ident_id e)"
  shows "handle_set_link_response n res =
    ((linked_node n (lres_dir res) e)\<lparr>node_requests :=
        resolve (lres_nonce res) (is_link_at 0 (lres_dir res)) (ReplyLink res) (node_requests n)\<rparr>,
     Done (Ok ()))"
  using assms
  by (simp add: handle_set_link_response_eq apply_set_link_eq belongs_level0 Let_def
      linked_node_def)

lemma closer_slot_ahead:
  assumes "list_slot S d t s" "u \<notin> S" "link_outcome d e s = LinkedDirectly" "ident_id e = u"
  shows "ahead S d u t = {}"
proof (cases s)
  case None
  then show ?thesis using assms(1) by (auto simp: list_slot_def ahead_def)
next
  case (Some x)
  then have near: "nearest S d t (ident_id x)" using assms(1) by (simp add: list_slot_def)
  have "\<not> beyond d (ident_id x) u"
    using assms(3,4) Some by (simp add: link_outcome_def strictly_between_def split: if_splits)
  moreover have "ident_id x \<noteq> u" using near assms(2) by (auto simp: nearest_def)
  ultimately have "beyond d u (ident_id x)" by (simp add: not_beyond)
  then show ?thesis
    using near assms(2) unfolding nearest_def ahead_def by (auto simp: not_beyond dest: beyond_trans)
qed

lemma link_relay:
  assumes "hub_ok hub" "side_linked hub S (lreq_dir req)" "u \<notin> S"
    and "node_at hub u = Some n0" "ident_id (lreq_candidate req) = u" "lreq_level req = 0"
    and "t \<in> S" "beyond (lreq_dir req) t u"
    and "card (ahead S (lreq_dir req) u t) + 1 < k"
  shows "\<exists>x nx. closest_member S (lreq_dir req) u x \<and> node_at hub x = Some nx \<and>
    route_event k hub origin t (GetLinkOp req) =
      Some (put_node (put_node hub x (linked_node nx (lreq_dir req) (lreq_candidate req))) u
              (fst (handle_set_link_response n0 (link_reply req nx))), Ok ())"
  using assms(7-9)
proof (induction k arbitrary: t origin)
  case (Suc k)
  let ?d = "lreq_dir req"
  obtain n where n: "node_at hub t = Some n" using assms(2) Suc.prems(1) by (auto simp: side_linked_def)
  have id: "core_id (node_core n) = t" using hub_okD(1) [OF assms(1) n] .
  note o = hub_okD(3) [OF assms(1) n]
  have s: "list_slot S ?d t (slot (core_lt (node_core n)) 0 ?d)"
    using assms(2) Suc.prems(1) slot_at_node [OF n] by (auto simp: side_linked_def)
  show ?case
    using o
  proof (cases rule: handle_get_link_request_cases [where req = req])
    case rejected
    then show ?thesis using Suc.prems(2) id assms(5,6) by (simp add: belongs_level0)
  next
    case linked
    let ?h = "put_node hub t (linked_node n ?d (lreq_candidate req))"
    have "link_outcome ?d (lreq_candidate req) (slot (core_lt (node_core n)) 0 ?d) = LinkedDirectly"
      using linked(2) assms(6) hub_okD(5) [OF assms(1) n]
      by (simp add: node_simps try_link_decision size_defs)
    from closer_slot_ahead [OF s assms(3) this assms(5)]
    have c: "closest_member S ?d u t"
      using Suc.prems(1,2) by (intro ahead_empty_closest) (simp_all add: beyond_asym)
    obtain k' where k: "k = Suc k'" using Suc.prems(3) by (cases k) auto
    have "core_id (node_core n0) = u" "ordered_core (node_core n0)"
      using hub_okD(1,3) [OF assms(1,4)] .
    then have q: "process_incoming_event n0 t (SetLinkOp (link_reply req n)) =
        (fst (handle_set_link_response n0 (link_reply req n)), Done (Ok ()))"
      using Suc.prems(2) id assms(6)
      by (simp add: set_link_level0 link_reply_def self_identity_def identity_new_def
          beyond_opposite)
    have "node_at ?h u = Some n0" using assms(3,4) Suc.prems(1) by auto
    from route_done_ok [OF this q, of k']
    have r: "route_event k ?h t u (SetLinkOp (link_reply req n)) =
        Some (put_node ?h u (fst (handle_set_link_response n0 (link_reply req n))), Ok ())"
      unfolding k .
    have p: "process_incoming_event n origin (GetLinkOp req) =
        (linked_node n ?d (lreq_candidate req), Send u (SetLinkOp (link_reply req n))
           ''failed to send link response'')"
      using linked(3) assms(5,6) by (simp add: linked_node_def link_reply_def)
    from c n route_send_ok [OF assms(1) n p r] show ?thesis by blast
  next
    case (forwarded e)
    have e: "ident_id e \<in> ahead S ?d u t"
      using forwarded(2,3,4) s id assms(5,6)
      by (auto simp: list_slot_def nearest_def ahead_def belongs_level0 dest: beyond_asym)
    have "finite S" using assms(2) by (simp add: side_linked_def)
    then have "card (ahead S ?d u (ident_id e)) < card (ahead S ?d u t)"
      using ahead_psubset [OF e] by (intro psubset_card_mono) (auto simp: ahead_def)
    then have "card (ahead S ?d u (ident_id e)) + 1 < k" using Suc.prems(3) by simp
    then obtain x nx where x: "closest_member S ?d u x" "node_at hub x = Some nx"
      "route_event k hub t (ident_id e) (GetLinkOp req) =
         Some (put_node (put_node hub x (linked_node nx ?d (lreq_candidate req))) u
              (fst (handle_set_link_response n0 (link_reply req nx))), Ok ())"
      using Suc.IH [of "ident_id e" t] e forwarded(4) assms(5) by (auto simp: ahead_def)
    have p: "process_incoming_event n origin (GetLinkOp req) =
        (n, Send (ident_id e) (GetLinkOp req) ''failed to forward get link request'')"
      using forwarded(5) by simp
    from x route_send_ok [OF assms(1) n p, of k] put_node_same [OF n] show ?thesis by auto
  qed
qed simp

section \<open>A link request over the hub\<close>

text \<open>The two slots that one link request writes, and no other.\<close>

definition link_made ::
  "NetworkHub \<Rightarrow> NetworkHub \<Rightarrow> Direction \<Rightarrow> Identifier \<Rightarrow> Identifier \<Rightarrow> bool" where
  "link_made hub hub' d x u \<longleftrightarrow>
     (\<forall>i l dir. slot_at hub' i l dir =
        (if l = 0 \<and> i = x \<and> dir = d then identity_at hub u
         else if l = 0 \<and> i = u \<and> dir = opposite d then identity_at hub x
         else slot_at hub i l dir))"

lemma slot_linked_node:
  assumes "wf_table (core_lt (node_core n))"
    and "\<not> (\<exists>x. slot (core_lt (node_core n)) 0 d = Some x \<and> strictly_between d x e)"
  shows "slot (core_lt (node_core (linked_node n d e))) l dir =
    (if l = 0 \<and> dir = d then Some e else slot (core_lt (node_core n)) l dir)"
proof -
  have "link_slot d e (slot (core_lt (node_core n)) 0 d) = Some e"
    using assms(2) by (auto simp: link_slot_def split: option.splits)
  then show ?thesis
    using assms(1) by (simp add: linked_node_def node_simps arr.entry_link size_defs)
qed

lemma closest_not_between:
  assumes "side_linked hub S d" "closest_member S d u x" "node_at hub x = Some nx" "ident_id e = u"
  shows "\<not> (\<exists>y. slot (core_lt (node_core nx)) 0 d = Some y \<and> strictly_between d y e)"
proof
  assume "\<exists>y. slot (core_lt (node_core nx)) 0 d = Some y \<and> strictly_between d y e"
  then obtain y where y: "slot_at hub x 0 d = Some y" "beyond d (ident_id y) u"
    using slot_at_node [OF assms(3), of 0 d] assms(4) by (auto simp: strictly_between_def)
  have "list_slot S d x (slot_at hub x 0 d)"
    using assms(1,2) by (simp add: side_linked_def closest_member_def)
  then have "ident_id y \<in> S" "beyond d x (ident_id y)"
    by (simp_all add: y(1) list_slot_def nearest_def)
  then show False
    using assms(2) beyond_asym [OF y(2)] unfolding closest_member_def by blast
qed

lemma identity_at_keeps:
  "evolves hub hub' \<Longrightarrow> identity_at hub' i = identity_at hub i"
proof -
  assume "evolves hub hub'"
  then have "rel_option same_node (node_at hub i) (node_at hub' i)" by (simp add: evolves_def)
  then show ?thesis
    by (cases rule: option.rel_cases) (simp_all add: identity_at_def same_node_def self_identity_def)
qed

lemma send_link_request_keeps:
  assumes "hub_ok hub" "send_link_request aw k hub own dest d l nonce = Some (hub', r)"
  shows "hub_ok hub' \<and> evolves hub hub'"
  using assms(2) unfolding send_link_request_def
proof (rule hub_net.request_keeps [OF assms(1)])
  fix n
  assume "node_ok n"
  then show "node_ok (fst (send_link_request_begin n dest d l nonce)) \<and>
      same_node n (fst (send_link_request_begin n dest d l nonce))"
    using open_request_wf [of "node_requests n" "\<lambda>ch. Link ch l (opposite d)" nonce]
    by (auto simp: send_link_request_begin_def park_def node_ok_def split: prod.splits)
next
  fix n ch s
  assume "node_ok n"
  then show "node_ok (fst (send_link_request_end aw n nonce ch s)) \<and>
      same_node n (fst (send_link_request_end aw n nonce ch s))"
    by (simp add: send_link_request_end_def unpark_def node_ok_def keeps)
qed

context oneshot
begin

lemma link_request_answer:
  assumes "hub_ok hub" "side_linked hub S d" "u \<notin> S" "node_at hub u = Some n"
    and "slot_at hub u 0 (opposite d) = None"
    and "t \<in> S" "beyond d t u" "card (ahead S d u t) + 1 < k"
  shows "\<exists>x hub'. closest_member S d u x \<and>
    send_link_request aw k hub u t d 0 nonce = Some (hub', Ok ()) \<and> link_made hub hub' d x u"
proof -
  let ?req = "\<lparr>lreq_nonce = nonce, lreq_candidate = self_identity n, lreq_dir = d, lreq_level = 0\<rparr>"
  have id: "core_id (node_core n) = u" by (rule hub_okD(1) [OF assms(1,4)])
  have cand: "ident_id (self_identity n) = u" by (simp add: self_identity_def identity_new_def id)
  have relay: "\<exists>x nx. closest_member S d u x \<and> node_at hub x = Some nx \<and>
      send_event k (put_node hub u (n\<lparr>node_requests := r\<rparr>)) u t (GetLinkOp ?req) =
      Some (put_node (put_node hub x (linked_node nx d (self_identity n))) u
        (fst (handle_set_link_response (n\<lparr>node_requests := r\<rparr>) (link_reply ?req nx))), Ok ())"
    if r: "wf_requests r" for r
  proof -
    let ?n = "n\<lparr>node_requests := r\<rparr>"
    let ?h = "put_node hub u ?n"
    have "side_linked ?h S d" using assms(2) by (simp add: side_linked_requests [OF assms(4)])
    moreover have "node_at ?h u = Some ?n" using node_at_networks [OF assms(4)] by simp
    ultimately obtain x nx where x: "closest_member S d u x" "node_at ?h x = Some nx"
      "route_event k ?h u t (GetLinkOp ?req) =
         Some (put_node (put_node ?h x (linked_node nx d (self_identity n))) u
              (fst (handle_set_link_response ?n (link_reply ?req nx))), Ok ())"
      using link_relay [OF hub_ok_requests [OF assms(1,4) r], of S ?req u ?n t k u] assms(3,6-8) cand
      by auto
    then have "x \<noteq> u" using assms(3) by (auto simp: closest_member_def)
    with x show ?thesis
      by (auto simp: send_event_def put_node_swap [of x u] split: if_splits)
  qed
  obtain x nx where x: "closest_member S d u x" "node_at hub x = Some nx"
    using relay [of no_requests] by auto
  then have xu: "x \<noteq> u" "beyond d x u" using assms(3) by (auto simp: closest_member_def not_beyond)
  let ?m = "linked_node n (opposite d) (self_identity nx)"
  let ?G = "\<lambda>y. put_node (put_node hub x (linked_node nx d (self_identity n))) u y"
  have reply: "fst (handle_set_link_response (n\<lparr>node_requests := r\<rparr>) (link_reply ?req nx)) =
      ?m\<lparr>node_requests := resolve nonce (is_link_at 0 (opposite d)) (ReplyLink (link_reply ?req nx)) r\<rparr>"
    for r
    using xu(2) hub_okD(1) [OF assms(1) x(2)] hub_okD(3) [OF assms(1,4)] id
    by (simp add: set_link_level0 link_reply_def self_identity_def identity_new_def beyond_opposite
        linked_node_def)
  have "\<exists>r. send_link_request aw k hub u t d 0 nonce = Some (?G (?m\<lparr>node_requests := r\<rparr>), Ok ()) \<and>
      wf_requests r \<and> request_id_map r = (request_id_map (node_requests n))(nonce := None)"
    unfolding send_link_request_def
  proof (rule answered_request [OF assms(1,4) link_kind.request_kind_axioms])
    show "send_link_request_begin n t d 0 nonce =
        (snd (park n nonce (\<lambda>ch. Link ch 0 (opposite d))),
         fst (park n nonce (\<lambda>ch. Link ch 0 (opposite d))), t, GetLinkOp ?req)"
      by (simp add: send_link_request_begin_def split: prod.splits)
    fix r :: Requests
    assume r: "wf_requests r"
    from relay [OF r] obtain x' nx' where x': "closest_member S d u x'" "node_at hub x' = Some nx'"
      "send_event k (put_node hub u (n\<lparr>node_requests := r\<rparr>)) u t (GetLinkOp ?req) =
      Some (put_node (put_node hub x' (linked_node nx' d (self_identity n))) u
        (fst (handle_set_link_response (n\<lparr>node_requests := r\<rparr>) (link_reply ?req nx'))), Ok ())"
      by blast
    have "x' = x" by (rule closest_member_unique [OF x'(1) x(1)])
    then have "nx' = nx" using x(2) x'(2) by simp
    with \<open>x' = x\<close> x'(3) reply
    show "send_event k (put_node hub u (n\<lparr>node_requests := r\<rparr>)) u t (GetLinkOp ?req) =
        Some (?G (?m\<lparr>node_requests := resolve nonce (is_link_at 0 (opposite d))
          (ReplyLink (link_reply ?req nx)) r\<rparr>), Ok ())"
      by simp
  qed (use node_at_networks [OF assms(4)] in \<open>auto simp: send_link_request_end_def networks_put_node\<close>)
  then obtain r where r: "send_link_request aw k hub u t d 0 nonce =
      Some (?G (?m\<lparr>node_requests := r\<rparr>), Ok ())" by blast
  have "link_made hub (?G (?m\<lparr>node_requests := r\<rparr>)) d x u"
    unfolding link_made_def
  proof (intro allI)
    fix i l dir
    have "slot (core_lt (node_core (?m\<lparr>node_requests := r\<rparr>))) l dir =
        (if l = 0 \<and> dir = opposite d then Some (self_identity nx)
         else slot (core_lt (node_core n)) l dir)"
      using slot_linked_node [OF hub_okD(5) [OF assms(1,4)]] assms(5) slot_at_node [OF assms(4)]
      by simp
    moreover have "slot (core_lt (node_core (linked_node nx d (self_identity n)))) l dir =
        (if l = 0 \<and> dir = d then Some (self_identity n) else slot (core_lt (node_core nx)) l dir)"
      by (rule slot_linked_node [OF hub_okD(5) [OF assms(1) x(2)]
            closest_not_between [OF assms(2) x cand]])
    moreover have "node_at (?G y) i =
        (if i = u then Some y else if i = x then Some (linked_node nx d (self_identity n))
         else node_at hub i)" for y
      using node_at_networks [OF assms(4)] node_at_networks [OF x(2)]
      by (auto simp: networks_put_node)
    ultimately show "slot_at (?G (?m\<lparr>node_requests := r\<rparr>)) i l dir =
        (if l = 0 \<and> i = x \<and> dir = d then identity_at hub u
         else if l = 0 \<and> i = u \<and> dir = opposite d then identity_at hub x
         else slot_at hub i l dir)"
      using xu(1) unfolding slot_at_def table_at_def identity_at_def
      by (cases "i = u"; cases "i = x") (simp_all add: assms(4) x(2) del: node_at_put_node)
  qed
  with x(1) r show ?thesis by blast
qed

end

section \<open>Inserting into a sorted list\<close>

lemma list_slot_insert:
  assumes "list_slot S d i s" "i \<in> S" "u \<notin> S" "\<not> closest_member S d u i"
  shows "list_slot (insert u S) d i s"
proof (cases "beyond d i u")
  case True
  then obtain y where y: "y \<in> S" "\<not> beyond d u y" "beyond d i y"
    using assms(2,4) by (auto simp: closest_member_def beyond_asym)
  then have yu: "beyond d y u" using assms(3) by (auto simp: not_beyond)
  then show ?thesis
    using assms(1) y by (auto simp: list_slot_def nearest_def split: option.splits dest: beyond_trans)
next
  case False
  then show ?thesis using assms(1) by (auto simp: list_slot_def nearest_def split: option.splits)
qed

lemma nearest_new:
  "closest_member S d u x \<Longrightarrow> u \<notin> S \<Longrightarrow> nearest (insert u S) d x u"
  by (auto simp: closest_member_def nearest_def not_beyond dest: beyond_asym)

lemma nearest_from_new:
  "closest_member S (opposite d) u y \<Longrightarrow> u \<notin> S \<Longrightarrow> nearest (insert u S) d u y"
  by (auto simp: closest_member_def nearest_def beyond_opposite not_beyond dest: beyond_asym)

lemma closest_other_side:
  assumes "closest_member S d u x" "u \<notin> S" "list_slot S d x s"
  shows "case s of Some e \<Rightarrow> closest_member S (opposite d) u (ident_id e)
                 | None \<Rightarrow> \<forall>y \<in> S. \<not> beyond d u y"
proof -
  have xu: "beyond d x u" using assms(1,2) by (auto simp: closest_member_def not_beyond)
  have past: "beyond d u j" if "j \<in> S" "beyond d x j" for j
    using assms(1) that by (auto simp: closest_member_def)
  show ?thesis
  proof (cases s)
    case None
    then show ?thesis using assms(3) xu by (auto simp: list_slot_def dest: beyond_trans)
  next
    case (Some e)
    then have near: "nearest S d x (ident_id e)" using assms(3) by (simp add: list_slot_def)
    have "\<not> beyond d y (ident_id e)" if "y \<in> S" "\<not> beyond d y u" for y
    proof -
      have "beyond d u y" using that assms(2) by (auto simp: not_beyond)
      then show ?thesis using near that(1) xu by (auto simp: nearest_def dest: beyond_trans)
    qed
    then show ?thesis
      using Some near past
      by (auto simp: closest_member_def nearest_def beyond_opposite dest: beyond_asym)
  qed
qed

text \<open>What one finished link does to the side it was requested on.\<close>

lemma link_made_side:
  assumes "side_linked hub S d" "closest_member S d u x" "u \<notin> S" "link_made hub hub' d x u"
    and "identity_at hub u = Some eu" "ident_id eu = u" "i \<in> S"
  shows "list_slot (insert u S) d i (slot_at hub' i 0 d)"
proof (cases "i = x")
  case True
  then show ?thesis
    using assms nearest_new [OF assms(2,3)] by (simp add: link_made_def list_slot_def)
next
  case False
  then have "\<not> closest_member S d u i" using closest_member_unique [OF assms(2)] by blast
  moreover have "slot_at hub' i 0 d = slot_at hub i 0 d"
    using assms(3,4,7) False by (auto simp: link_made_def)
  ultimately show ?thesis
    using assms(1,3,7) by (simp add: list_slot_insert side_linked_def)
qed

text \<open>
  One side is done for the new member \<open>u\<close>: the side-\<open>d\<close> slots of the members are those of the longer
  list, and so is the slot of \<open>u\<close> that points back.
\<close>

definition side_done :: "NetworkHub \<Rightarrow> Identifier set \<Rightarrow> Identifier \<Rightarrow> Direction \<Rightarrow> bool" where
  "side_done hub S u d \<longleftrightarrow>
     (\<forall>i \<in> S. list_slot (insert u S) d i (slot_at hub i 0 d)) \<and>
     list_slot (insert u S) (opposite d) u (slot_at hub u 0 (opposite d))"

lemma link_made_done:
  assumes "side_linked hub S d" "closest_member S d u x" "u \<notin> S" "link_made hub hub' d x u"
    and "identity_at hub u = Some eu" "ident_id eu = u"
    and "identity_at hub x = Some ex" "ident_id ex = x"
  shows "side_done hub' S u d"
proof -
  have "x \<noteq> u" using assms(2,3) by (auto simp: closest_member_def)
  moreover have "nearest (insert u S) (opposite d) u x"
    using nearest_from_new [of S "opposite d" u x] assms(2,3) by simp
  ultimately show ?thesis
    using link_made_side [OF assms(1-6)] assms(4,7,8)
    by (simp add: side_done_def link_made_def list_slot_def)
qed

lemma no_link_done:
  assumes "side_linked hub S d" "u \<notin> S" "\<forall>y \<in> S. \<not> beyond (opposite d) u y"
    and "slot_at hub u 0 (opposite d) = None"
  shows "side_done hub S u d"
proof -
  have "\<not> closest_member S d u i" for i
    using assms(2,3) by (auto simp: closest_member_def beyond_opposite not_beyond)
  then show ?thesis
    using assms by (auto simp: side_done_def side_linked_def list_slot_insert)
      (simp add: list_slot_def)
qed

lemma side_done_frame:
  "side_done hub S u d \<Longrightarrow> u \<notin> S \<Longrightarrow> y \<noteq> u \<Longrightarrow> link_made hub hub' (opposite d) y u \<Longrightarrow>
   side_done hub' S u d"
  unfolding side_done_def link_made_def by auto

lemma sides_joined:
  assumes "finite S" "side_done hub S u d" "side_done hub S u (opposite d)"
    and "\<forall>i \<in> insert u S. node_at hub i \<noteq> None"
    and "\<And>i l dir e. i \<in> insert u S \<Longrightarrow> l \<noteq> 0 \<Longrightarrow> slot_at hub i l dir = Some e \<Longrightarrow> ident_id e \<in> S"
  shows "graph_linked hub (insert u S)"
proof -
  have two: "d' = d \<or> d' = opposite d" for d' by (cases d; cases d') auto
  have zero: "list_slot (insert u S) dir i (slot_at hub i 0 dir)" if "i \<in> insert u S" for i dir
    using that two [of dir] assms(2,3) by (auto simp: side_done_def)
  have "ident_id e \<in> insert u S" if "i \<in> insert u S" "slot_at hub i l dir = Some e" for i l dir e
  proof (cases "l = 0")
    case True
    then show ?thesis using zero [OF that(1), of dir] that(2) by (simp add: list_slot_def nearest_def)
  qed (use assms(5) that in blast)
  then show ?thesis
    using zero assms(1,4) by (auto simp: graph_linked_sides side_linked_def)
qed

section \<open>Stage 1 of the join\<close>

text \<open>The state of the joining node: registered, outside the graph, and unlinked at level 0.\<close>

definition joining :: "NetworkHub \<Rightarrow> Identifier set \<Rightarrow> Identifier \<Rightarrow> bool" where
  "joining hub S u \<longleftrightarrow>
     u \<notin> S \<and> node_at hub u \<noteq> None \<and>
     (\<forall>l d e. slot_at hub u l d = Some e \<longrightarrow> l \<noteq> 0 \<and> ident_id e \<in> S)"

text \<open>
  The join is over: the list holds \<open>u\<close>, nothing above level 0 has moved, and no outsider's table
  has changed.
\<close>

definition joined :: "NetworkHub \<Rightarrow> NetworkHub \<Rightarrow> Identifier set \<Rightarrow> Identifier \<Rightarrow> bool" where
  "joined hub hub' S u \<longleftrightarrow>
     hub_ok hub' \<and> evolves hub hub' \<and> graph_linked hub' (insert u S) \<and>
     (\<forall>i l d. l \<noteq> 0 \<or> i \<notin> insert u S \<longrightarrow> slot_at hub' i l d = slot_at hub i l d)"

lemma evolves_None: "evolves hub hub' \<Longrightarrow> (node_at hub' i = None) = (node_at hub i = None)"
  unfolding evolves_def by (metis option.rel_sel)

lemma identity_at_id:
  "hub_ok hub \<Longrightarrow> node_at hub i \<noteq> None \<Longrightarrow> \<exists>e. identity_at hub i = Some e \<and> ident_id e = i"
  by (auto simp: identity_at_def self_identity_def identity_new_def dest: hub_okD(1))

context oneshot
begin

lemma link_step:
  assumes "hub_ok hub" "side_linked hub S d" "u \<notin> S" "node_at hub u \<noteq> None"
    and "slot_at hub u 0 (opposite d) = None" "closest_member S d u x" "2 \<le> k"
  shows "\<exists>hub'. send_link_request aw k hub u x d 0 nonce = Some (hub', Ok ()) \<and>
    link_made hub hub' d x u \<and> hub_ok hub' \<and> evolves hub hub' \<and> side_done hub' S u d"
proof -
  obtain n where n: "node_at hub u = Some n" using assms(4) by auto
  have x: "x \<in> S" "beyond d x u" using assms(3,6) by (auto simp: closest_member_def not_beyond)
  have "ahead S d u x = {}" using assms(6) by (auto simp: ahead_def closest_member_def)
  then obtain x' hub' where l: "closest_member S d u x'"
    "send_link_request aw k hub u x d 0 nonce = Some (hub', Ok ())" "link_made hub hub' d x' u"
    using link_request_answer [OF assms(1-3) n assms(5) x, of k nonce] assms(7) by auto
  have "x' = x" by (rule closest_member_unique [OF l(1) assms(6)])
  have "node_at hub x \<noteq> None" using assms(2) x(1) by (auto simp: side_linked_def)
  then have "side_done hub' S u d"
    using link_made_done [OF assms(2,6,3)] l(3) \<open>x' = x\<close> identity_at_id [OF assms(1)] assms(4)
    by metis
  then show ?thesis
    using l \<open>x' = x\<close> send_link_request_keeps [OF assms(1) l(2)] by blast
qed

lemma stage1_link_joins:
  assumes "hub_ok hub" "graph_linked hub S" "joining hub S u" "closest_member S d u x" "2 \<le> k"
  shows "\<exists>hub'. stage1_link aw k hub u x d nonce_query nonce1 nonce2 = Some (hub', Ok ()) \<and>
    joined hub hub' S u"
proof -
  have u: "u \<notin> S" using assms(3) by (simp add: joining_def)
  have u0: "slot_at hub u 0 dir = None" for dir
    using assms(3) by (cases "slot_at hub u 0 dir") (auto simp: joining_def)
  obtain n where n: "node_at hub u = Some n" using assms(3) by (auto simp: joining_def)
  obtain nx where nx: "node_at hub x = Some nx"
    using graph_node [OF assms(2)] assms(4) by (auto simp: closest_member_def)
  obtain r where q: "get_neighbor aw k hub u x d 0 nonce_query =
      Some (put_node hub u (n\<lparr>node_requests := r\<rparr>), Ok (slot_at hub x 0 d))" "wf_requests r"
    using get_neighbor_answer [OF assms(1) n nx assms(5), of 0 d nonce_query] slot_at_node [OF nx]
    by (auto simp: size_defs)
  define h1 where "h1 = put_node hub u (n\<lparr>node_requests := r\<rparr>)"
  have h1: "hub_ok h1" "evolves hub h1"
    using hub_ok_requests [OF assms(1) n q(2)] evolves_put_node [OF n] by (simp_all add: h1_def)
  have s1: "slot_at h1 i l dir = slot_at hub i l dir" for i l dir
    by (simp add: h1_def slot_at_put_requests [OF n])
  have nodes: "node_at h' i \<noteq> None" if "evolves hub h'" "i \<in> insert u S" for i h'
    using that n assms(2) graph_node [OF assms(2)] by (auto simp: evolves_None)
  have sides: "side_linked h1 S dir" for dir
    using assms(2) by (simp add: h1_def side_linked_requests [OF n] graph_linked_sides)
  have closed: "ident_id e \<in> S" if "i \<in> insert u S" "l \<noteq> 0" "slot_at hub i l dir = Some e" for i l dir e
    using that assms(2,3) by (auto simp: graph_linked_sides joining_def)
  have fin: "finite S" using graph_finite [OF assms(2)] .
  obtain h2 where h2: "send_link_request aw k h1 u x d 0 nonce1 = Some (h2, Ok ())"
    "link_made h1 h2 d x u" "hub_ok h2" "evolves h1 h2" "side_done h2 S u d"
    using link_step [OF h1(1) sides u nodes [OF h1(2)] _ assms(4,5), of nonce1] s1 u0 by auto
  have e2: "evolves hub h2" using h1(2) h2(4) by (rule evolves_trans)
  have s2: "slot_at h2 i l dir = slot_at hub i l dir"
    if "l \<noteq> 0 \<or> (dir = opposite d \<and> i \<noteq> u) \<or> i \<notin> insert u S" for i l dir
    using h2(2) s1 that assms(4) by (auto simp: link_made_def closest_member_def)
  have s2u: "slot_at h2 u 0 d = None" using h2(2) s1 u0 u assms(4)
    by (auto simp: link_made_def closest_member_def)
  have "slot_at h2 i 0 (opposite d) = slot_at h1 i 0 (opposite d)" if "i \<in> S" for i
    using s1 s2 [of 0 "opposite d" i] u that by auto
  then have side2: "side_linked h2 S (opposite d)"
    using sides [of "opposite d"] side_linked_cong [of S h2 h1] evolves_None [OF h2(4)] by simp
  have "list_slot S d x (slot_at hub x 0 d)"
    using assms(2,4) by (auto simp: graph_linked_sides side_linked_def closest_member_def)
  note other = closest_other_side [OF assms(4) u this]
  show ?thesis
  proof (cases "slot_at hub x 0 d")
    case None
    have "side_done h2 S u (opposite d)"
      using no_link_done [OF side2 u] other None s2u by simp
    then have "graph_linked h2 (insert u S)"
      using sides_joined [OF fin h2(5)] nodes [OF e2] s2 closed by simp
    then show ?thesis
      using q(1) None h2 e2 s2 by (simp add: stage1_link_def h1_def joined_def)
  next
    case (Some e)
    then have c: "closest_member S (opposite d) u (ident_id e)" using other by simp
    then obtain h3 where h3: "send_link_request aw k h2 u (ident_id e) (opposite d) 0 nonce2 = Some (h3, Ok ())"
      "link_made h2 h3 (opposite d) (ident_id e) u" "hub_ok h3" "evolves h2 h3"
      "side_done h3 S u (opposite d)"
      using link_step [OF h2(3) side2 u nodes [OF e2] _ c assms(5), of nonce2] s2u by auto
    have e3: "evolves hub h3" using e2 h3(4) by (rule evolves_trans)
    have s3: "slot_at h3 i l dir = slot_at hub i l dir" if "l \<noteq> 0 \<or> i \<notin> insert u S" for i l dir
      using h3(2) s2 [of l dir i] that c by (auto simp: link_made_def closest_member_def)
    have "ident_id e \<noteq> u" using c u by (auto simp: closest_member_def)
    then have "side_done h3 S u d" using side_done_frame [OF h2(5) u _ h3(2)] by simp
    then have "graph_linked h3 (insert u S)"
      using sides_joined [OF fin _ h3(5)] nodes [OF e3] s3 closed by simp
    then show ?thesis
      using q(1) Some h2(1) h3 e3 s3 by (simp add: stage1_link_def link_both_def h1_def joined_def)
  qed
qed

lemma join_stage1_joins:
  assumes "hub_ok hub" "graph_linked hub S" "joining hub S u" "introducer \<in> S"
    and "max_level < LOOKUP_TABLE_LEVELS" "card S + 1 < k"
  shows "\<exists>hub'. join_stage1_link_level0 aw k hub u introducer max_level nonces = Some (hub', Ok ()) \<and>
    joined hub hub' S u"
proof -
  obtain nonce_search nonce_query nonce1 nonce2 where
    nonces: "nonces = (nonce_search, nonce_query, nonce1, nonce2)" by (cases nonces) auto
  obtain n where n: "node_at hub u = Some n" using assms(3) by (auto simp: joining_def)
  have id: "core_id (node_core n) = u" by (rule hub_okD(1) [OF assms(1) n])
  have u: "u \<notin> S" using assms(3) by (simp add: joining_def)
  then have neq: "introducer \<noteq> u" using assms(4) by auto
  define d where "d = (if introducer < u then Right else Left)"
  have d: "stage1_direction introducer u = Ok d" "\<not> beyond d u introducer"
    using neq by (auto simp: stage1_direction_def d_def)
  have fin: "finite S" using graph_finite [OF assms(2)] .
  have "card (ahead S d u introducer) \<le> card S"
    using fin by (intro card_mono) (auto simp: ahead_def)
  then obtain x r where x: "closest_member S d u x" "wf_requests r"
    "send_search_by_id_req aw k hub u introducer nonce_search u max_level d =
      Some (put_node hub u (n\<lparr>node_requests := r\<rparr>),
        Ok \<lparr>sres_nonce = nonce_search, sres_target = u, sres_termination_level = 0, sres_result = x\<rparr>)"
    using search_req_answer [OF assms(1,2) n assms(4) d(2) assms(5), of k nonce_search] assms(6)
    by auto
  define h1 where "h1 = put_node hub u (n\<lparr>node_requests := r\<rparr>)"
  have s1: "slot_at h1 i l dir = slot_at hub i l dir" for i l dir
    by (simp add: h1_def slot_at_put_requests [OF n])
  have h1: "hub_ok h1" "graph_linked h1 S" "joining h1 S u" "evolves hub h1"
    using hub_ok_requests [OF assms(1) n x(2)] assms(2,3) evolves_put_node [OF n] s1
      node_at_networks [OF n]
    by (auto simp: h1_def graph_linked_requests [OF n] joining_def)
  have xu: "x \<noteq> u" using x(1) u by (auto simp: closest_member_def)
  have "0 < card S" using fin assms(4) by (auto simp: card_gt_0_iff)
  then obtain h2 where h2: "stage1_link aw k h1 u x d nonce_query nonce1 nonce2 = Some (h2, Ok ())"
    "joined h1 h2 S u"
    using stage1_link_joins [OF h1(1-3) x(1), of k nonce_query nonce1 nonce2] assms(6) by auto
  then have "joined hub h2 S u" using s1 h1(4) by (auto simp: joined_def elim: evolves_trans)
  then show ?thesis
    using n d(1) x(3) xu h2(1) by (simp add: join_stage1_link_level0_def nonces id h1_def)
qed

end

section \<open>Joins one after the other\<close>

type_synonym join_call = "Identifier \<times> Identifier \<times> LookupTableLevel \<times> (Nonce \<times> Nonce \<times> Nonce \<times> Nonce)"

text \<open>A run of calls, each started when the previous one has returned; the first failure ends it.\<close>

fun join_sequence :: "await_fn \<Rightarrow> nat \<Rightarrow> NetworkHub \<Rightarrow> join_call list \<Rightarrow> NetworkHub option" where
  "join_sequence aw k hub [] = Some hub"
| "join_sequence aw k hub ((u, introducer, max_level, nonces) # js) =
     (case join_stage1_link_level0 aw k hub u introducer max_level nonces of
        Some (hub', Ok _) \<Rightarrow> join_sequence aw k hub' js
      | _ \<Rightarrow> None)"

text \<open>Every introducer has joined before the call that names it.\<close>

fun introduced :: "Identifier set \<Rightarrow> join_call list \<Rightarrow> bool" where
  "introduced S [] = True"
| "introduced S ((u, introducer, max_level, nonces) # js) =
     (introducer \<in> S \<and> max_level < LOOKUP_TABLE_LEVELS \<and> introduced (insert u S) js)"

lemma joining_after:
  assumes "joined hub hub' S u" "joining hub S v" "v \<noteq> u"
  shows "joining hub' (insert u S) v"
  using assms evolves_None [of hub hub' v] by (auto simp: joined_def joining_def)

context oneshot
begin

lemma join_sequence_links:
  assumes "hub_ok hub" "graph_linked hub S" "introduced S js" "distinct (map fst js)"
    and "\<forall>u \<in> set (map fst js). joining hub S u" "card S + length js < k"
  shows "\<exists>hub'. join_sequence aw k hub js = Some hub' \<and> hub_ok hub' \<and>
    graph_linked hub' (S \<union> set (map fst js))"
  using assms
proof (induction js arbitrary: hub S)
  case (Cons j js)
  obtain u introducer max_level nonces where j: "j = (u, introducer, max_level, nonces)"
    by (cases j) auto
  have u: "joining hub S u" using Cons.prems(5) j by simp
  obtain h1 where h1: "join_stage1_link_level0 aw k hub u introducer max_level nonces = Some (h1, Ok ())"
    "joined hub h1 S u"
    using join_stage1_joins [OF Cons.prems(1,2) u, of introducer max_level k nonces]
      Cons.prems(3,6) j by auto
  have "card (insert u S) \<le> Suc (card S)" by (rule card_insert_le_m1) simp_all
  then have "\<exists>hub'. join_sequence aw k h1 js = Some hub' \<and> hub_ok hub' \<and>
      graph_linked hub' (insert u S \<union> set (map fst js))"
    using Cons.prems(3-6) j h1(2) joining_after [OF h1(2)]
    by (intro Cons.IH) (auto simp: joined_def image_iff)
  then show ?case using h1(1) j by simp
qed simp

end

section \<open>Joining again\<close>

text \<open>
  A member that runs stage 1 a second time, through any other member, finds itself and stops.
\<close>

context oneshot
begin

lemma join_stage1_refuses:
  assumes "hub_ok hub" "graph_linked hub S" "u \<in> S" "introducer \<in> S" "introducer \<noteq> u"
    and "max_level < LOOKUP_TABLE_LEVELS" "card S + 1 < k"
  shows "\<exists>hub'. join_stage1_link_level0 aw k hub u introducer max_level nonces =
      Some (hub', Err (Msg ''stage-1 search resolved a node with this node's own id, another node already holds it'')) \<and>
    (\<forall>i. table_at hub' i = table_at hub i)"
proof -
  obtain nonce_search nonce_query nonce1 nonce2 where
    nonces: "nonces = (nonce_search, nonce_query, nonce1, nonce2)" by (cases nonces) auto
  obtain n where n: "node_at hub u = Some n" using graph_node [OF assms(2,3)] by blast
  have id: "core_id (node_core n) = u" by (rule hub_okD(1) [OF assms(1) n])
  define d where "d = (if introducer < u then Right else Left)"
  have d: "stage1_direction introducer u = Ok d" "\<not> beyond d u introducer"
    using assms(5) by (auto simp: stage1_direction_def d_def)
  have "card (ahead S d u introducer) \<le> card S"
    using graph_finite [OF assms(2)] by (intro card_mono) (auto simp: ahead_def)
  then obtain x r where x: "closest_member S d u x"
    "send_search_by_id_req aw k hub u introducer nonce_search u max_level d =
      Some (put_node hub u (n\<lparr>node_requests := r\<rparr>),
        Ok \<lparr>sres_nonce = nonce_search, sres_target = u, sres_termination_level = 0, sres_result = x\<rparr>)"
    using search_req_answer [OF assms(1,2) n assms(4) d(2) assms(6), of k nonce_search] assms(7)
    by auto
  have "closest_member S d u u" using assms(3) by (auto simp: closest_member_def)
  with x(1) have "x = u" by (rule closest_member_unique)
  with x(2) show ?thesis
    using n d(1) by (simp add: join_stage1_link_level0_def nonces id table_at_put_node)
qed

end

end
