(* ===== verification/Async_Join.thy ===== *)
theory Async_Join
  imports Delivery Join_Protocol "HOL-Library.Multiset"
begin

text \<open>
  \<^verbatim>\<open>join_stage1_link_level0\<close> as the state machine that the compiler makes of an \<^verbatim>\<open>async fn\<close>: it runs to
  its next \<^verbatim>\<open>.await\<close>, gives the thread back, and goes on when the channel it waits for has a reply or
  a timer has fired. The join runs on a network with messages in flight, while the other nodes
  search and query at will. It always comes to its end, returns Ok, and leaves the sorted doubly
  linked list with the new node, whatever the order of deliveries.
\<close>

section \<open>Definitions\<close>

text \<open>
  The three awaits of the join. In the last one a link request is either still waiting or over;
  there are one or two of them, as in \<^verbatim>\<open>search_link.await\<close> and \<^verbatim>\<open>tokio::join!\<close>.
\<close>

datatype LinkWait = Waiting Nonce chan | Over "unit result"

datatype JoinState =
    Searching Direction Nonce chan
  | Querying Direction Identifier Nonce chan
  | Linking LinkWait "LinkWait option"
  | Joined "unit result"

definition join_begin ::
  "BaseNode \<Rightarrow> Identifier \<Rightarrow> LookupTableLevel \<Rightarrow> Nonce
   \<Rightarrow> BaseNode \<times> JoinState \<times> (Identifier \<times> Event) list" where
  "join_begin n introducer max_level nonce =
     (let own_id = core_id (node_core n) in
      case stage1_direction introducer own_id of
        Err e \<Rightarrow> (n, Joined (Err e), [])
      | Ok search_direction \<Rightarrow>
          (let (n', ch, dest, ev) =
             send_search_by_id_req_begin n introducer nonce own_id max_level search_direction
           in (n', Searching search_direction nonce ch, [(dest, ev)])))"

text \<open>A wait is over when something has happened on its channel or its timer has fired.\<close>

definition ready :: "(chan \<Rightarrow> bool) \<Rightarrow> BaseNode \<Rightarrow> chan \<Rightarrow> bool" where
  "ready fired n ch \<longleftrightarrow> oneshots (node_requests n) ch \<noteq> [] \<or> fired ch"

fun link_poll :: "await_fn \<Rightarrow> (chan \<Rightarrow> bool) \<Rightarrow> BaseNode \<Rightarrow> LinkWait \<Rightarrow> BaseNode \<times> LinkWait" where
  "link_poll aw fired n (Waiting nonce ch) =
     (if ready fired n ch
      then (let (n', r) = send_link_request_end aw n nonce ch (Ok ()) in (n', Over r))
      else (n, Waiting nonce ch))"
| "link_poll aw fired n (Over r) = (n, Over r)"

fun links_result :: "LinkWait \<Rightarrow> LinkWait option \<Rightarrow> JoinState" where
  "links_result (Over search_res) None = Joined search_res"
| "links_result (Over search_res) (Some (Over query_res)) =
     Joined (case search_res of Err e \<Rightarrow> Err e | Ok _ \<Rightarrow> query_res)"
| "links_result w1 w2 = Linking w1 w2"

definition resume_search ::
  "await_fn \<Rightarrow> BaseNode \<Rightarrow> Direction \<Rightarrow> Nonce \<Rightarrow> chan \<Rightarrow> Nonce
   \<Rightarrow> BaseNode \<times> JoinState \<times> (Identifier \<times> Event) list" where
  "resume_search aw n search_direction nonce ch nonce_query =
     (let (n1, res) = send_search_by_id_req_end aw n nonce ch (Ok ()) in
      case res of
        Err e \<Rightarrow> (n1, Joined (Err e), [])
      | Ok r \<Rightarrow>
          let search_result = sres_result r in
          if search_result = core_id (node_core n1)
          then (n1, Joined (Err (Msg ''stage-1 search resolved a node with this node's own id, another node already holds it'')), [])
          else let (n2, ch2, dest, ev) = get_neighbor_begin n1 search_result search_direction 0 nonce_query
               in (n2, Querying search_direction search_result nonce_query ch2, [(dest, ev)]))"

definition resume_query ::
  "await_fn \<Rightarrow> BaseNode \<Rightarrow> Direction \<Rightarrow> Identifier \<Rightarrow> Nonce \<Rightarrow> chan \<Rightarrow> Nonce \<Rightarrow> Nonce
   \<Rightarrow> BaseNode \<times> JoinState \<times> (Identifier \<times> Event) list" where
  "resume_query aw n search_direction search_result nonce ch nonce1 nonce2 =
     (let (n1, res) = get_neighbor_end aw n nonce ch (Ok ()) in
      case res of
        Err e \<Rightarrow> (n1, Joined (Err e), [])
      | Ok query_result \<Rightarrow>
          let (n2, ch1, dest1, ev1) =
                send_link_request_begin n1 search_result search_direction 0 nonce1 in
          (case query_result of
             Some query_identity \<Rightarrow>
               let (n3, ch2, dest2, ev2) =
                     send_link_request_begin n2 (ident_id query_identity)
                       (opposite search_direction) 0 nonce2
               in (n3, Linking (Waiting nonce1 ch1) (Some (Waiting nonce2 ch2)),
                   [(dest1, ev1), (dest2, ev2)])
           | None \<Rightarrow> (n2, Linking (Waiting nonce1 ch1) None, [(dest1, ev1)])))"

fun join_resume ::
  "await_fn \<Rightarrow> (chan \<Rightarrow> bool) \<Rightarrow> Nonce \<times> Nonce \<Rightarrow> BaseNode \<Rightarrow> JoinState
   \<Rightarrow> BaseNode \<times> JoinState \<times> (Identifier \<times> Event) list" where
  "join_resume aw fired nonces n (Searching d nonce ch) =
     (if ready fired n ch then resume_search aw n d nonce ch (fst nonces)
      else (n, Searching d nonce ch, []))"
| "join_resume aw fired nonces n (Querying d search_result nonce ch) =
     (if ready fired n ch
      then resume_query aw n d search_result nonce ch (fst nonces) (snd nonces)
      else (n, Querying d search_result nonce ch, []))"
| "join_resume aw fired nonces n (Linking w1 None) =
     (let (n1, w1') = link_poll aw fired n w1 in (n1, links_result w1' None, []))"
| "join_resume aw fired nonces n (Linking w1 (Some w2)) =
     (let (n1, w1') = link_poll aw fired n w1;
          (n2, w2') = link_poll aw fired n1 w2
      in (n2, links_result w1' (Some w2'), []))"
| "join_resume aw fired nonces n (Joined r) = (n, Joined r, [])"

text \<open>Whether polling the join again gets it further.\<close>

fun wait_ready :: "(chan \<Rightarrow> bool) \<Rightarrow> BaseNode \<Rightarrow> LinkWait \<Rightarrow> bool" where
  "wait_ready fired n (Waiting nonce ch) = ready fired n ch"
| "wait_ready fired n (Over r) = False"

fun awake :: "(chan \<Rightarrow> bool) \<Rightarrow> BaseNode \<Rightarrow> JoinState \<Rightarrow> bool" where
  "awake fired n (Searching d nonce ch) = ready fired n ch"
| "awake fired n (Querying d x nonce ch) = ready fired n ch"
| "awake fired n (Linking w1 None) = wait_ready fired n w1"
| "awake fired n (Linking w1 (Some w2)) = (wait_ready fired n w1 \<or> wait_ready fired n w2)"
| "awake fired n (Joined r) = False"

subsection \<open>The network around the join\<close>

text \<open>
  Read traffic: searches and queries of nodes other than the joining one, and their replies.
\<close>

fun read_event :: "Identifier \<Rightarrow> Identifier \<Rightarrow> Event \<Rightarrow> bool" where
  "read_event u i (SearchByIdRequest req) = (sreq_origin req \<noteq> u)"
| "read_event u i (GetMaxLevelOp req) = (mlreq_origin req \<noteq> u)"
| "read_event u i (GetNeighborOp req) = (nreq_origin req \<noteq> u)"
| "read_event u i (SearchByIdResponse res) = (i \<noteq> u)"
| "read_event u i (RetMaxLevelOp res) = (i \<noteq> u)"
| "read_event u i (RetNeighborOp res) = (i \<noteq> u)"
| "read_event u i _ = False"

fun read_packet :: "Identifier \<Rightarrow> Packet \<Rightarrow> bool" where
  "read_packet u (origin, i, ev) = read_event u i ev"

fun read_request :: "Request \<Rightarrow> bool" where
  "read_request (AskLink dest d level nonce) = False"
| "read_request _ = True"

text \<open>
  The joining node \<open>u\<close> does nothing but join, and nothing of its own is lost; everything else may
  happen to the others' reads.
\<close>

inductive join_step ::
  "await_fn \<Rightarrow> Identifier \<Rightarrow> Net \<times> JoinState \<Rightarrow> Net \<times> JoinState \<Rightarrow> bool"
  for aw u where
  join_deliver: "delivery_step s s' \<Longrightarrow> join_step aw u (s, js) (s', js)"
| join_resumes: "net_nodes s u = Some n \<Longrightarrow> awake (\<lambda>_. False) n js \<Longrightarrow> nonce1 \<noteq> nonce2 \<Longrightarrow>
    join_resume aw (\<lambda>_. False) (nonce1, nonce2) n js = (n', js', sent) \<Longrightarrow>
    join_step aw u (s, js)
      (s\<lparr>net_nodes := (net_nodes s)(u \<mapsto> n'), in_flight := in_flight s @ map (Pair u) sent\<rparr>, js')"
| other_asks: "i \<noteq> u \<Longrightarrow> net_nodes s i = Some n \<Longrightarrow> read_request rq \<Longrightarrow>
    begin_request n rq = (n', ch, dest, ev) \<Longrightarrow>
    join_step aw u (s, js)
      (s\<lparr>net_nodes := (net_nodes s)(i \<mapsto> n'), in_flight := in_flight s @ [(i, dest, ev)]\<rparr>, js)"
| other_ends: "i \<noteq> u \<Longrightarrow> net_nodes s i = Some n \<Longrightarrow>
    join_step aw u (s, js) (s\<lparr>net_nodes := (net_nodes s)(i \<mapsto> unpark n nonce ch)\<rparr>, js)"
| read_lost: "p \<in> set (in_flight s) \<Longrightarrow> read_packet u p \<Longrightarrow>
    join_step aw u (s, js) (s\<lparr>in_flight := remove1 p (in_flight s)\<rparr>, js)"
| read_forged: "read_packet u p \<Longrightarrow>
    join_step aw u (s, js) (s\<lparr>in_flight := in_flight s @ [p]\<rparr>, js)"

inductive_cases join_stepE: "join_step aw u (s, js) (s', js')"

section \<open>The network as a hub\<close>

definition hub_of :: "Net \<Rightarrow> NetworkHub" where
  "hub_of s = \<lparr>networks = (\<lambda>i. map_option
     (\<lambda>n. \<lparr>net_id = i, net_address = node_address n, processor = Some n\<rparr>) (net_nodes s i))\<rparr>"

lemma node_at_hub_of [simp]: "node_at (hub_of s) i = net_nodes s i"
  by (cases "net_nodes s i") (simp_all add: node_at_def hub_of_def)

lemma networks_hub_of:
  "networks (hub_of s) i = Some net \<longleftrightarrow> (\<exists>n. net_nodes s i = Some n \<and>
     net = \<lparr>net_id = i, net_address = node_address n, processor = Some n\<rparr>)"
  by (cases "net_nodes s i") (auto simp: hub_of_def)

lemma hub_ok_hub_of [simp]: "hub_ok (hub_of s) = net_ok s"
proof
  assume "hub_ok (hub_of s)"
  then show "net_ok s" unfolding net_ok_def using hub_okD(1,2) [of "hub_of s"] by simp
next
  assume "net_ok s"
  then have "core_id (node_core n) = i \<and> node_ok n" if "net_nodes s i = Some n" for i n
    using that by (simp add: net_ok_def)
  then show "hub_ok (hub_of s)" unfolding hub_ok_def networks_hub_of by force
qed

abbreviation slot_in :: "Net \<Rightarrow> Identifier \<Rightarrow> LookupTableLevel \<Rightarrow> Direction \<Rightarrow> Identity option" where
  "slot_in s \<equiv> slot_at (hub_of s)"

lemma slot_in_eq:
  "slot_in s i l d = Option.bind (net_nodes s i) (\<lambda>n. slot (core_lt (node_core n)) l d)"
  by (cases "net_nodes s i") (simp_all add: slot_at_def table_at_def)

lemma slot_in_update [simp]:
  "slot_in (s\<lparr>net_nodes := (net_nodes s)(i \<mapsto> n), in_flight := fl\<rparr>) j l d =
     (if j = i then slot (core_lt (node_core n)) l d else slot_in s j l d)"
  "slot_in (s\<lparr>net_nodes := (net_nodes s)(i \<mapsto> n)\<rparr>) j l d =
     (if j = i then slot (core_lt (node_core n)) l d else slot_in s j l d)"
  "slot_in (s\<lparr>in_flight := fl\<rparr>) j l d = slot_in s j l d"
  by (simp_all add: slot_in_eq)

section \<open>Read traffic\<close>

text \<open>The messages that are not read traffic: those of the join.\<close>

definition own_packets :: "Identifier \<Rightarrow> Net \<Rightarrow> Packet multiset" where
  "own_packets u s = mset (filter (\<lambda>p. \<not> read_packet u p) (in_flight s))"

text \<open>What read traffic leaves alone.\<close>

definition undisturbed :: "Identifier \<Rightarrow> Net \<Rightarrow> Net \<Rightarrow> bool" where
  "undisturbed u s s' \<longleftrightarrow>
     net_ok s' \<and> net_evolves s s' \<and> slot_in s' = slot_in s \<and>
     map_option node_requests (net_nodes s' u) = map_option node_requests (net_nodes s u) \<and>
     own_packets u s' = own_packets u s"

lemma read_handled:
  assumes "read_event u i ev"
  shows "node_core (fst (process_incoming_event n origin ev)) = node_core n"
    and "i = u \<Longrightarrow> fst (process_incoming_event n origin ev) = n"
    and "core_id (node_core n) = i \<Longrightarrow>
      \<forall>p \<in> set (outgoing i (snd (process_incoming_event n origin ev))). read_packet u p"
  using assms
  by (cases ev; auto simp: handle_search_by_id_request_def handle_search_by_id_response_def
      handle_get_max_level_request_def handle_ret_max_level_response_def
      handle_get_neighbor_request_def handle_ret_neighbor_response_def outgoing_def
      split: sum.splits)+

lemma filter_remove1_mset:
  "mset (filter P (remove1 x xs)) = (if P x then mset (filter P xs) - {#x#} else mset (filter P xs))"
  by (induction xs) auto

text \<open>A delivery either disturbs nothing or handles one of the join's own messages.\<close>

lemma delivery_undisturbed:
  assumes "net_ok s" "delivery_step s s'"
  obtains (read) "undisturbed u s s'"
  | (own) origin i ev n where "(origin, i, ev) \<in># own_packets u s" "net_nodes s i = Some n"
      "s' = deliver_to s (origin, i, ev) n"
      "own_packets u s' = own_packets u s - {#(origin, i, ev)#} + mset (filter (\<lambda>p. \<not> read_packet u p)
         (outgoing i (snd (process_incoming_event n origin ev))))"
  | (lost) origin i ev where "(origin, i, ev) \<in># own_packets u s" "net_nodes s i = None"
proof -
  have keeps: "net_ok s'" "net_evolves s s'"
    using net_step_keeps [OF assms(1) delivery_step_net_step [OF assms(2)]] by auto
  from assms(2) show thesis
  proof cases
    case (delivered origin i ev n)
    let ?r = "process_incoming_event n origin ev"
    have s': "net_nodes s' = (net_nodes s)(i \<mapsto> fst ?r)"
      "in_flight s' = remove1 (origin, i, ev) (in_flight s) @ outgoing i (snd ?r)"
      using delivered(1) by (simp_all add: deliver_to_def split: prod.splits)
    have id: "core_id (node_core n) = i" using assms(1) delivered(3) by (auto simp: net_ok_def)
    show thesis
    proof (cases "read_packet u (origin, i, ev)")
      case True
      then have r: "read_event u i ev" by simp
      have "slot_in s' j l d = slot_in s j l d" for j l d
        using delivered(3) read_handled(1) [OF r, of n origin] by (simp add: slot_in_eq s')
      moreover have "own_packets u s' = own_packets u s"
        using True read_handled(3) [OF r id, of origin]
        by (simp add: own_packets_def s' filter_remove1_mset filter_empty_conv)
      ultimately show thesis
        using keeps delivered(3) read_handled(2) [OF r, of n origin]
        by (intro read) (auto simp: undisturbed_def s' fun_eq_iff)
    next
      case False
      then show thesis
        using delivered(2) by (intro own [OF _ delivered(3,1)])
          (simp_all add: own_packets_def s' filter_remove1_mset)
    qed
  next
    case (refused origin i ev)
    show thesis
    proof (cases "read_packet u (origin, i, ev)")
      case True
      then show thesis
        using keeps refused by (intro read)
          (auto simp: undisturbed_def own_packets_def filter_remove1_mset fun_eq_iff)
    next
      case False
      then show thesis using refused by (intro lost) (auto simp: own_packets_def)
    qed
  qed
qed

lemma undisturbed_step:
  assumes "net_ok s" "join_step aw u (s, js) (s', js')"
  obtains (moved) "undisturbed u s s'" "js' = js"
  | (delivered) "delivery_step s s'" "js' = js"
  | (resumed) n nonce1 nonce2 n' sent where "net_nodes s u = Some n" "awake (\<lambda>_. False) n js"
      "nonce1 \<noteq> nonce2" "join_resume aw (\<lambda>_. False) (nonce1, nonce2) n js = (n', js', sent)"
      "s' = s\<lparr>net_nodes := (net_nodes s)(u \<mapsto> n'), in_flight := in_flight s @ map (Pair u) sent\<rparr>"
  using assms(2)
proof (cases rule: join_step.cases)
  case (other_asks i n rq n' ch dest ev)
  have ok: "node_ok n" "core_id (node_core n) = i" using assms(1) other_asks by (auto simp: net_ok_def)
  have "net_step False s s'" using other_asks by (auto intro: net_step.ask)
  note keeps = net_step_keeps [OF assms(1) this]
  have "read_packet u (i, dest, ev)"
    using other_asks ok(2) by (cases rq) (auto simp: get_max_level_begin_def
        send_search_by_id_req_begin_def get_neighbor_begin_def split: prod.splits)
  then show ?thesis
    using other_asks keeps begin_request_keeps [OF ok(1), of rq n' ch dest ev]
    by (intro moved) (auto simp: undisturbed_def own_packets_def slot_in_eq fun_eq_iff)
next
  case (other_ends i n nonce ch)
  have "net_step False s s'" using other_ends by (auto intro: net_step.finish)
  note keeps = net_step_keeps [OF assms(1) this]
  show ?thesis
    using other_ends keeps
    by (intro moved) (auto simp: undisturbed_def own_packets_def slot_in_eq fun_eq_iff unpark_def)
next
  case (read_lost p)
  have "net_step False s s'" using read_lost by (auto intro: net_step.lose)
  note keeps = net_step_keeps [OF assms(1) this]
  show ?thesis
    using read_lost keeps
    by (intro moved) (auto simp: undisturbed_def own_packets_def filter_remove1_mset fun_eq_iff)
next
  case (read_forged p)
  have "net_step False s s'" using read_forged by (auto intro: net_step.forge)
  note keeps = net_step_keeps [OF assms(1) this]
  show ?thesis
    using read_forged keeps
    by (intro moved) (auto simp: undisturbed_def own_packets_def fun_eq_iff)
qed (use delivered resumed in blast)+

section \<open>The search of the join\<close>

text \<open>
  The scene: the members \<open>S\<close> are linked, \<open>u\<close> is about to join, and the search runs in direction \<open>d\<close>.
\<close>

definition scene :: "Net \<Rightarrow> Identifier set \<Rightarrow> Identifier \<Rightarrow> bool" where
  "scene s S u \<longleftrightarrow> net_ok s \<and> graph_linked (hub_of s) S \<and> joining (hub_of s) S u"

definition since :: "Net \<Rightarrow> Net \<Rightarrow> bool" where
  "since s0 s \<longleftrightarrow> net_ok s \<and> net_evolves s0 s"

lemma since_node:
  assumes "since s0 s" "net_nodes s0 i \<noteq> None"
  obtains n where "net_nodes s i = Some n" "core_id (node_core n) = i" "node_ok n"
    "identity_at (hub_of s0) i = Some (self_identity n)"
proof -
  obtain m where m: "net_nodes s0 i = Some m" using assms(2) by blast
  then obtain n where "net_nodes s i = Some n" "same_node m n"
    using assms(1) net_evolves_nodeE unfolding since_def by blast
  then show thesis
    using that assms(1) m same_node_self_identity
    by (fastforce simp: since_def net_ok_def identity_at_def)
qed

lemma scene_nodes:
  assumes "scene s S u" "i \<in> insert u S"
  shows "net_nodes s i \<noteq> None"
  using assms graph_node [of "hub_of s" S i] by (auto simp: scene_def joining_def)

lemma net_evolves_trans: "net_evolves a b \<Longrightarrow> net_evolves b c \<Longrightarrow> net_evolves a c"
proof -
  have "rel_option same_node x y \<Longrightarrow> rel_option same_node y z \<Longrightarrow> rel_option same_node x z"
    for x y z
    by (cases x; cases y; cases z) (auto elim: same_node_trans)
  then show "net_evolves a b \<Longrightarrow> net_evolves b c \<Longrightarrow> net_evolves a c"
    unfolding net_evolves_def by blast
qed

lemma graph_linked_same_slots:
  assumes "since s0 s" "slot_in s = slot_in s0"
  shows "graph_linked (hub_of s) S = graph_linked (hub_of s0) S"
proof -
  have "(net_nodes s i = None) = (net_nodes s0 i = None)" for i
    using assms(1) unfolding since_def net_evolves_def by (metis rel_option_None1 rel_option_None2)
  then show ?thesis by (simp add: graph_linked_sides side_linked_def assms(2))
qed

definition search_for :: "Identifier \<Rightarrow> Direction \<Rightarrow> Nonce \<Rightarrow> IdSearchReq \<Rightarrow> bool" where
  "search_for u d nonce req \<longleftrightarrow>
     sreq_nonce req = nonce \<and> sreq_target req = u \<and> sreq_origin req = u \<and>
     sreq_direction req = d \<and> sreq_level req < LOOKUP_TABLE_LEVELS"

text \<open>
  One awaited request of the join: it is under way (\<open>Q\<close>), answered (\<open>R\<close>), or its reply is in the
  channel (\<open>G\<close>), and no slot has changed since the start.
\<close>

definition await_stage ::
  "(chan \<Rightarrow> Waiter) \<Rightarrow> Nonce \<Rightarrow> chan \<Rightarrow> (Packet \<Rightarrow> bool) \<Rightarrow> (Packet \<Rightarrow> bool) \<Rightarrow> (Reply \<Rightarrow> bool)
   \<Rightarrow> Packet multiset \<Rightarrow> Requests \<Rightarrow> bool" where
  "await_stage mk nonce ch Q R G own r \<longleftrightarrow>
     pending mk nonce ch r \<and> (\<exists>p. own = {#p#} \<and> (Q p \<or> R p)) \<or>
     own = {#} \<and> (\<exists>reply. oneshots r ch = [TxSend reply] \<and> G reply)"

definition awaiting ::
  "Net \<Rightarrow> Identifier \<Rightarrow> (Packet multiset \<Rightarrow> Requests \<Rightarrow> bool) \<Rightarrow> Net \<Rightarrow> bool" where
  "awaiting s0 u stage s \<longleftrightarrow>
     slot_in s = slot_in s0 \<and>
     (\<exists>n. net_nodes s u = Some n \<and> stage (own_packets u s) (node_requests n))"

lemma undisturbed_requests:
  assumes "undisturbed u s s'" "net_nodes s u = Some n"
  obtains n' where "net_nodes s' u = Some n'" "node_requests n' = node_requests n"
  using assms unfolding undisturbed_def by (cases "net_nodes s' u") auto

lemma awaiting_undisturbed:
  assumes "awaiting s0 u stage s" "undisturbed u s s'"
  shows "awaiting s0 u stage s'"
proof -
  obtain n where n: "net_nodes s u = Some n" "stage (own_packets u s) (node_requests n)"
    using assms(1) by (auto simp: awaiting_def)
  obtain n' where n': "net_nodes s' u = Some n'" "node_requests n' = node_requests n"
    by (rule undisturbed_requests [OF assms(2) n(1)])
  have "slot_in s' = slot_in s0" "own_packets u s' = own_packets u s"
    using assms by (simp_all add: awaiting_def undisturbed_def)
  with n n' show ?thesis by (simp add: awaiting_def)
qed

lemma awaiting_delivery:
  assumes "scene s0 S u" "since s0 s" "awaiting s0 u (await_stage mk nonce ch Q R G) s"
    and "delivery_step s s'"
    and dest: "\<And>origin j ev. Q (origin, j, ev) \<Longrightarrow> j \<in> S" "\<And>origin j ev. R (origin, j, ev) \<Longrightarrow> j = u"
    and request: "\<And>origin j ev m. Q (origin, j, ev) \<Longrightarrow> slot_in s = slot_in s0 \<Longrightarrow>
      net_nodes s j = Some m \<Longrightarrow>
      fst (process_incoming_event m origin ev) = m \<and>
      (\<exists>p. outgoing j (snd (process_incoming_event m origin ev)) = [p] \<and> \<not> read_packet u p \<and>
        (Q p \<or> R p))"
    and response: "\<And>origin j ev n. R (origin, j, ev) \<Longrightarrow> pending mk nonce ch (node_requests n) \<Longrightarrow>
      node_core (fst (process_incoming_event n origin ev)) = node_core n \<and>
      outgoing j (snd (process_incoming_event n origin ev)) = [] \<and>
      (\<exists>reply. oneshots (node_requests (fst (process_incoming_event n origin ev))) ch =
         [TxSend reply] \<and> G reply)"
  shows "awaiting s0 u (await_stage mk nonce ch Q R G) s'"
proof -
  have ok: "net_ok s" using assms(2) by (simp add: since_def)
  have slots: "slot_in s = slot_in s0" using assms(3) by (simp add: awaiting_def)
  obtain n where n: "net_nodes s u = Some n"
    "await_stage mk nonce ch Q R G (own_packets u s) (node_requests n)"
    using assms(3) by (auto simp: awaiting_def)
  have u: "u \<notin> S" using assms(1) by (simp add: scene_def joining_def)
  from ok assms(4) show ?thesis
  proof (cases rule: delivery_undisturbed [where u = u])
    case read
    then show ?thesis by (rule awaiting_undisturbed [OF assms(3)])
  next
    case (own origin i ev m)
    then have st: "pending mk nonce ch (node_requests n)" "own_packets u s = {#(origin, i, ev)#}"
      "Q (origin, i, ev) \<or> R (origin, i, ev)"
      using n(2) by (auto simp: await_stage_def)
    let ?m' = "fst (process_incoming_event m origin ev)"
    have nodes: "net_nodes s' = (net_nodes s)(i \<mapsto> ?m')"
      using own(3) by (auto simp: deliver_to_def split: prod.splits)
    from st(3) show ?thesis
    proof
      assume Q: "Q (origin, i, ev)"
      note h = request [OF Q slots own(2)]
      then have same: "net_nodes s' = net_nodes s" using nodes own(2) by auto
      then have "slot_in s' = slot_in s" by (simp add: slot_in_eq fun_eq_iff)
      moreover have "await_stage mk nonce ch Q R G (own_packets u s') (node_requests n)"
        using h own(4) st(1,2) by (auto simp: await_stage_def)
      ultimately show ?thesis using same n(1) slots by (auto simp: awaiting_def)
    next
      assume R: "R (origin, i, ev)"
      then have i: "i = u" by (rule dest(2))
      then have m: "m = n" using own(2) n(1) by simp
      note h = response [OF R st(1)]
      have "slot_in s' = slot_in s"
        using h nodes i m n(1) by (simp add: slot_in_eq fun_eq_iff)
      moreover have "await_stage mk nonce ch Q R G (own_packets u s') (node_requests ?m')"
        using h own(4) st(2) m by (auto simp: await_stage_def)
      ultimately show ?thesis using nodes i slots by (auto simp: awaiting_def)
    qed
  next
    case (lost origin i ev)
    then have "i \<in> insert u S" using n(2) dest by (auto simp: await_stage_def)
    then show ?thesis
      using lost(2) since_node [OF assms(2) scene_nodes [OF assms(1)]] by (metis option.distinct(1))
  qed
qed

subsection \<open>The search\<close>

fun search_request :: "Identifier set \<Rightarrow> Identifier \<Rightarrow> Direction \<Rightarrow> Nonce \<Rightarrow> Packet \<Rightarrow> bool" where
  "search_request S u d nonce (origin, j, SearchByIdRequest req) =
     (search_for u d nonce req \<and> j \<in> S \<and> \<not> beyond d u j)"
| "search_request S u d nonce _ = False"

fun search_response :: "Identifier set \<Rightarrow> Identifier \<Rightarrow> Direction \<Rightarrow> Nonce \<Rightarrow> Packet \<Rightarrow> bool" where
  "search_response S u d nonce (origin, j, SearchByIdResponse res) =
     (j = u \<and> sres_nonce res = nonce \<and> closest_member S d u (sres_result res))"
| "search_response S u d nonce _ = False"

fun search_reply :: "Identifier set \<Rightarrow> Identifier \<Rightarrow> Direction \<Rightarrow> Reply \<Rightarrow> bool" where
  "search_reply S u d (ReplySearch res) = closest_member S d u (sres_result res)"
| "search_reply S u d _ = False"

abbreviation search_stage ::
  "Identifier set \<Rightarrow> Identifier \<Rightarrow> Direction \<Rightarrow> Nonce \<Rightarrow> chan \<Rightarrow> Packet multiset \<Rightarrow> Requests \<Rightarrow> bool" where
  "search_stage S u d nonce ch \<equiv> await_stage AsyncSearch nonce ch (search_request S u d nonce)
     (search_response S u d nonce) (search_reply S u d)"

lemma search_hop_on:
  assumes "scene s0 S u" "since s0 s" "slot_in s = slot_in s0"
    and "search_request S u d nonce (origin, j, ev)" "net_nodes s j = Some m"
  shows "fst (process_incoming_event m origin ev) = m \<and>
    (\<exists>p. outgoing j (snd (process_incoming_event m origin ev)) = [p] \<and> \<not> read_packet u p \<and>
       (search_request S u d nonce p \<or> search_response S u d nonce p))"
proof -
  obtain req where ev: "ev = SearchByIdRequest req" and req: "search_for u d nonce req" "j \<in> S"
    "\<not> beyond d u j" using assms(4) by (cases ev) auto
  have ok: "hub_ok (hub_of s)" and g: "graph_linked (hub_of s) S"
    using assms(1-3) graph_linked_same_slots [OF assms(2,3)] by (auto simp: scene_def since_def)
  have m: "core_id (node_core m) = j" "wf_table (core_lt (node_core m))"
    using hub_okD(1,5) [OF ok, of j m] assms(5) by simp_all
  note goal = req(1) [unfolded search_for_def]
  have l: "sreq_level req < LOOKUP_TABLE_LEVELS" using goal by blast
  note el = eligible_iff_ahead [OF ok g req(2), of m d "sreq_level req" u]
  from m(2) l show ?thesis
  proof (cases rule: core_search_by_id_cases)
    case (found i k)
    then have e: "eligible (node_core m) d (sreq_level req) u i k"
      using goal by (simp add: closest_eligible_def)
    then have i: "i \<in> ahead S d u j" using el(2) assms(5) by simp
    then have "i \<noteq> j" by (auto simp: ahead_def)
    then show ?thesis
      using found(2) m(1) goal i e ev
      by (auto simp: handle_search_by_id_request_def outgoing_def search_for_def ahead_def
          eligible_def)
  next
    case fallback
    then have "ahead S d u j = {}" using el(1) assms(5) goal by auto
    then have "closest_member S d u j" using ahead_empty_closest [OF req(2,3)] by simp
    then show ?thesis
      using fallback(2) m(1) goal ev by (auto simp: handle_search_by_id_request_def outgoing_def)
  qed
qed

lemma search_answered:
  assumes "search_response S u d nonce (origin, j, ev)" "pending AsyncSearch nonce ch (node_requests n)"
  shows "node_core (fst (process_incoming_event n origin ev)) = node_core n \<and>
    outgoing j (snd (process_incoming_event n origin ev)) = [] \<and>
    (\<exists>reply. oneshots (node_requests (fst (process_incoming_event n origin ev))) ch =
       [TxSend reply] \<and> search_reply S u d reply)"
proof -
  obtain res where "ev = SearchByIdResponse res" "sres_nonce res = nonce"
    "closest_member S d u (sres_result res)" using assms(1) by (cases ev) auto
  then show ?thesis
    using search_kind.answered_log [OF assms(2), of "ReplySearch res"]
    by (auto simp: handle_search_by_id_response_def outgoing_def)
qed

lemma searching_delivery:
  assumes "scene s0 S u" "since s0 s" "awaiting s0 u (search_stage S u d nonce ch) s"
    and "delivery_step s s'"
  shows "awaiting s0 u (search_stage S u d nonce ch) s'"
proof (rule awaiting_delivery [OF assms])
  show "j \<in> S" if "search_request S u d nonce (origin, j, ev)" for origin j ev
    using that by (cases ev) auto
  show "j = u" if "search_response S u d nonce (origin, j, ev)" for origin j ev
    using that by (cases ev) auto
qed (use search_hop_on [OF assms(1,2)] search_answered in blast)+

subsection \<open>The query\<close>

fun query_request :: "Identifier \<Rightarrow> Direction \<Rightarrow> Identifier \<Rightarrow> Nonce \<Rightarrow> Packet \<Rightarrow> bool" where
  "query_request u d x nonce (origin, j, GetNeighborOp req) =
     (j = x \<and> req = \<lparr>nreq_nonce = nonce, nreq_origin = u, nreq_level = 0, nreq_direction = d\<rparr>)"
| "query_request u d x nonce _ = False"

fun query_response :: "Identifier \<Rightarrow> Identity option \<Rightarrow> Nonce \<Rightarrow> Packet \<Rightarrow> bool" where
  "query_response u z nonce (origin, j, RetNeighborOp res) =
     (j = u \<and> nres_nonce res = nonce \<and> nres_neighbor res = z)"
| "query_response u z nonce _ = False"

fun query_reply :: "Identity option \<Rightarrow> Reply \<Rightarrow> bool" where
  "query_reply z (ReplyNeighbor res) = (nres_neighbor res = z)"
| "query_reply z _ = False"

abbreviation query_stage ::
  "Identifier \<Rightarrow> Direction \<Rightarrow> Identifier \<Rightarrow> Identity option \<Rightarrow> Nonce \<Rightarrow> chan \<Rightarrow> Packet multiset
   \<Rightarrow> Requests \<Rightarrow> bool" where
  "query_stage u d x z nonce ch \<equiv> await_stage Neighbor nonce ch (query_request u d x nonce)
     (query_response u z nonce) (query_reply z)"

lemma query_hop_on:
  assumes "net_ok s" "slot_in s x 0 d = z"
    and "query_request u d x nonce (origin, j, ev)" "net_nodes s j = Some m"
  shows "fst (process_incoming_event m origin ev) = m \<and>
    (\<exists>p. outgoing j (snd (process_incoming_event m origin ev)) = [p] \<and> \<not> read_packet u p \<and>
       (query_request u d x nonce p \<or> query_response u z nonce p))"
proof -
  have ev: "ev = GetNeighborOp \<lparr>nreq_nonce = nonce, nreq_origin = u, nreq_level = 0,
      nreq_direction = d\<rparr>" "j = x"
    using assms(3) by (cases ev; simp)+
  have "wf_table (core_lt (node_core m))"
    using assms(1,4) by (auto simp: net_ok_def node_ok_def ordered_core_def)
  then show ?thesis
    using assms(2,4) ev
    by (auto simp: handle_get_neighbor_request_def core_neighbor_entry_def arr.get_entry_law
        size_defs outgoing_def slot_in_eq)
qed

lemma query_answered:
  assumes "query_response u z nonce (origin, j, ev)" "pending Neighbor nonce ch (node_requests n)"
  shows "node_core (fst (process_incoming_event n origin ev)) = node_core n \<and>
    outgoing j (snd (process_incoming_event n origin ev)) = [] \<and>
    (\<exists>reply. oneshots (node_requests (fst (process_incoming_event n origin ev))) ch =
       [TxSend reply] \<and> query_reply z reply)"
proof -
  obtain res where "ev = RetNeighborOp res" "nres_nonce res = nonce" "nres_neighbor res = z"
    using assms(1) by (cases ev) auto
  then show ?thesis
    using neighbor_kind.answered_log [OF assms(2), of "ReplyNeighbor res"]
    by (auto simp: handle_ret_neighbor_response_def outgoing_def)
qed

lemma querying_delivery:
  assumes "scene s0 S u" "since s0 s" "awaiting s0 u (query_stage u d x z nonce ch) s"
    and "delivery_step s s'" "x \<in> S" "slot_in s0 x 0 d = z"
  shows "awaiting s0 u (query_stage u d x z nonce ch) s'"
proof (rule awaiting_delivery [OF assms(1-4)])
  show "j \<in> S" if "query_request u d x nonce (origin, j, ev)" for origin j ev
    using that assms(5) by (cases ev) auto
  show "j = u" if "query_response u z nonce (origin, j, ev)" for origin j ev
    using that by (cases ev) auto
  show "fst (process_incoming_event m origin ev) = m \<and>
      (\<exists>p. outgoing j (snd (process_incoming_event m origin ev)) = [p] \<and> \<not> read_packet u p \<and>
         (query_request u d x nonce p \<or> query_response u z nonce p))"
    if "query_request u d x nonce (origin, j, ev)" "slot_in s = slot_in s0" "net_nodes s j = Some m"
    for origin j ev m
    using query_hop_on [OF _ _ that(1,3)] that(2) assms(2,6) by (simp add: since_def)
qed (use query_answered in blast)

end
