(* ===== verification/Async_Links.thy ===== *)
theory Async_Links
  imports Async_Join
begin

text \<open>
  The last await of the asynchronous join: its one or two link requests, in any interleaving, and
  the theorem on the whole join.
\<close>

section \<open>One link request of the join\<close>

text \<open>
  A link request has been sent, has been accepted and confirmed by the peer, or has been applied
  to the joining node's own table.
\<close>

datatype stage = Asked | Confirmed | Applied

record LinkBranch =
  b_dir :: Direction
  b_peer :: Identity
  b_nonce :: Nonce
  b_chan :: chan
  b_stage :: stage
  b_wait :: LinkWait

definition branch_packets :: "Identity \<Rightarrow> LinkBranch \<Rightarrow> Packet list" where
  "branch_packets e b =
     (case b_stage b of
        Asked \<Rightarrow> [(ident_id e, ident_id (b_peer b), GetLinkOp \<lparr>lreq_nonce = b_nonce b,
                   lreq_candidate = e, lreq_dir = b_dir b, lreq_level = 0\<rparr>)]
      | Confirmed \<Rightarrow> [(ident_id (b_peer b), ident_id e, SetLinkOp \<lparr>lres_nonce = b_nonce b,
                       lres_dir = opposite (b_dir b), lres_level = 0, lres_linked = Some (b_peer b)\<rparr>)]
      | Applied \<Rightarrow> [])"

definition branch_slots :: "Net \<Rightarrow> Net \<Rightarrow> Identity \<Rightarrow> LinkBranch \<Rightarrow> bool" where
  "branch_slots s0 s e b \<longleftrightarrow>
     slot_in s (ident_id (b_peer b)) 0 (b_dir b) =
       (if b_stage b = Asked then slot_in s0 (ident_id (b_peer b)) 0 (b_dir b) else Some e) \<and>
     slot_in s (ident_id e) 0 (opposite (b_dir b)) =
       (if b_stage b = Applied then Some (b_peer b) else None)"

definition branch_wait :: "Requests \<Rightarrow> LinkBranch \<Rightarrow> bool" where
  "branch_wait r b \<longleftrightarrow>
     (case b_wait b of
        Waiting nonce ch \<Rightarrow> nonce = b_nonce b \<and> ch = b_chan b \<and>
          (if b_stage b = Applied
           then request_id_map r nonce = None \<and> (\<exists>res. oneshots r ch = [TxSend (ReplyLink res)])
           else pending (\<lambda>ch. Link ch 0 (opposite (b_dir b))) nonce ch r)
      | Over res \<Rightarrow> res = Ok () \<and> b_stage b = Applied)"

text \<open>The peer is the member closest to the joining node on its side.\<close>

definition branch_peer :: "Net \<Rightarrow> Identifier set \<Rightarrow> Identity \<Rightarrow> LinkBranch \<Rightarrow> bool" where
  "branch_peer s0 S e b \<longleftrightarrow>
     closest_member S (b_dir b) (ident_id e) (ident_id (b_peer b)) \<and>
     identity_at (hub_of s0) (ident_id (b_peer b)) = Some (b_peer b)"

definition linking ::
  "Net \<Rightarrow> Identifier set \<Rightarrow> Identity \<Rightarrow> LinkBranch list \<Rightarrow> Net \<Rightarrow> bool" where
  "linking s0 S e bs s \<longleftrightarrow>
     distinct (map b_dir bs) \<and> distinct (map b_nonce bs) \<and> distinct (map b_chan bs) \<and>
     own_packets (ident_id e) s = mset (concat (map (branch_packets e) bs)) \<and>
     (\<forall>b \<in> set bs. branch_peer s0 S e b \<and> branch_slots s0 s e b) \<and>
     (\<exists>n. net_nodes s (ident_id e) = Some n \<and> self_identity n = e \<and>
        (\<forall>b \<in> set bs. branch_wait (node_requests n) b)) \<and>
     (\<forall>i l d. (\<forall>b \<in> set bs. \<not> (l = 0 \<and> i = ident_id (b_peer b) \<and> d = b_dir b) \<and>
          \<not> (l = 0 \<and> i = ident_id e \<and> d = opposite (b_dir b))) \<longrightarrow>
        slot_in s i l d = slot_in s0 i l d) \<and>
     (\<forall>d. (\<exists>b \<in> set bs. b_dir b = d) \<or> (\<forall>y \<in> S. \<not> beyond (opposite d) (ident_id e) y))"

lemma linkingD:
  assumes "linking s0 S e bs s"
  shows "distinct (map b_dir bs)" "distinct (map b_nonce bs)" "distinct (map b_chan bs)"
    "own_packets (ident_id e) s = mset (concat (map (branch_packets e) bs))"
    "b \<in> set bs \<Longrightarrow> branch_peer s0 S e b" "b \<in> set bs \<Longrightarrow> branch_slots s0 s e b"
    "net_nodes s (ident_id e) = Some n \<Longrightarrow> b \<in> set bs \<Longrightarrow> branch_wait (node_requests n) b"
    "(\<And>b. b \<in> set bs \<Longrightarrow> \<not> (l = 0 \<and> i = ident_id (b_peer b) \<and> d = b_dir b) \<and>
        \<not> (l = 0 \<and> i = ident_id e \<and> d = opposite (b_dir b))) \<Longrightarrow>
      slot_in s i l d = slot_in s0 i l d"
    "(\<exists>b \<in> set bs. b_dir b = d) \<or> (\<forall>y \<in> S. \<not> beyond (opposite d) (ident_id e) y)"
  using assms unfolding linking_def by auto

lemma linking_node:
  assumes "linking s0 S e bs s"
  obtains n where "net_nodes s (ident_id e) = Some n" "self_identity n = e"
    "\<And>b. b \<in> set bs \<Longrightarrow> branch_wait (node_requests n) b"
  using assms unfolding linking_def by blast

lemma linking_undisturbed:
  assumes "linking s0 S e bs s" "undisturbed (ident_id e) s s'"
  shows "linking s0 S e bs s'"
proof -
  obtain n where n: "net_nodes s (ident_id e) = Some n" "self_identity n = e"
    "\<forall>b \<in> set bs. branch_wait (node_requests n) b"
    using assms(1) by (auto simp: linking_def)
  obtain n' where n': "net_nodes s' (ident_id e) = Some n'" "node_requests n' = node_requests n"
    by (rule undisturbed_requests [OF assms(2) n(1)])
  have ev: "net_evolves s s'" and sl: "slot_in s' = slot_in s"
    and own: "own_packets (ident_id e) s' = own_packets (ident_id e) s"
    using assms(2) by (simp_all add: undisturbed_def)
  have "self_identity n' = e"
    using net_evolves_nodeE [OF ev n(1)] n(2) n'(1) same_node_self_identity
    by (metis option.inject)
  then show ?thesis
    using assms(1) n n' by (simp add: linking_def branch_slots_def sl own)
qed

lemma distinct_map_other:
  assumes "distinct (map f (xs @ b # ys))" "c \<in> set (xs @ ys)"
  shows "f c \<noteq> f b"
proof -
  have "f b \<notin> set (map f (xs @ ys))" using assms(1) by simp
  then show ?thesis using assms(2) by (metis image_eqI list.set_map)
qed

text \<open>Changing one branch and what belongs to it.\<close>

lemma linking_change:
  assumes "linking s0 S e (xs @ b # ys) s" "net_nodes s' (ident_id e) = Some n'" "self_identity n' = e"
    and "b_dir b' = b_dir b" "b_nonce b' = b_nonce b" "b_chan b' = b_chan b" "b_peer b' = b_peer b"
    and "own_packets (ident_id e) s' =
      own_packets (ident_id e) s - mset (branch_packets e b) + mset (branch_packets e b')"
    and "branch_slots s0 s' e b'" "branch_wait (node_requests n') b'"
    and "\<And>c. c \<in> set (xs @ ys) \<Longrightarrow> branch_wait (node_requests n') c"
    and slots: "\<And>i l d. \<not> (l = 0 \<and> i = ident_id (b_peer b) \<and> d = b_dir b) \<Longrightarrow>
      \<not> (l = 0 \<and> i = ident_id e \<and> d = opposite (b_dir b)) \<Longrightarrow> slot_in s' i l d = slot_in s i l d"
    and u: "ident_id e \<notin> S"
  shows "linking s0 S e (xs @ b' # ys) s'"
proof -
  note l = linkingD [OF assms(1)]
  have dirs: "b_dir c \<noteq> b_dir b" if "c \<in> set (xs @ ys)" for c
    by (rule distinct_map_other [OF l(1) that])
  have peers: "ident_id (b_peer c) \<noteq> ident_id e" if "c \<in> set (xs @ b # ys)" for c
    using l(5) [OF that] u by (auto simp: branch_peer_def closest_member_def)
  have "branch_slots s0 s' e c" if c: "c \<in> set (xs @ ys)" for c
  proof -
    have "slot_in s' (ident_id (b_peer c)) 0 (b_dir c) = slot_in s (ident_id (b_peer c)) 0 (b_dir c)"
      by (rule slots) (use peers [of c] dirs [OF c] c in auto)
    moreover have "slot_in s' (ident_id e) 0 (opposite (b_dir c)) =
        slot_in s (ident_id e) 0 (opposite (b_dir c))"
      by (rule slots) (use peers [of b] dirs [OF c] in \<open>auto dest: arg_cong [of _ _ opposite]\<close>)
    ultimately show ?thesis using l(6) [of c] c by (simp add: branch_slots_def)
  qed
  then have "\<forall>c \<in> set (xs @ b' # ys). branch_peer s0 S e c \<and> branch_slots s0 s' e c"
    using l(5) assms(4,7,9) by (auto simp: branch_peer_def)
  moreover have "own_packets (ident_id e) s' = mset (concat (map (branch_packets e) (xs @ b' # ys)))"
    using l(4) assms(8) by simp
  moreover have "slot_in s' i l d = slot_in s0 i l d"
    if "\<forall>c \<in> set (xs @ b' # ys). \<not> (l = 0 \<and> i = ident_id (b_peer c) \<and> d = b_dir c) \<and>
      \<not> (l = 0 \<and> i = ident_id e \<and> d = opposite (b_dir c))" for i l d
    using that l(8) [of l i d] slots [of l i d] assms(4,7) by auto
  moreover have "(\<exists>c \<in> set (xs @ b' # ys). b_dir c = d) \<or>
      (\<forall>y \<in> S. \<not> beyond (opposite d) (ident_id e) y)" for d
    using l(9) [of d] assms(4) by auto
  ultimately show ?thesis
    unfolding linking_def using l(1-3) assms(2-7,10,11) by auto
qed

section \<open>Deliveries while linking\<close>

lemma peer_side:
  assumes "branch_peer s0 S e b" "ident_id e \<notin> S"
  shows "ident_id (b_peer b) \<in> S" "beyond (b_dir b) (ident_id (b_peer b)) (ident_id e)"
  using assms by (auto simp: branch_peer_def closest_member_def not_beyond)

text \<open>Between the peer and the joining node there is nobody.\<close>

lemma peer_next:
  assumes "scene s0 S (ident_id e)" "branch_peer s0 S e b"
  shows "\<not> (\<exists>y. slot_in s0 (ident_id (b_peer b)) 0 (b_dir b) = Some y \<and>
    beyond (b_dir b) (ident_id y) (ident_id e))"
proof
  let ?x = "ident_id (b_peer b)" and ?d = "b_dir b"
  assume "\<exists>y. slot_in s0 ?x 0 ?d = Some y \<and> beyond ?d (ident_id y) (ident_id e)"
  then obtain y where y: "slot_in s0 ?x 0 ?d = Some y" "beyond ?d (ident_id y) (ident_id e)" by blast
  have c: "closest_member S ?d (ident_id e) ?x" using assms(2) by (simp add: branch_peer_def)
  then have "list_slot S ?d ?x (slot_in s0 ?x 0 ?d)"
    using assms(1) by (simp add: scene_def graph_linked_sides side_linked_def closest_member_def)
  then have "ident_id y \<in> S" "beyond ?d ?x (ident_id y)"
    using y(1) by (simp_all add: list_slot_def nearest_def)
  then show False using c beyond_asym [OF y(2)] unfolding closest_member_def by blast
qed

lemma peer_accepts:
  assumes "scene s0 S (ident_id e)" "branch_peer s0 S e b" "node_ok m"
    and "core_id (node_core m) = ident_id (b_peer b)" "self_identity m = b_peer b"
    and "slot (core_lt (node_core m)) 0 (b_dir b) = slot_in s0 (ident_id (b_peer b)) 0 (b_dir b)"
    and "b_stage b = Asked" "b' = b\<lparr>b_stage := Confirmed\<rparr>"
    and "(origin, i, ev) \<in> set (branch_packets e b)"
  shows "fst (process_incoming_event m origin ev) = linked_node m (b_dir b) e \<and>
    outgoing i (snd (process_incoming_event m origin ev)) = branch_packets e b'"
proof -
  let ?req = "\<lparr>lreq_nonce = b_nonce b, lreq_candidate = e, lreq_dir = b_dir b, lreq_level = 0\<rparr>"
  have ev: "ev = GetLinkOp ?req" "i = ident_id (b_peer b)"
    using assms(7,9) by (simp_all add: branch_packets_def)
  have u: "ident_id e \<notin> S" using assms(1) by (simp add: scene_def joining_def)
  have o: "ordered_core (node_core m)" using assms(3) by (simp add: node_ok_def)
  then show ?thesis
  proof (cases rule: handle_get_link_request_cases [where req = ?req])
    case rejected
    then show ?thesis using peer_side(2) [OF assms(2) u] assms(4) by (simp add: belongs_level0)
  next
    case linked
    then show ?thesis
      using ev assms(5,7,8) by (simp add: linked_node_def outgoing_def branch_packets_def)
  next
    case (forwarded y)
    then show ?thesis using peer_next [OF assms(1,2)] assms(6) by auto
  qed
qed

text \<open>The state of the waiters after a confirmation has been handled.\<close>

lemma link_resolved:
  assumes "pending (\<lambda>ch. Link ch 0 d) nonce ch r"
  shows "resolve nonce (is_link_at 0 d) reply r =
    r\<lparr>request_id_map := (request_id_map r)(nonce := None),
      oneshots := (oneshots r)(ch := [TxSend reply])\<rparr>"
  using assms by (simp add: pending_def resolve_def take_waiter_def tx_send_def)

lemma branch_wait_frame:
  assumes "branch_wait r c" "request_id_map r' (b_nonce c) = request_id_map r (b_nonce c)"
    "oneshots r' (b_chan c) = oneshots r (b_chan c)"
  shows "branch_wait r' c"
  using assms by (auto simp: branch_wait_def pending_def split: LinkWait.splits if_splits)

lemma confirmation_applied:
  assumes "branch_peer s0 S e b" "ident_id e \<notin> S" "node_ok n"
    and "core_id (node_core n) = ident_id e" "branch_wait (node_requests n) b"
    and "b_stage b = Confirmed" "b' = b\<lparr>b_stage := Applied\<rparr>"
    and "(origin, i, ev) \<in> set (branch_packets e b)"
  shows "\<exists>res. process_incoming_event n origin ev =
    ((linked_node n (opposite (b_dir b)) (b_peer b))\<lparr>node_requests := (node_requests n)\<lparr>
        request_id_map := (request_id_map (node_requests n))(b_nonce b := None),
        oneshots := (oneshots (node_requests n))(b_chan b := [TxSend (ReplyLink res)])\<rparr>\<rparr>,
     Done (Ok ())) \<and>
    branch_wait ((node_requests n)\<lparr>
        request_id_map := (request_id_map (node_requests n))(b_nonce b := None),
        oneshots := (oneshots (node_requests n))(b_chan b := [TxSend (ReplyLink res)])\<rparr>) b'"
proof -
  let ?res = "\<lparr>lres_nonce = b_nonce b, lres_dir = opposite (b_dir b), lres_level = 0,
    lres_linked = Some (b_peer b)\<rparr>"
  have ev: "ev = SetLinkOp ?res" using assms(6,8) by (simp add: branch_packets_def)
  have o: "ordered_core (node_core n)" using assms(3) by (simp add: node_ok_def)
  have side: "beyond (opposite (b_dir b)) (core_id (node_core n)) (ident_id (b_peer b))"
    using peer_side(2) [OF assms(1,2)] assms(4) by (simp add: beyond_opposite)
  have w: "b_wait b = Waiting (b_nonce b) (b_chan b)"
    "pending (\<lambda>ch. Link ch 0 (opposite (b_dir b))) (b_nonce b) (b_chan b) (node_requests n)"
    using assms(5,6) by (auto simp: branch_wait_def split: LinkWait.splits)
  have "process_incoming_event n origin ev =
      ((linked_node n (opposite (b_dir b)) (b_peer b))\<lparr>node_requests := (node_requests n)\<lparr>
        request_id_map := (request_id_map (node_requests n))(b_nonce b := None),
        oneshots := (oneshots (node_requests n))(b_chan b := [TxSend (ReplyLink ?res)])\<rparr>\<rparr>,
       Done (Ok ()))"
    using set_link_level0 [OF o, of ?res "b_peer b"] side link_resolved [OF w(2), of "ReplyLink ?res"]
    by (simp add: ev)
  then show ?thesis using w assms(7) by (auto simp: branch_wait_def)
qed

lemma linking_peer_node:
  assumes "scene s0 S (ident_id e)" "since s0 s" "branch_peer s0 S e b"
  obtains m where "net_nodes s (ident_id (b_peer b)) = Some m"
    "core_id (node_core m) = ident_id (b_peer b)" "node_ok m" "self_identity m = b_peer b"
proof -
  have u: "ident_id e \<notin> S" using assms(1) by (simp add: scene_def joining_def)
  have "net_nodes s0 (ident_id (b_peer b)) \<noteq> None"
    using scene_nodes [OF assms(1)] peer_side(1) [OF assms(3) u] by blast
  from since_node [OF assms(2) this] show thesis
    using that assms(3) by (metis branch_peer_def option.inject)
qed

lemma own_replaced:
  assumes "own = mset (concat (map f (xs @ b # ys)))" "f b = [p]"
    "own' = own - {#p#} + mset (filter P out)" "filter P out = f b'"
  shows "own' = own - mset (f b) + mset (f b')"
  using assms by simp

lemma branch_packets_own: "p \<in> set (branch_packets e b) \<Longrightarrow> \<not> read_packet (ident_id e) p"
  by (auto simp: branch_packets_def split: stage.splits)

text \<open>The peer handles the request: its slot takes the joining node, and it confirms.\<close>

lemma linking_asked:
  assumes "scene s0 S (ident_id e)" "since s0 s" "linking s0 S e (xs @ b # ys) s"
    and "b_stage b = Asked" "branch_packets e b = [(origin, i, ev)]" "net_nodes s i = Some m"
    and "net_nodes s' = (net_nodes s)(i \<mapsto> fst (process_incoming_event m origin ev))"
    and "own_packets (ident_id e) s' = own_packets (ident_id e) s - {#(origin, i, ev)#} +
      mset (filter (\<lambda>p. \<not> read_packet (ident_id e) p)
        (outgoing i (snd (process_incoming_event m origin ev))))"
  shows "linking s0 S e (xs @ b\<lparr>b_stage := Confirmed\<rparr> # ys) s'"
proof -
  let ?b' = "b\<lparr>b_stage := Confirmed\<rparr>"
  have u: "ident_id e \<notin> S" using assms(1) by (simp add: scene_def joining_def)
  have b: "b \<in> set (xs @ b # ys)" by simp
  note peer = linkingD(5) [OF assms(3) b] and sl = linkingD(6) [OF assms(3) b]
  obtain n where n: "net_nodes s (ident_id e) = Some n" "self_identity n = e"
    "\<And>c. c \<in> set (xs @ b # ys) \<Longrightarrow> branch_wait (node_requests n) c"
    using linking_node [OF assms(3)] by blast
  have i: "i = ident_id (b_peer b)" using assms(4,5) by (simp add: branch_packets_def)
  obtain m': "net_nodes s i = Some m" "core_id (node_core m) = ident_id (b_peer b)" "node_ok m"
    "self_identity m = b_peer b"
    using linking_peer_node [OF assms(1,2) peer] assms(6) i by (metis option.inject)
  have slot0: "slot (core_lt (node_core m)) 0 (b_dir b) =
      slot_in s0 (ident_id (b_peer b)) 0 (b_dir b)"
    using sl assms(4,6) i by (simp add: branch_slots_def slot_in_eq)
  have acc: "fst (process_incoming_event m origin ev) = linked_node m (b_dir b) e"
    "outgoing i (snd (process_incoming_event m origin ev)) = branch_packets e ?b'"
    using peer_accepts [OF assms(1) peer m'(3,2,4) slot0 assms(4) refl, of origin i ev] assms(5)
    by auto
  have wf: "wf_table (core_lt (node_core m))" using m'(3) by (simp add: node_ok_def ordered_core_def)
  have new: "slot (core_lt (node_core (linked_node m (b_dir b) e))) l dir =
      (if l = 0 \<and> dir = b_dir b then Some e else slot (core_lt (node_core m)) l dir)" for l dir
    by (rule slot_linked_node [OF wf])
      (use peer_next [OF assms(1) peer] slot0 in \<open>auto simp: strictly_between_def\<close>)
  have neq: "ident_id (b_peer b) \<noteq> ident_id e" using peer_side(1) [OF peer u] u by auto
  have slots: "slot_in s' j l dir =
      (if j = i \<and> l = 0 \<and> dir = b_dir b then Some e else slot_in s j l dir)" for j l dir
    using assms(6) by (simp add: slot_in_eq assms(7) acc(1) new)
  show ?thesis
  proof (rule linking_change [OF assms(3) _ n(2)])
    show "own_packets (ident_id e) s' = own_packets (ident_id e) s - mset (branch_packets e b) +
        mset (branch_packets e ?b')"
      using assms(8) branch_packets_own [of _ e ?b']
      by (simp add: acc(2) assms(5) filter_id_conv [THEN iffD2])
    show "branch_slots s0 s' e ?b'"
      using sl assms(4) neq i by (simp add: branch_slots_def slots)
    show "branch_wait (node_requests n) ?b'"
      using n(3) [OF b] assms(4) by (auto simp: branch_wait_def split: LinkWait.splits)
  qed (use assms(7) n i neq u in \<open>auto simp: slots\<close>)
qed

text \<open>The joining node handles the confirmation: its own slot is written, and the wait is over.\<close>

lemma linking_confirmed:
  assumes "scene s0 S (ident_id e)" "since s0 s" "linking s0 S e (xs @ b # ys) s"
    and "b_stage b = Confirmed" "branch_packets e b = [(origin, i, ev)]" "net_nodes s i = Some n"
    and "net_nodes s' = (net_nodes s)(i \<mapsto> fst (process_incoming_event n origin ev))"
    and "own_packets (ident_id e) s' = own_packets (ident_id e) s - {#(origin, i, ev)#} +
      mset (filter (\<lambda>p. \<not> read_packet (ident_id e) p)
        (outgoing i (snd (process_incoming_event n origin ev))))"
  shows "linking s0 S e (xs @ b\<lparr>b_stage := Applied\<rparr> # ys) s'"
proof -
  let ?b' = "b\<lparr>b_stage := Applied\<rparr>"
  have u: "ident_id e \<notin> S" using assms(1) by (simp add: scene_def joining_def)
  have b: "b \<in> set (xs @ b # ys)" by simp
  note peer = linkingD(5) [OF assms(3) b] and sl = linkingD(6) [OF assms(3) b]
  have i: "i = ident_id e" using assms(4,5) by (simp add: branch_packets_def)
  have n: "node_ok n" "core_id (node_core n) = ident_id e"
    using assms(2,6) i by (auto simp: since_def net_ok_def)
  have e: "self_identity n = e" and waits: "c \<in> set (xs @ b # ys) \<Longrightarrow> branch_wait (node_requests n) c"
    for c using linking_node [OF assms(3)] assms(6) i by (metis option.inject)+
  let ?r = "\<lambda>res. (node_requests n)\<lparr>
    request_id_map := (request_id_map (node_requests n))(b_nonce b := None),
    oneshots := (oneshots (node_requests n))(b_chan b := [TxSend (ReplyLink res)])\<rparr>"
  obtain res where res: "process_incoming_event n origin ev =
      ((linked_node n (opposite (b_dir b)) (b_peer b))\<lparr>node_requests := ?r res\<rparr>, Done (Ok ()))"
    and wait: "branch_wait (?r res) ?b'"
    using confirmation_applied [OF peer u n waits [OF b] assms(4) refl, of origin i ev] assms(5)
    by auto
  let ?n' = "(linked_node n (opposite (b_dir b)) (b_peer b))\<lparr>node_requests := ?r res\<rparr>"
  have empty: "slot (core_lt (node_core n)) 0 (opposite (b_dir b)) = None"
    using sl assms(4,6) i by (simp add: branch_slots_def slot_in_eq)
  have new: "slot (core_lt (node_core ?n')) l dir =
      (if l = 0 \<and> dir = opposite (b_dir b) then Some (b_peer b)
       else slot (core_lt (node_core n)) l dir)" for l dir
    using slot_linked_node [of n "opposite (b_dir b)" "b_peer b" l dir] empty n(1)
    by (simp add: node_ok_def ordered_core_def)
  have slots: "slot_in s' j l dir = (if j = ident_id e \<and> l = 0 \<and> dir = opposite (b_dir b)
      then Some (b_peer b) else slot_in s j l dir)" for j l dir
    using assms(6) i new by (simp add: slot_in_eq assms(7) res)
  have nodes': "net_nodes s' (ident_id e) = Some ?n'" using assms(7) i res by simp
  have neq: "ident_id (b_peer b) \<noteq> ident_id e" using peer_side(1) [OF peer u] u by auto
  show ?thesis
  proof (rule linking_change [OF assms(3) nodes'])
    show "self_identity ?n' = e" using e by (simp add: self_identity_def linked_node_def node_simps)
    show "own_packets (ident_id e) s' = own_packets (ident_id e) s - mset (branch_packets e b) +
        mset (branch_packets e ?b')"
      using assms(5,8) by (simp add: res outgoing_def branch_packets_def)
    show "branch_slots s0 s' e ?b'" using sl assms(4) neq by (simp add: branch_slots_def slots)
    show "branch_wait (node_requests ?n') c" if c: "c \<in> set (xs @ ys)" for c
    proof (rule branch_wait_frame [OF waits])
      show "c \<in> set (xs @ b # ys)" using c by auto
      have "b_nonce c \<noteq> b_nonce b" "b_chan c \<noteq> b_chan b"
        by (rule distinct_map_other [OF _ c], rule linkingD(2,3) [OF assms(3)])+
      then show "request_id_map (node_requests ?n') (b_nonce c) =
          request_id_map (node_requests n) (b_nonce c)"
        "oneshots (node_requests ?n') (b_chan c) = oneshots (node_requests n) (b_chan c)"
        by simp_all
    qed
  qed (use u wait in \<open>auto simp: slots\<close>)
qed

lemma linking_delivery:
  assumes "scene s0 S (ident_id e)" "since s0 s" "linking s0 S e bs s" "delivery_step s s'"
  shows "\<exists>bs'. linking s0 S e bs' s' \<and> map b_wait bs' = map b_wait bs"
proof -
  have ok: "net_ok s" using assms(2) by (simp add: since_def)
  from ok assms(4) show ?thesis
  proof (cases rule: delivery_undisturbed [where u = "ident_id e"])
    case read
    then show ?thesis using linking_undisturbed [OF assms(3)] by blast
  next
    case (own origin i ev m)
    then obtain b where b: "b \<in> set bs" "(origin, i, ev) \<in> set (branch_packets e b)"
      using linkingD(4) [OF assms(3)] by auto
    obtain xs ys where bs: "bs = xs @ b # ys" using split_list [OF b(1)] by blast
    have pk: "branch_packets e b = [(origin, i, ev)]"
      using b(2) by (auto simp: branch_packets_def split: stage.splits)
    have s': "net_nodes s' = (net_nodes s)(i \<mapsto> fst (process_incoming_event m origin ev))"
      using own(3) by (auto simp: deliver_to_def split: prod.splits)
    note step = assms(3) [unfolded bs] _ pk own(2) s' own(4)
    obtain st where "linking s0 S e (xs @ b\<lparr>b_stage := st\<rparr> # ys) s'"
      using linking_asked [OF assms(1,2) step] linking_confirmed [OF assms(1,2) step] pk
      by (cases "b_stage b") (auto simp: branch_packets_def)
    then show ?thesis using bs by (intro exI [of _ "xs @ b\<lparr>b_stage := st\<rparr> # ys"]) simp
  next
    case (lost origin i ev)
    then obtain b where b: "b \<in> set bs" "(origin, i, ev) \<in> set (branch_packets e b)"
      using linkingD(4) [OF assms(3)] by auto
    then have "i = ident_id (b_peer b) \<or> i = ident_id e"
      by (auto simp: branch_packets_def split: stage.splits)
    moreover have "net_nodes s (ident_id e) \<noteq> None" using assms(3) by (auto simp: linking_def)
    ultimately show ?thesis
      using lost(2) linking_peer_node [OF assms(1,2) linkingD(5) [OF assms(3) b(1)]]
      by (metis option.distinct(1))
  qed
qed

section \<open>Resuming the join\<close>

text \<open>The network after the joining node has gone on.\<close>

definition resumed :: "Net \<Rightarrow> Identifier \<Rightarrow> BaseNode \<Rightarrow> (Identifier \<times> Event) list \<Rightarrow> Net" where
  "resumed s u n sent =
     s\<lparr>net_nodes := (net_nodes s)(u \<mapsto> n), in_flight := in_flight s @ map (Pair u) sent\<rparr>"

lemma resumed_simps [simp]:
  "net_nodes (resumed s u n sent) = (net_nodes s)(u \<mapsto> n)"
  "in_flight (resumed s u n sent) = in_flight s @ map (Pair u) sent"
  by (simp_all add: resumed_def)

lemma resumed_twice: "resumed (resumed s u n []) u m sent = resumed s u m sent"
  by (simp add: resumed_def)

lemma own_packets_resumed:
  "own_packets u (resumed s u n sent) =
     own_packets u s + mset (filter (\<lambda>p. \<not> read_packet u p) (map (Pair u) sent))"
  by (simp add: own_packets_def)

lemma slot_in_resumed:
  assumes "net_nodes s u = Some n" "node_core n' = node_core n"
  shows "slot_in (resumed s u n' sent) = slot_in s"
  using assms by (simp add: slot_in_eq fun_eq_iff)

lemma since_resumed:
  assumes "since s0 s" "net_nodes s u = Some n" "same_node n n'" "node_ok n'"
  shows "since s0 (resumed s u n' sent)"
proof -
  have ok: "net_ok s" using assms(1) by (simp add: since_def)
  have "core_id (node_core n') = u"
    using ok assms(2,3) by (auto simp: net_ok_def same_node_def)
  then have "net_ok (resumed s u n' sent)" using ok assms(4) by (simp add: net_ok_def)
  moreover have "net_evolves s (resumed s u n' sent)"
    using assms(2,3) by (simp add: net_evolves_def option.rel_refl)
  ultimately show ?thesis using assms(1) net_evolves_trans unfolding since_def by blast
qed

lemma unpark_keeps:
  "node_core (unpark n nonce ch) = node_core n" "same_node n (unpark n nonce ch)"
  "node_ok n \<Longrightarrow> node_ok (unpark n nonce ch)" "self_identity (unpark n nonce ch) = self_identity n"
  by (simp_all add: unpark_def node_ok_def keeps self_identity_def)

context oneshot
begin

text \<open>Polling one link request of the join.\<close>

lemma linking_poll:
  assumes "linking s0 S e (xs @ b # ys) s" "net_nodes s (ident_id e) = Some n"
    and "link_poll aw (\<lambda>_. False) n (b_wait b) = (n', w)" "ident_id e \<notin> S"
  shows "linking s0 S e (xs @ b\<lparr>b_wait := w\<rparr> # ys) (resumed s (ident_id e) n' []) \<and>
    node_core n' = node_core n \<and> same_node n n' \<and> (node_ok n \<longrightarrow> node_ok n')"
proof -
  have b: "b \<in> set (xs @ b # ys)" by simp
  have e: "self_identity n = e" using linking_node [OF assms(1)] assms(2) by (metis option.inject)
  note waits = linkingD(7) [OF assms(1,2)] and sl = linkingD(6) [OF assms(1) b]
  consider (kept) "n' = n" "w = b_wait b"
    | (over) res where "b_wait b = Waiting (b_nonce b) (b_chan b)" "b_stage b = Applied"
      "request_id_map (node_requests n) (b_nonce b) = None"
      "oneshots (node_requests n) (b_chan b) = [TxSend (ReplyLink res)]"
      "n' = unpark n (b_nonce b) (b_chan b)" "w = Over (Ok ())"
  proof (cases "b_wait b")
    case (Waiting nonce ch)
    show thesis
    proof (cases "oneshots (node_requests n) ch = []")
      case True
      then show thesis using assms(3) Waiting by (intro kept) (auto simp: ready_def)
    next
      case False
      then obtain res where r: "b_stage b = Applied" "nonce = b_nonce b" "ch = b_chan b"
        "request_id_map (node_requests n) nonce = None"
        "oneshots (node_requests n) ch = [TxSend (ReplyLink res)]"
        using waits [OF b] Waiting by (auto simp: branch_wait_def pending_def split: if_splits)
      then show thesis
        using assms(3) Waiting over
        by (auto simp: ready_def send_link_request_end_def await_reply_def sent_received)
    qed
  qed (use assms(3) kept in auto)
  then show ?thesis
  proof cases
    case kept
    then show ?thesis using assms(1,2) by (simp add: resumed_def fun_upd_idem)
  next
    case (over res)
    have reqs: "request_id_map (node_requests n') m = request_id_map (node_requests n) m"
      "oneshots (node_requests n') c =
        (if c = b_chan b then [TxSend (ReplyLink res), RxDrop] else oneshots (node_requests n) c)" for m c
      using over(3,4) by (auto simp: over(5) unpark_def close_request_def rx_drop_def guard_drop_def)
    have core: "node_core n' = node_core n" using over(5) by (simp add: unpark_keeps)
    have "linking s0 S e (xs @ b\<lparr>b_wait := w\<rparr> # ys) (resumed s (ident_id e) n' [])"
    proof (rule linking_change [OF assms(1)])
      show "self_identity n' = e" using e over(5) by (simp add: unpark_keeps)
      show "branch_slots s0 (resumed s (ident_id e) n' []) e (b\<lparr>b_wait := w\<rparr>)"
        using sl by (simp add: branch_slots_def slot_in_resumed [OF assms(2) core])
      show "branch_wait (node_requests n') (b\<lparr>b_wait := w\<rparr>)"
        using over by (simp add: branch_wait_def)
      show "branch_wait (node_requests n') c" if c: "c \<in> set (xs @ ys)" for c
        by (rule branch_wait_frame [OF waits]) (use c distinct_map_other [OF linkingD(3) [OF assms(1)] c] in
            \<open>auto simp: reqs\<close>)
      have "branch_packets e b = []" "branch_packets e (b\<lparr>b_wait := w\<rparr>) = []"
        using over(2) by (simp_all add: branch_packets_def)
      then show "own_packets (ident_id e) (resumed s (ident_id e) n' []) = own_packets (ident_id e) s -
          mset (branch_packets e b) + mset (branch_packets e (b\<lparr>b_wait := w\<rparr>))"
        by (simp add: own_packets_resumed)
    qed (use assms(4) in \<open>simp_all add: slot_in_resumed [OF assms(2) core]\<close>)
    then show ?thesis using core over(5) by (simp add: unpark_keeps)
  qed
qed

end

text \<open>Opening a request leaves the other pending ones alone.\<close>

lemma open_request_pending:
  assumes "wf_requests r" "pending mk n ch r" "m \<noteq> n" "\<And>ch. waiter_chan (mk ch) = ch"
  shows "pending mk n ch (snd (open_request m mk' r))"
proof -
  have w: "request_id_map r n = Some (mk ch)" "oneshots r ch = []"
    using assms(2) by (simp_all add: pending_def)
  have "ch < next_chan r" using wf_requestsD(1) [OF assms(1) w(1)] assms(4) by simp
  moreover have "waiter_chan v \<noteq> ch" if "request_id_map r m = Some v" for v
    using wf_requestsD(3) [OF assms(1) w(1) that] assms(3,4) by auto
  ultimately show ?thesis
    using w assms(3)
    by (auto simp: pending_def open_request_def Let_def oneshots_insert_waiter split: option.splits)
qed

lemma link_begin:
  assumes "node_ok n" "send_link_request_begin n dest d 0 nonce = (n', ch, dest', ev)"
  shows "node_core n' = node_core n" "same_node n n'" "node_ok n'" "dest' = dest"
    "ev = GetLinkOp \<lparr>lreq_nonce = nonce, lreq_candidate = self_identity n, lreq_dir = d, lreq_level = 0\<rparr>"
    "pending (\<lambda>ch. Link ch 0 (opposite d)) nonce ch (node_requests n')"
    "ch = next_chan (node_requests n)" "next_chan (node_requests n') = Suc ch"
    "n' = n\<lparr>node_requests := snd (open_request nonce (\<lambda>ch. Link ch 0 (opposite d)) (node_requests n))\<rparr>"
proof -
  let ?mk = "\<lambda>ch. Link ch 0 (opposite d)"
  obtain r where o: "open_request nonce ?mk (node_requests n) = (ch, r)" "n' = n\<lparr>node_requests := r\<rparr>"
    using assms(2) by (auto simp: send_link_request_begin_def park_def split: prod.splits)
  have wf: "wf_requests (node_requests n)" using assms(1) by (simp add: node_ok_def)
  show "node_core n' = node_core n" "same_node n n'" using o(2) by simp_all
  show "node_ok n'"
    using assms(1) o link_kind.opened(2) [OF wf o(1)] by (simp add: node_ok_requests)
  show "pending ?mk nonce ch (node_requests n')" using link_kind.opened(1) [OF wf o(1)] o(2) by simp
  show "dest' = dest"
    "ev = GetLinkOp \<lparr>lreq_nonce = nonce, lreq_candidate = self_identity n, lreq_dir = d, lreq_level = 0\<rparr>"
    using assms(2) by (auto simp: send_link_request_begin_def split: prod.splits)
  show "ch = next_chan (node_requests n)" "next_chan (node_requests n') = Suc ch"
    using o by (auto simp: open_request_def Let_def)
  show "n' = n\<lparr>node_requests := snd (open_request nonce ?mk (node_requests n))\<rparr>" using o by simp
qed

definition asked_branch :: "Direction \<Rightarrow> Identity \<Rightarrow> Nonce \<Rightarrow> chan \<Rightarrow> LinkBranch" where
  "asked_branch d x nonce ch = \<lparr>b_dir = d, b_peer = x, b_nonce = nonce, b_chan = ch,
     b_stage = Asked, b_wait = Waiting nonce ch\<rparr>"

lemma asked_branch_simps [simp]:
  "b_dir (asked_branch d x nonce ch) = d" "b_peer (asked_branch d x nonce ch) = x"
  "b_nonce (asked_branch d x nonce ch) = nonce" "b_chan (asked_branch d x nonce ch) = ch"
  "b_stage (asked_branch d x nonce ch) = Asked"
  "b_wait (asked_branch d x nonce ch) = Waiting nonce ch"
  "branch_packets e (asked_branch d x nonce ch) = [(ident_id e, ident_id x,
     GetLinkOp \<lparr>lreq_nonce = nonce, lreq_candidate = e, lreq_dir = d, lreq_level = 0\<rparr>)]"
  by (simp_all add: asked_branch_def branch_packets_def)

lemma scene_empty:
  assumes "scene s0 S u"
  shows "slot_in s0 u 0 d = None"
  using assms unfolding scene_def joining_def by (metis not_None_eq)

lemma asked_branch_slots:
  assumes "scene s0 S (ident_id e)" "slot_in s = slot_in s0"
  shows "branch_slots s0 s e (asked_branch d x nonce ch)"
  using assms scene_empty [OF assms(1)] by (simp add: branch_slots_def)

text \<open>The start of the link requests, right after the query has been answered.\<close>

lemma linking_started:
  assumes "scene s0 S (ident_id e)" "slot_in s' = slot_in s0"
    and "\<forall>b \<in> set bs. \<exists>d x nonce ch. b = asked_branch d x nonce ch \<and> branch_peer s0 S e b \<and>
      pending (\<lambda>ch. Link ch 0 (opposite d)) nonce ch (node_requests n)"
    and "distinct (map b_dir bs)" "distinct (map b_nonce bs)" "distinct (map b_chan bs)"
    and "own_packets (ident_id e) s' = mset (concat (map (branch_packets e) bs))"
    and "net_nodes s' (ident_id e) = Some n" "self_identity n = e"
    and "\<And>d. (\<exists>b \<in> set bs. b_dir b = d) \<or> (\<forall>y \<in> S. \<not> beyond (opposite d) (ident_id e) y)"
  shows "linking s0 S e bs s'"
proof -
  have "branch_peer s0 S e b \<and> branch_slots s0 s' e b \<and> branch_wait (node_requests n) b"
    if "b \<in> set bs" for b
    using assms(3) that asked_branch_slots [OF assms(1,2)] by (fastforce simp: branch_wait_def)
  then show ?thesis unfolding linking_def using assms by auto
qed

context oneshot
begin

lemma resume_query_links:
  assumes "scene s0 S (ident_id e)" "since s0 s" "closest_member S d (ident_id e) x"
    and "awaiting s0 (ident_id e) (query_stage (ident_id e) d x (slot_in s0 x 0 d) nonce ch) s"
    and "net_nodes s (ident_id e) = Some n" "ready (\<lambda>_. False) n ch" "self_identity n = e"
    and "nonce1 \<noteq> nonce2" "resume_query aw n d x nonce ch nonce1 nonce2 = (n', js, sent)"
  shows "\<exists>bs w1 w2. js = Linking w1 w2 \<and> links_result w1 w2 = js \<and>
    map b_wait bs = w1 # (case w2 of None \<Rightarrow> [] | Some w \<Rightarrow> [w]) \<and>
    linking s0 S e bs (resumed s (ident_id e) n' sent) \<and> same_node n n' \<and> node_ok n'"
proof -
  let ?u = "ident_id e" and ?z = "slot_in s0 x 0 d"
  have u: "?u \<notin> S" using assms(1) by (simp add: scene_def joining_def)
  have slots: "slot_in s = slot_in s0" using assms(4) by (simp add: awaiting_def)
  obtain res where res: "own_packets ?u s = {#}" "oneshots (node_requests n) ch = [TxSend (ReplyNeighbor res)]"
    "nres_neighbor res = ?z"
    using assms(4-6) by (auto simp: awaiting_def await_stage_def pending_def ready_def elim!: query_reply.elims)
  define n1 where "n1 = unpark n nonce ch"
  have ok: "node_ok n" using assms(2,5) by (auto simp: since_def net_ok_def)
  have n1: "node_core n1 = node_core n" "same_node n n1" "node_ok n1" "self_identity n1 = e"
    using ok assms(7) by (simp_all add: n1_def unpark_keeps)
  have q: "get_neighbor_end aw n nonce ch (Ok ()) = (n1, Ok ?z)"
    using res by (simp add: get_neighbor_end_def n1_def await_reply_def sent_received)
  obtain n2 ch1 dest1 ev1 where b1: "send_link_request_begin n1 x d 0 nonce1 = (n2, ch1, dest1, ev1)"
    by (metis prod_cases4)
  note l1 = link_begin [OF n1(3) b1]
  have n2: "same_node n n2" "self_identity n2 = e" "node_core n2 = node_core n"
    using same_node_trans [OF n1(2) l1(2)] same_node_self_identity [OF l1(2)] n1(1,4) l1(1) by simp_all
  have xS: "x \<in> S" using assms(3) by (simp add: closest_member_def)
  have px: "\<exists>px. identity_at (hub_of s0) i = Some px \<and> ident_id px = i" if "i \<in> S" for i
    using since_node [OF assms(2) scene_nodes [OF assms(1)], of i] that
    by (metis insertI2 self_identity_def identity_new_def Identity.select_convs(1))
  obtain px where px1: "identity_at (hub_of s0) x = Some px" "ident_id px = x" using px [OF xS] by blast
  have peer1: "branch_peer s0 S e (asked_branch d px nonce1 ch1)"
    using assms(3) px1 by (simp add: branch_peer_def)
  have list: "list_slot S d x ?z"
    using assms(1) xS by (simp add: scene_def graph_linked_sides side_linked_def)
  note other = closest_other_side [OF assms(3) u list]
  show ?thesis
  proof (cases ?z)
    case None
    let ?bs = "[asked_branch d px nonce1 ch1]"
    have r: "n' = n2" "js = Linking (Waiting nonce1 ch1) None" "sent = [(dest1, ev1)]"
      using assms(9) q b1 None by (auto simp: resume_query_def)
    have "linking s0 S e ?bs (resumed s ?u n2 sent)"
    proof (rule linking_started [OF assms(1) _ _ _ _ _ _ _ n2(2)])
      show "slot_in (resumed s ?u n2 sent) = slot_in s0"
        using slot_in_resumed [OF assms(5) n2(3)] slots by simp
      show "(\<exists>b \<in> set ?bs. b_dir b = d') \<or> (\<forall>y \<in> S. \<not> beyond (opposite d') ?u y)" for d'
        using other None by (cases d; cases d') auto
      show "own_packets ?u (resumed s ?u n2 sent) = mset (concat (map (branch_packets e) ?bs))"
        using res(1) r(3) l1(4,5) n1(4) px1 by (simp add: own_packets_resumed)
    qed (use peer1 l1(6) in auto)
    then show ?thesis using r n2(1) l1(3) by (intro exI [of _ ?bs]) auto
  next
    case (Some z)
    obtain n3 ch2 dest2 ev2 where
      b2: "send_link_request_begin n2 (ident_id z) (opposite d) 0 nonce2 = (n3, ch2, dest2, ev2)"
      by (metis prod_cases4)
    note l2 = link_begin [OF l1(3) b2]
    have c2: "closest_member S (opposite d) ?u (ident_id z)" using other Some by simp
    then obtain pz where pz: "identity_at (hub_of s0) (ident_id z) = Some pz" "ident_id pz = ident_id z"
      using px by (auto simp: closest_member_def)
    have peer2: "branch_peer s0 S e (asked_branch (opposite d) pz nonce2 ch2)"
      using c2 pz by (simp add: branch_peer_def)
    have wf2: "wf_requests (node_requests n2)" using l1(3) by (simp add: node_ok_def)
    have p1: "pending (\<lambda>ch. Link ch 0 (opposite d)) nonce1 ch1 (node_requests n3)"
      using open_request_pending [OF wf2 l1(6), of nonce2] assms(8) by (simp add: l2(9))
    let ?bs = "[asked_branch d px nonce1 ch1, asked_branch (opposite d) pz nonce2 ch2]"
    have r: "n' = n3" "js = Linking (Waiting nonce1 ch1) (Some (Waiting nonce2 ch2))"
      "sent = [(dest1, ev1), (dest2, ev2)]"
      using assms(9) q b1 b2 Some by (auto simp: resume_query_def)
    have n3: "self_identity n3 = e" "node_core n3 = node_core n" "same_node n n3"
      using same_node_trans [OF n2(1) l2(2)] same_node_self_identity [OF l2(2)] n2 l2(1) by simp_all
    have "linking s0 S e ?bs (resumed s ?u n3 sent)"
    proof (rule linking_started [OF assms(1) _ _ _ _ _ _ _ n3(1)])
      show "slot_in (resumed s ?u n3 sent) = slot_in s0"
        using slot_in_resumed [OF assms(5) n3(2)] slots by simp
      show "(\<exists>b \<in> set ?bs. b_dir b = d') \<or> (\<forall>y \<in> S. \<not> beyond (opposite d') ?u y)" for d'
        by (cases d; cases d') auto
      show "own_packets ?u (resumed s ?u n3 sent) = mset (concat (map (branch_packets e) ?bs))"
        using res(1) r(3) l1(4,5) l2(4,5) n1(4) n2(2) px1 pz by (simp add: own_packets_resumed)
      show "distinct (map b_chan ?bs)" using l2(7) l1(8) by simp
      show "\<forall>b \<in> set ?bs. \<exists>d x nonce ch. b = asked_branch d x nonce ch \<and> branch_peer s0 S e b \<and>
          pending (\<lambda>ch. Link ch 0 (opposite d)) nonce ch (node_requests n3)"
        using peer1 peer2 p1 l2(6) by (metis empty_iff empty_set set_ConsD)
    qed (use assms(8) in auto)
    then show ?thesis using r n3(3) l2(3) by (intro exI [of _ ?bs]) auto
  qed
qed

lemma resume_search_queries:
  assumes "scene s0 S u" "since s0 s" "awaiting s0 u (search_stage S u d nonce ch) s"
    and "net_nodes s u = Some n" "ready (\<lambda>_. False) n ch"
    and "resume_search aw n d nonce ch nonce1 = (n', js, sent)"
  shows "\<exists>x ch2. js = Querying d x nonce1 ch2 \<and> closest_member S d u x \<and>
    awaiting s0 u (query_stage u d x (slot_in s0 x 0 d) nonce1 ch2) (resumed s u n' sent) \<and>
    same_node n n' \<and> node_ok n'"
proof -
  have u: "u \<notin> S" using assms(1) by (simp add: scene_def joining_def)
  have ok: "node_ok n" "core_id (node_core n) = u" using assms(2,4) by (auto simp: since_def net_ok_def)
  obtain res where res: "own_packets u s = {#}"
    "oneshots (node_requests n) ch = [TxSend (ReplySearch res)]" "closest_member S d u (sres_result res)"
    using assms(3-5) by (auto simp: awaiting_def await_stage_def pending_def ready_def elim!: search_reply.elims)
  define n1 where "n1 = unpark n nonce ch"
  have n1: "node_core n1 = node_core n" "same_node n n1" "node_ok n1"
    using ok by (simp_all add: n1_def unpark_keeps)
  have neq: "sres_result res \<noteq> u" using res(3) u by (auto simp: closest_member_def)
  obtain ch2 r where o: "open_request nonce1 Neighbor (node_requests n1) = (ch2, r)" by fastforce
  have wf: "wf_requests (node_requests n1)" using n1(3) by (simp add: node_ok_def)
  have r: "n' = n1\<lparr>node_requests := r\<rparr>" "js = Querying d (sres_result res) nonce1 ch2"
    "sent = [(sres_result res, GetNeighborOp \<lparr>nreq_nonce = nonce1, nreq_origin = u, nreq_level = 0,
       nreq_direction = d\<rparr>)]"
    using assms(6) res(2) neq ok(2) n1(1) o
    by (auto simp: resume_search_def send_search_by_id_req_end_def await_reply_def sent_received
        get_neighbor_begin_def park_def Let_def n1_def [symmetric])
  have core: "node_core n' = node_core n" using r(1) n1(1) by simp
  have "awaiting s0 u (query_stage u d (sres_result res) (slot_in s0 (sres_result res) 0 d) nonce1 ch2)
      (resumed s u n' sent)"
    using assms(3) res(1) neighbor_kind.opened(1) [OF wf o] slot_in_resumed [OF assms(4) core, of sent] r
    by (simp add: awaiting_def own_packets_resumed await_stage_def)
  moreover have "same_node n n'" using n1(2) r(1) by (simp add: same_node_def)
  moreover have "node_ok n'" using n1(3) neighbor_kind.opened(2) [OF wf o] r(1) by (simp add: node_ok_requests)
  ultimately show ?thesis using r(2) res(3) by blast
qed

end

end
