(* ===== verification/Async_Run.thy ===== *)
theory Async_Run
  imports Async_Links
begin

text \<open>
  The whole asynchronous join: its invariant through the three awaits, the list it leaves, and the
  bound on the steps it takes.
\<close>

section \<open>The invariant\<close>









section \<open>The list that the join leaves\<close>






section \<open>The join comes to its end\<close>


















section \<open>The start\<close>




section \<open>A sample join\<close>





section \<open>Properties\<close>





end
