(* ===== verification/Fixtures.thy ===== *)
theory Fixtures
  imports Join_Protocol
begin

text \<open>
  \<^verbatim>\<open>src/core/testutil/fixtures.rs\<close> and \<^verbatim>\<open>src/node/testutil.rs\<close>: the generators and the assertion that
  the repository checks its graphs with. Random draws are arguments. The assertion on a
  doubly linked level is shown to say what the join theorem of theory Join_Protocol says, and
  the node fixture to build a hub that the theorem applies to.
\<close>

section \<open>Definitions\<close>

text \<open>The loops that change the first byte they can; \<^verbatim>\<open>rev()\<close> is applied by the caller.\<close>

fun incr_first :: "u8 list \<Rightarrow> u8 list" where
  "incr_first [] = []"
| "incr_first (b # bs) = (if b < 0xFF then (b + 1) # bs else b # incr_first bs)"

fun decr_first :: "u8 list \<Rightarrow> u8 list" where
  "decr_first [] = []"
| "decr_first (b # bs) = (if b > 0 then (b - 1) # bs else b # decr_first bs)"

text \<open>A panic is \<^term>\<open>None\<close>; \<open>draw\<close> is the result of \<^verbatim>\<open>random_identifier()\<close>.\<close>

definition random_identifier_greater_than :: "Identifier \<Rightarrow> Identifier \<Rightarrow> Identifier option" where
  "random_identifier_greater_than draw target =
     (if target = ID_ZERO then Some draw
      else if target = ID_MAX then None
      else (case from_bytes (rev (incr_first (rev (to_bytes target)))) of
              Ok i \<Rightarrow> Some i
            | Err _ \<Rightarrow> None))"

definition random_identifier_less_than :: "Identifier \<Rightarrow> Identifier \<Rightarrow> Identifier option" where
  "random_identifier_less_than draw target =
     (if target = ID_ZERO then None
      else if target = ID_MAX then Some draw
      else (case from_bytes (decr_first (to_bytes target)) of
              Ok i \<Rightarrow> Some i
            | Err _ \<Rightarrow> None))"

definition random_sorted_identifiers :: "Identifier list \<Rightarrow> Identifier list" where
  "random_sorted_identifiers draws = sort draws"

text \<open>\<^verbatim>\<open>lt.get_entry(..).expect(..).map(|e| e.id()) == expected\<close>; an error panics.\<close>

definition entry_id_is ::
  "InnerArrayLookupTable \<Rightarrow> LookupTableLevel \<Rightarrow> Direction \<Rightarrow> Identifier option \<Rightarrow> bool" where
  "entry_id_is t level d expected =
     (case get_entry t level d of
        Ok e \<Rightarrow> map_option ident_id e = expected
      | Err _ \<Rightarrow> False)"

definition assert_doubly_linked_at_level ::
  "Identifier list \<Rightarrow> InnerArrayLookupTable list \<Rightarrow> LookupTableLevel \<Rightarrow> bool" where
  "assert_doubly_linked_at_level ids tables level \<longleftrightarrow>
     length ids = length tables \<and>
     (\<forall>i < length tables.
        entry_id_is (tables ! i) level Left (if i = 0 then None else Some (ids ! (i - 1))) \<and>
        entry_id_is (tables ! i) level Right
          (if i + 1 < length ids then Some (ids ! (i + 1)) else None))"

text \<open>
  One iteration of \<^verbatim>\<open>sorted_nodes_fixture\<close>: a network for the identifier, and the node on it with an
  empty table; \<open>vs\<close> and \<open>ads\<close> are the random vectors and addresses.
\<close>

definition add_node ::
  "Identifier \<times> MembershipVector \<times> Address \<Rightarrow> NetworkHub \<Rightarrow> NetworkHub option" where
  "add_node q hub =
     (case q of (i, v, a) \<Rightarrow>
        (case new_mock_network hub i a of
           (hub', Ok _) \<Rightarrow> base_node_new hub' i (core_new i v new_table)
         | (hub', Err _) \<Rightarrow> None))"

fun add_nodes ::
  "(Identifier \<times> MembershipVector \<times> Address) list \<Rightarrow> NetworkHub \<Rightarrow> NetworkHub option" where
  "add_nodes [] hub = Some hub"
| "add_nodes (q # qs) hub = Option.bind (add_node q hub) (add_nodes qs)"

definition sorted_nodes_fixture ::
  "Identifier list \<Rightarrow> MembershipVector list \<Rightarrow> Address list \<Rightarrow> NetworkHub option" where
  "sorted_nodes_fixture draws vs ads =
     add_nodes (zip (random_sorted_identifiers draws) (zip vs ads)) hub_new"

section \<open>Generators\<close>

lemma incr_first_greater:
  "\<exists>b \<in> set bs. b \<noteq> 255 \<Longrightarrow> be_val (rev bs) < be_val (rev (incr_first bs))"
proof (induction bs)
  case (Cons b bs)
  show ?case
  proof (cases "b < 255")
    case True
    then have "unat b < 255" by (simp add: word_less_nat_alt)
    then have "unat (b + 1) = unat b + 1" by (simp add: unat_word_ariths)
    then show ?thesis using True by (simp add: be_val_append)
  next
    case False
    then have "unat b = unat (255 :: u8)"
      using unat_u8_le [of b] by (simp add: word_less_nat_alt)
    then have "b = 255" by (simp only: unsigned_word_eqI)
    then show ?thesis using Cons by (auto simp: be_val_append)
  qed
qed simp

lemma length_incr_first [simp]: "length (incr_first bs) = length bs"
  by (induction bs) simp_all

lemma length_decr_first [simp]: "length (decr_first bs) = length bs"
  by (induction bs) simp_all

lemma decr_first_less:
  "\<exists>b \<in> set bs. b \<noteq> 0 \<Longrightarrow> be_val (decr_first bs) < be_val bs"
proof (induction bs)
  case (Cons b bs)
  show ?case
  proof (cases "b > 0")
    case True
    then have "b \<noteq> 0" by (simp add: word_gt_0)
    then have "unat (b - 1) = unat b - 1" "unat b \<noteq> 0"
      by (auto simp: unat_minus_one unat_eq_0)
    then have "b - 1 < b" by (simp add: word_less_nat_alt)
    then show ?thesis
      using True be_val_head_less [of bs bs "b - 1" b] by (simp only: decr_first.simps if_True)
  next
    case False
    then show ?thesis using Cons by (auto simp: word_gt_0)
  qed
qed simp

lemma greater_than_result:
  assumes "target \<noteq> ID_ZERO" "target \<noteq> ID_MAX"
  shows "\<exists>i. random_identifier_greater_than draw target = Some i \<and> target < i"
proof -
  let ?bs = "rev (incr_first (rev (as_bytes target)))"
  have "\<exists>b \<in> set (rev (as_bytes target)). b \<noteq> 255"
  proof (rule ccontr)
    assume "\<not> ?thesis"
    then have "as_bytes target = as_bytes ID_MAX"
      by (intro nth_equalityI) (auto simp: as_bytes_def ID_MAX_def dest: nth_mem)
    then show False using assms(2) by simp
  qed
  from incr_first_greater [OF this] have "be_val (as_bytes target) < be_val ?bs" by simp
  then show ?thesis
    using assms by (simp add: random_identifier_greater_than_def from_bytes_def to_bytes_as_bytes
        less_id_val id_val_pad32) (simp add: id_val_def)
qed

lemma less_than_result:
  assumes "target \<noteq> ID_ZERO" "target \<noteq> ID_MAX"
  shows "\<exists>i. random_identifier_less_than draw target = Some i \<and> i < target"
proof -
  let ?bs = "decr_first (as_bytes target)"
  have "\<exists>b \<in> set (as_bytes target). b \<noteq> 0"
  proof (rule ccontr)
    assume "\<not> ?thesis"
    then have "as_bytes target = as_bytes ID_ZERO"
      by (intro nth_equalityI) (auto simp: as_bytes_def ID_ZERO_def dest: nth_mem)
    then show False using assms(1) by simp
  qed
  from decr_first_less [OF this] have "be_val ?bs < be_val (as_bytes target)" by simp
  then show ?thesis
    using assms by (simp add: random_identifier_less_than_def from_bytes_def to_bytes_as_bytes
        less_id_val id_val_pad32) (simp add: id_val_def)
qed

section \<open>The assertion on a level\<close>

lemma nearest_unique: "nearest S d i x \<Longrightarrow> nearest S d i y \<Longrightarrow> x = y"
  unfolding nearest_def by (meson not_beyond)

lemma list_slot_nearest:
  "nearest S d i x \<Longrightarrow> list_slot S d i s \<longleftrightarrow> map_option ident_id s = Some x"
proof (cases s)
  case None
  then show "nearest S d i x \<Longrightarrow> ?thesis" by (auto simp: list_slot_def nearest_def)
qed (auto simp: list_slot_def dest: nearest_unique)

lemma list_slot_end:
  "\<forall>j \<in> S. \<not> beyond d i j \<Longrightarrow> list_slot S d i s \<longleftrightarrow> map_option ident_id s = None"
  by (cases s) (auto simp: list_slot_def nearest_def)

lemma nth_less_iff:
  assumes "sorted_wrt (<) (xs :: Identifier list)" "i < length xs" "j < length xs"
  shows "xs ! i < xs ! j \<longleftrightarrow> i < j"
  using sorted_wrt_nth_less [OF assms(1), of i j] sorted_wrt_nth_less [OF assms(1), of j i] assms(2,3)
  by (cases i j rule: linorder_cases) auto

lemma right_slot_sorted:
  assumes "sorted_wrt (<) ids" "i < length ids"
  shows "list_slot (set ids) Right (ids ! i) s \<longleftrightarrow>
    map_option ident_id s = (if i + 1 < length ids then Some (ids ! (i + 1)) else None)"
proof (cases "i + 1 < length ids")
  case True
  then have "nearest (set ids) Right (ids ! i) (ids ! (i + 1))"
    using assms by (auto simp: nearest_def in_set_conv_nth nth_less_iff)
  then show ?thesis using True by (simp add: list_slot_nearest)
next
  case False
  then have "\<forall>j \<in> set ids. \<not> beyond Right (ids ! i) j"
    using assms by (auto simp: in_set_conv_nth nth_less_iff)
  then show ?thesis using False by (simp add: list_slot_end)
qed

lemma left_slot_sorted:
  assumes "sorted_wrt (<) ids" "i < length ids"
  shows "list_slot (set ids) Left (ids ! i) s \<longleftrightarrow>
    map_option ident_id s = (if i = 0 then None else Some (ids ! (i - 1)))"
proof (cases "i = 0")
  case True
  then have "\<forall>j \<in> set ids. \<not> beyond Left (ids ! i) j"
    using assms by (auto simp: in_set_conv_nth nth_less_iff)
  then show ?thesis using True by (simp add: list_slot_end)
next
  case False
  then have "nearest (set ids) Left (ids ! i) (ids ! (i - 1))"
    using assms nth_mem [of "i - 1" ids] by (auto simp: nearest_def in_set_conv_nth nth_less_iff)
  then show ?thesis using False by (simp add: list_slot_nearest)
qed

lemma entry_id_is_slot:
  "wf_table t \<Longrightarrow> level < LOOKUP_TABLE_LEVELS \<Longrightarrow>
   entry_id_is t level d x \<longleftrightarrow> map_option ident_id (slot t level d) = x"
  by (simp add: entry_id_is_def arr.get_entry_law)

lemma assert_linked_iff:
  assumes "sorted_wrt (<) ids" "length ids = length tables" "\<forall>t \<in> set tables. wf_table t"
    and "level < LOOKUP_TABLE_LEVELS"
  shows "assert_doubly_linked_at_level ids tables level \<longleftrightarrow>
    (\<forall>i < length ids. \<forall>d. list_slot (set ids) d (ids ! i) (slot (tables ! i) level d))"
  using assms
  by (simp add: assert_doubly_linked_at_level_def entry_id_is_slot direction_all left_slot_sorted
      right_slot_sorted)

text \<open>The assertion at level 0, read off the nodes of a hub.\<close>

lemma graph_linked_assert:
  assumes "hub_ok hub" "sorted_wrt (<) ids" "graph_linked hub (set ids)"
    and "map (table_at hub) ids = map Some tables"
  shows "assert_doubly_linked_at_level ids tables 0"
proof -
  have len: "length ids = length tables" using arg_cong [OF assms(4), of length] by simp
  have tab: "table_at hub (ids ! i) = Some (tables ! i)" if "i < length ids" for i
    using that len arg_cong [OF assms(4), of "\<lambda>xs. xs ! i"] by simp
  have "wf_table (tables ! i)" if "i < length ids" for i
    using tab [OF that] by (auto simp: table_at_def dest: hub_okD(5) [OF assms(1)])
  then have "\<forall>t \<in> set tables. wf_table t" using len by (auto simp: in_set_conv_nth)
  moreover have "list_slot (set ids) d (ids ! i) (slot (tables ! i) 0 d)" if "i < length ids" for i d
    using assms(3) tab [OF that] nth_mem [OF that]
    unfolding graph_linked_sides side_linked_def slot_at_def by fastforce
  ultimately show ?thesis
    using assert_linked_iff [OF assms(2) len, of 0] by (simp add: size_defs)
qed

section \<open>The node fixture\<close>

lemma add_node_ok:
  assumes "hub_ok hub" "networks hub i = None"
  shows "\<exists>hub'. add_node (i, v, a) hub = Some hub' \<and> hub_ok hub' \<and>
    (\<forall>j. networks hub' j = None \<longleftrightarrow> networks hub j = None \<and> j \<noteq> i) \<and>
    (\<forall>j. table_at hub' j = (if j = i then Some new_table else table_at hub j))"
proof -
  have "ordered_core (core_new i v new_table)" by simp
  then show ?thesis
    using assms
    by (auto simp: add_node_def new_mock_network_def base_node_new_def register_processor_def
        mock_network_new_def hub_ok_def table_at_def node_at_def node_new_def node_ok_def core_new_def)
qed

lemma add_nodes_ok:
  assumes "hub_ok hub" "distinct (map fst qs)" "\<forall>i \<in> set (map fst qs). networks hub i = None"
  shows "\<exists>hub'. add_nodes qs hub = Some hub' \<and> hub_ok hub' \<and>
    (\<forall>j. table_at hub' j = (if j \<in> set (map fst qs) then Some new_table else table_at hub j))"
  using assms
proof (induction qs arbitrary: hub)
  case (Cons q qs)
  obtain i v a where q: "q = (i, v, a)" by (cases q) auto
  obtain h1 where h1: "add_node (i, v, a) hub = Some h1" "hub_ok h1"
    "\<And>j. networks h1 j = None \<longleftrightarrow> networks hub j = None \<and> j \<noteq> i"
    "\<And>j. table_at h1 j = (if j = i then Some new_table else table_at hub j)"
    using add_node_ok [OF Cons.prems(1), of i v a] Cons.prems(3) q by auto
  obtain h2 where "add_nodes qs h1 = Some h2" "hub_ok h2"
    "\<And>j. table_at h2 j = (if j \<in> set (map fst qs) then Some new_table else table_at h1 j)"
    using Cons.IH [OF h1(2)] Cons.prems(2,3) h1(3) q by (auto simp: image_iff)
  then show ?case using h1(1,4) q Cons.prems(2) by auto
qed simp

lemma hub_ok_new: "hub_ok hub_new"
  by (simp add: hub_ok_def hub_new_def)

section \<open>Fresh nodes\<close>

lemma fresh_graph: "table_at hub i = Some new_table \<Longrightarrow> graph_linked hub {i}"
  by (simp add: graph_linked_def slot_simps list_slot_def)

lemma fresh_joining:
  "table_at hub u = Some new_table \<Longrightarrow> u \<notin> S \<Longrightarrow> joining hub S u"
  by (auto simp: joining_def slot_at_def table_at_def slot_simps)

lemma fixture_ok:
  assumes "distinct draws" "length vs = length draws" "length ads = length draws"
  shows "\<exists>hub. sorted_nodes_fixture draws vs ads = Some hub \<and> hub_ok hub \<and>
    (\<forall>i \<in> set draws. table_at hub i = Some new_table)"
proof -
  let ?qs = "zip (random_sorted_identifiers draws) (zip vs ads)"
  have "map fst ?qs = sort draws"
    using assms(2,3) by (simp add: random_sorted_identifiers_def)
  then show ?thesis
    using add_nodes_ok [OF hub_ok_new, of ?qs] assms(1)
    by (auto simp: sorted_nodes_fixture_def hub_new_def)
qed

section \<open>Properties\<close>

text \<open>
  The generators of larger and smaller identifiers step strictly in their direction for every
  target but the two extremes: they panic at the far extreme, and at the near one they return
  an unconstrained draw, which may be the target itself.
\<close>

theorem generators_ordered:
  "(if target = ID_ZERO then random_identifier_greater_than draw target = Some draw
    else if target = ID_MAX then random_identifier_greater_than draw target = None
    else \<exists>i. random_identifier_greater_than draw target = Some i \<and> target < i) \<and>
   (if target = ID_ZERO then random_identifier_less_than draw target = None
    else if target = ID_MAX then random_identifier_less_than draw target = Some draw
    else \<exists>i. random_identifier_less_than draw target = Some i \<and> i < target)"
  using greater_than_result [of target draw] less_than_result [of target draw]
  by (auto simp: random_identifier_greater_than_def random_identifier_less_than_def)

end
