(* ===== verification/Random_Data.thy ===== *)
theory Random_Data
  imports Fixtures
begin

text \<open>
  The generators of random test data (\<^verbatim>\<open>core/testutil/random.rs\<close> and the generators of
  \<^verbatim>\<open>core/testutil/fixtures.rs\<close>) and the helpers that wait for threads and conditions. The random
  draws are arguments; a panic is \<^term>\<open>None\<close>.
\<close>

section \<open>Definitions\<close>

subsection \<open>Random values\<close>

text \<open>\<open>rng i\<close> is the draw number \<open>i\<close> of the generator.\<close>

definition rand_bytes :: "(nat \<Rightarrow> u8) \<Rightarrow> nat \<Rightarrow> u8 list" where
  "rand_bytes rng n = map rng [0..<n]"

definition random_hex_str :: "(u8 list \<Rightarrow> string) \<Rightarrow> (nat \<Rightarrow> u8) \<Rightarrow> nat \<Rightarrow> string" where
  "random_hex_str hex_encode rng n = hex_encode (map rng [0..<n])"

definition unwrap :: "'a result \<Rightarrow> 'a option" where
  "unwrap r = (case r of Ok x \<Rightarrow> Some x | Err _ \<Rightarrow> None)"

definition random_identifier ::
  "(u8 list \<Rightarrow> string) \<Rightarrow> (string \<Rightarrow> u8 list result) \<Rightarrow> (nat \<Rightarrow> u8) \<Rightarrow> Identifier option" where
  "random_identifier hex_encode hex_decode rng =
     unwrap (from_string hex_decode (random_hex_str hex_encode rng IDENTIFIER_SIZE_BYTES))"

definition random_membership_vector ::
  "(u8 list \<Rightarrow> string) \<Rightarrow> (string \<Rightarrow> u8 list result) \<Rightarrow> (nat \<Rightarrow> u8) \<Rightarrow> MembershipVector option" where
  "random_membership_vector hex_encode hex_decode rng =
     unwrap (mv_from_string hex_decode (random_hex_str hex_encode rng IDENTIFIER_SIZE_BYTES))"

text \<open>
  \<open>p\<close> is the draw of \<^verbatim>\<open>random_range(1024..=65535)\<close>; \<open>s128\<close> and \<open>s8\<close> are the fixed-size strings.
\<close>

definition random_address :: "(string \<Rightarrow> string) \<Rightarrow> (string \<Rightarrow> string) \<Rightarrow> nat \<Rightarrow> Address" where
  "random_address s128 s8 p = address_new s128 s8 ''localhost'' (fmt_nat p)"

type_synonym identity_draw = "(nat \<Rightarrow> u8) \<times> (nat \<Rightarrow> u8) \<times> nat"

fun random_identity ::
  "(u8 list \<Rightarrow> string) \<Rightarrow> (string \<Rightarrow> u8 list result) \<Rightarrow> (string \<Rightarrow> string) \<Rightarrow> (string \<Rightarrow> string)
   \<Rightarrow> identity_draw \<Rightarrow> Identity option" where
  "random_identity hex_encode hex_decode s128 s8 (r1, r2, p) =
     (case random_identifier hex_encode hex_decode r1 of
        None \<Rightarrow> None
      | Some i \<Rightarrow>
          (case random_membership_vector hex_encode hex_decode r2 of
             None \<Rightarrow> None
           | Some v \<Rightarrow> Some (identity_new i v (random_address s128 s8 p))))"

definition random_identities ::
  "(u8 list \<Rightarrow> string) \<Rightarrow> (string \<Rightarrow> u8 list result) \<Rightarrow> (string \<Rightarrow> string) \<Rightarrow> (string \<Rightarrow> string)
   \<Rightarrow> identity_draw list \<Rightarrow> Identity list option" where
  "random_identities hex_encode hex_decode s128 s8 draws =
     those (map (random_identity hex_encode hex_decode s128 s8) draws)"

subsection \<open>Random tables\<close>

text \<open>\<^verbatim>\<open>lt.update_entry(..).unwrap()\<close>.\<close>

definition unwrap_update ::
  "Identity \<Rightarrow> LookupTableLevel \<Rightarrow> Direction \<Rightarrow> InnerArrayLookupTable \<Rightarrow> InnerArrayLookupTable option" where
  "unwrap_update e level d t = (case update_entry t e level d of (t', r) \<Rightarrow> map_option (\<lambda>_. t') (unwrap r))"

fun fill_levels ::
  "Identity list \<Rightarrow> nat \<Rightarrow> nat list \<Rightarrow> InnerArrayLookupTable \<Rightarrow> InnerArrayLookupTable option" where
  "fill_levels ids n [] t = Some t"
| "fill_levels ids n (i # is) t =
     Option.bind (unwrap_update (ids ! i) i Left t) (\<lambda>t1.
     Option.bind (unwrap_update (ids ! (i + n)) i Right t1) (\<lambda>t2.
     fill_levels ids n is t2))"

text \<open>\<open>ids\<close> is the result of \<^verbatim>\<open>random_identities(2 * n)\<close>.\<close>

definition random_lookup_table :: "Identity list \<Rightarrow> nat \<Rightarrow> InnerArrayLookupTable option" where
  "random_lookup_table ids n = fill_levels ids n [0..<n] new_table"

definition random_lookup_table_with_extremes ::
  "Identity list \<Rightarrow> nat \<Rightarrow> Address \<Rightarrow> Address \<Rightarrow> InnerArrayLookupTable option" where
  "random_lookup_table_with_extremes ids n a1 a2 =
     Option.bind (random_lookup_table ids n) (\<lambda>lt.
     Option.bind (unwrap (from_bytes (replicate IDENTIFIER_SIZE_BYTES 0))) (\<lambda>zero_id.
     Option.bind (unwrap (mv_from_bytes (replicate IDENTIFIER_SIZE_BYTES 0))) (\<lambda>zero_mv.
     Option.bind (unwrap (from_bytes (replicate IDENTIFIER_SIZE_BYTES 0xFF))) (\<lambda>max_id.
     Option.bind (unwrap (mv_from_bytes (replicate IDENTIFIER_SIZE_BYTES 0xFF))) (\<lambda>max_mv.
     Option.bind (unwrap_update (identity_new zero_id zero_mv a1) 0 Left lt) (\<lambda>lt.
     unwrap_update (identity_new max_id max_mv a2) 0 Right lt))))))"

definition make_core :: "MembershipVector \<Rightarrow> Identifier \<Rightarrow> InnerArrayLookupTable \<Rightarrow> BaseCore" where
  "make_core mv i lt = core_new i mv lt"

subsection \<open>Waiting\<close>

text \<open>
  How a thread ends, and when, on the clock of the caller. \<^verbatim>\<open>join_with_timeout\<close> gives the time of its
  own return with its result; the \<^verbatim>\<open>{:?}\<close> of a panic payload is the same for every payload.
\<close>

datatype ThreadEnd = Finished nat | Panicked nat | Runs

fun join_with_timeout :: "nat \<Rightarrow> ThreadEnd \<Rightarrow> nat \<Rightarrow> nat \<times> (string + unit)" where
  "join_with_timeout now (Finished t) timeout =
     (if t \<le> now + timeout then (max now t, Inr ()) else (now + timeout, Inl ''thread timed out''))"
| "join_with_timeout now (Panicked t) timeout =
     (if t \<le> now + timeout then (max now t, Inl ''thread panicked: Any { .. }'')
      else (now + timeout, Inl ''thread timed out''))"
| "join_with_timeout now Runs timeout = (now + timeout, Inl ''thread timed out'')"

fun join_all_loop :: "nat \<Rightarrow> nat \<Rightarrow> nat \<Rightarrow> ThreadEnd list \<Rightarrow> nat \<times> (string + unit)" where
  "join_all_loop start timeout now [] = (now, Inr ())"
| "join_all_loop start timeout now (handle # handles) =
     (let elapsed = now - start in
      if elapsed \<ge> timeout then (now, Inl ''timeout'')
      else (case join_with_timeout now handle (timeout - elapsed) of
              (now', Inr _) \<Rightarrow> join_all_loop start timeout now' handles
            | (now', Inl e) \<Rightarrow> (now', Inl e)))"

definition join_all_with_timeout :: "nat \<Rightarrow> ThreadEnd list \<Rightarrow> nat \<Rightarrow> nat \<times> (string + unit)" where
  "join_all_with_timeout start handles timeout = join_all_loop start timeout start handles"





section \<open>Random values\<close>

lemma unwrap_simps [simp]: "unwrap (Ok x) = Some x" "unwrap (Err e) = None"
  by (simp_all add: unwrap_def)

context hex_codec
begin

lemma random_identifier_draw:
  "random_identifier hex_encode hex_decode rng =
   Some (Identifier (pad32 (map rng [0..<IDENTIFIER_SIZE_BYTES])))"
  by (simp add: random_identifier_def random_hex_str_def from_string_def from_bytes_def decode_encode)

lemma random_membership_vector_draw:
  "random_membership_vector hex_encode hex_decode rng =
   Some (MembershipVector (pad32 (map rng [0..<IDENTIFIER_SIZE_BYTES])))"
  by (simp add: random_membership_vector_def random_hex_str_def mv_from_string_def mv_from_bytes_def
      decode_encode)

lemma random_identities_draw:
  "\<exists>ids. random_identities hex_encode hex_decode s128 s8 draws = Some ids \<and> length ids = length draws"
proof (induction draws)
  case (Cons q draws)
  obtain r1 r2 p where "q = (r1, r2, p)" by (cases q)
  with Cons show ?case
    by (auto simp: random_identities_def random_identifier_draw random_membership_vector_draw)
qed (simp add: random_identities_def)

end

section \<open>Random tables\<close>

lemma unwrap_update_some:
  assumes "wf_table t" "level < LOOKUP_TABLE_LEVELS"
  obtains t' where "unwrap_update e level d t = Some t'" "wf_table t'"
    "slot t' = (\<lambda>l d'. if l = level \<and> d' = d then Some e else slot t l d')"
  using arr.update_law [OF assms, of e d] that by (auto simp: unwrap_update_def)

lemma unwrap_update_none: "LOOKUP_TABLE_LEVELS \<le> level \<Longrightarrow> unwrap_update e level d t = None"
  by (simp add: unwrap_update_def update_entry_def level_error_def)

lemma fill_levels_slots:
  assumes "wf_table t" "k \<le> n" "n \<le> LOOKUP_TABLE_LEVELS"
  shows "\<exists>t'. fill_levels ids n [k..<n] t = Some t' \<and> wf_table t' \<and>
    slot t' = (\<lambda>l d. if k \<le> l \<and> l < n then Some (ids ! (l + (if d = Left then 0 else n))) else slot t l d)"
  using assms
proof (induction "n - k" arbitrary: k t)
  case (Suc m)
  then have k: "k < n" "[k..<n] = k # [k + 1..<n]" by (simp_all add: upt_conv_Cons)
  have m: "m = n - (k + 1)" using Suc.hyps(2) by simp
  have lev: "k < LOOKUP_TABLE_LEVELS" using k Suc.prems by simp
  obtain t1 where t1: "unwrap_update (ids ! k) k Left t = Some t1" "wf_table t1"
    "slot t1 = (\<lambda>l d'. if l = k \<and> d' = Left then Some (ids ! k) else slot t l d')"
    by (rule unwrap_update_some [OF Suc.prems(1) lev])
  obtain t2 where t2: "unwrap_update (ids ! (k + n)) k Right t1 = Some t2" "wf_table t2"
    "slot t2 = (\<lambda>l d'. if l = k \<and> d' = Right then Some (ids ! (k + n)) else slot t1 l d')"
    by (rule unwrap_update_some [OF t1(2) lev])
  obtain t3 where t3: "fill_levels ids n [k + 1..<n] t2 = Some t3" "wf_table t3"
    "slot t3 = (\<lambda>l d. if k + 1 \<le> l \<and> l < n then Some (ids ! (l + (if d = Left then 0 else n))) else slot t2 l d)"
    using Suc.hyps(1) [OF m t2(2)] Suc.prems(3) k(1) by auto
  have "slot t3 l d = (if k \<le> l \<and> l < n then Some (ids ! (l + (if d = Left then 0 else n))) else slot t l d)"
    for l d
    using k(1) by (cases d) (auto simp: t3(3) t2(3) t1(3))
  then show ?case using t1(1) t2(1) t3(1,2) k(2) by auto
qed (auto simp: fun_eq_iff)

lemma fill_levels_panics:
  assumes "k \<le> LOOKUP_TABLE_LEVELS" "LOOKUP_TABLE_LEVELS < n"
  shows "fill_levels ids n [k..<n] t = None"
  using assms(1)
proof (induction "LOOKUP_TABLE_LEVELS - k" arbitrary: k t)
  case 0
  then have "[k..<n] = k # [k + 1..<n]" using assms(2) by (simp add: upt_conv_Cons)
  then show ?case using 0 by (simp add: unwrap_update_none)
next
  case (Suc m)
  then have "[k..<n] = k # [k + 1..<n]" using assms(2) by (simp add: upt_conv_Cons)
  then show ?case using Suc.hyps(1) [of "k + 1"] Suc.hyps(2) Suc.prems by (simp add: bind_eq_None_conv)
qed

lemma random_lookup_table_slots:
  assumes "n \<le> LOOKUP_TABLE_LEVELS"
  shows "\<exists>t. random_lookup_table ids n = Some t \<and> wf_table t \<and>
    slot t = (\<lambda>l d. if l < n then Some (ids ! (l + (if d = Left then 0 else n))) else None)"
proof -
  have "slot new_table = (\<lambda>l d. None)" by (simp add: slot_new_table fun_eq_iff)
  then show ?thesis
    using fill_levels_slots [of new_table 0 n ids] assms
    by (simp add: random_lookup_table_def cong: if_cong)
qed

lemma extreme_values:
  "from_bytes (replicate IDENTIFIER_SIZE_BYTES 0) = Ok ID_ZERO"
  "from_bytes (replicate IDENTIFIER_SIZE_BYTES 0xFF) = Ok ID_MAX"
  "mv_from_bytes (replicate IDENTIFIER_SIZE_BYTES 0) = Ok (MembershipVector (fill32 0))"
  "mv_from_bytes (replicate IDENTIFIER_SIZE_BYTES 0xFF) = Ok (MembershipVector (fill32 0xFF))"
  using ids.of_bytes_bytes [of ID_ZERO] ids.of_bytes_bytes [of ID_MAX]
    mvs.of_bytes_bytes [of "MembershipVector (fill32 0)"]
    mvs.of_bytes_bytes [of "MembershipVector (fill32 0xFF)"]
  by (simp_all add: to_bytes_def mv_bytes_def ID_ZERO_def ID_MAX_def bytes_of_fill32)

section \<open>Waiting\<close>

text \<open>A thread ended well by the given time.\<close>

fun done_by :: "nat \<Rightarrow> ThreadEnd \<Rightarrow> bool" where
  "done_by t (Finished t') = (t' \<le> t)"
| "done_by t _ = False"

lemma join_with_timeout_spec:
  assumes "join_with_timeout now h timeout = (now', r)"
  shows "now \<le> now' \<and> now' \<le> now + timeout \<and> (r = Inr () \<longleftrightarrow> done_by (now + timeout) h)"
    and "r = Inr () \<Longrightarrow> t \<ge> now \<Longrightarrow> now' \<le> t \<longleftrightarrow> done_by t h"
  using assms by (cases h; auto split: if_splits)+

lemma join_all_loop_spec:
  assumes "start \<le> now" "now \<le> start + timeout" "join_all_loop start timeout now hs = (t, r)"
  shows "t \<le> start + timeout \<and>
    (r = Inr () \<longleftrightarrow> (\<forall>h \<in> set hs. done_by (start + timeout) h) \<and>
       (\<forall>h \<in> set (butlast hs). done_by (start + timeout - 1) h) \<and> (hs \<noteq> [] \<longrightarrow> now < start + timeout))"
  using assms
proof (induction hs arbitrary: now)
  case (Cons h hs)
  show ?case
  proof (cases "timeout \<le> now - start")
    case True
    then show ?thesis using Cons.prems by auto
  next
    case False
    obtain now' q where j: "join_with_timeout now h (timeout - (now - start)) = (now', q)" by fastforce
    have eq: "now + (timeout - (now - start)) = start + timeout" using False Cons.prems(1) by simp
    note spec = join_with_timeout_spec [OF j, unfolded eq]
    show ?thesis
    proof (cases q)
      case (Inl e)
      then show ?thesis using spec(1) j False Cons.prems by (auto simp: Let_def)
    next
      case (Inr u)
      then have q: "q = Inr ()" by simp
      have rest: "join_all_loop start timeout now' hs = (t, r)"
        using Cons.prems(3) j q False by (simp add: Let_def)
      have h: "done_by (start + timeout) h" using spec(1) q by simp
      have last: "now' < start + timeout \<longleftrightarrow> done_by (start + timeout - 1) h"
      proof -
        have "now \<le> start + timeout - 1" "0 < start + timeout" using False Cons.prems(1) by linarith+
        then show ?thesis using spec(2) [OF q, of "start + timeout - 1"] by (auto simp: less_eq_Suc_le)
      qed
      have "start \<le> now'" "now' \<le> start + timeout" using spec(1) Cons.prems(1) by auto
      from Cons.IH [OF this rest] show ?thesis using h last False Cons.prems(1) by auto
    qed
  qed
qed auto






section \<open>Properties\<close>

text \<open>
  The random generators never panic: with any bytes drawn, the printed string parses back to
  the identifier and the vector that hold exactly those bytes.
\<close>

theorem random_data_total:
  assumes "hex_codec hex_encode hex_decode"
  shows "(\<exists>i. random_identifier hex_encode hex_decode rng = Some i \<and>
      to_bytes i = rand_bytes rng IDENTIFIER_SIZE_BYTES) \<and>
    (\<exists>v. random_membership_vector hex_encode hex_decode rng = Some v \<and>
      mv_bytes v = rand_bytes rng IDENTIFIER_SIZE_BYTES) \<and>
    (\<exists>ids. random_identities hex_encode hex_decode s128 s8 draws = Some ids \<and>
      length ids = length draws)"
  using hex_codec.random_identities_draw [OF assms]
  by (simp add: hex_codec.random_identifier_draw [OF assms]
      hex_codec.random_membership_vector_draw [OF assms] to_bytes_def mv_bytes_def bytes_of_pad32
      rand_bytes_def)

theorem random_data_total_witness:
  "random_identifier plain_encode plain_decode (\<lambda>_. 255) = Some ID_MAX"
proof -
  from random_data_total [OF plain.hex_codec_axioms, of "\<lambda>_. 255" id id "[]"]
  obtain i where "random_identifier plain_encode plain_decode (\<lambda>_. 255) = Some i"
    "as_bytes i = as_bytes ID_MAX"
    by (auto simp: rand_bytes_def as_bytes_def to_bytes_def ID_MAX_def map_replicate_const)
  then show ?thesis by simp
qed

text \<open>
  C39. The random table panics for more than 256 levels; otherwise it holds the first half of the
  identities on its left and the second half on its right, level by level, and the variant with
  extremes differs only in the two slots of level 0.
\<close>

theorem random_table_filled:
  "(n > LOOKUP_TABLE_LEVELS \<longrightarrow> random_lookup_table ids n = None) \<and>
   (n \<le> LOOKUP_TABLE_LEVELS \<longrightarrow>
     (\<exists>t t'. random_lookup_table ids n = Some t \<and> wf_table t \<and>
        (\<forall>l d. slot t l d = (if l < n then Some (ids ! (l + (if d = Left then 0 else n))) else None)) \<and>
        random_lookup_table_with_extremes ids n a1 a2 = Some t' \<and> wf_table t' \<and>
        (\<forall>l d. slot t' l d =
           (if l \<noteq> 0 then slot t l d
            else if d = Left then Some (identity_new ID_ZERO (MembershipVector (fill32 0)) a1)
            else Some (identity_new ID_MAX (MembershipVector (fill32 0xFF)) a2)))))"
proof (intro conjI impI)
  show "random_lookup_table ids n = None" if "n > LOOKUP_TABLE_LEVELS"
    using fill_levels_panics [OF _ that, of 0] by (simp add: random_lookup_table_def)
next
  assume "n \<le> LOOKUP_TABLE_LEVELS"
  then obtain t where t: "random_lookup_table ids n = Some t" "wf_table t"
    "slot t = (\<lambda>l d. if l < n then Some (ids ! (l + (if d = Left then 0 else n))) else None)"
    using random_lookup_table_slots [of n ids] by blast
  let ?z = "identity_new ID_ZERO (MembershipVector (fill32 0)) a1"
  let ?m = "identity_new ID_MAX (MembershipVector (fill32 0xFF)) a2"
  have lev: "0 < LOOKUP_TABLE_LEVELS" by (simp add: size_defs)
  obtain t1 where t1: "unwrap_update ?z 0 Left t = Some t1" "wf_table t1"
    "slot t1 = (\<lambda>l d. if l = 0 \<and> d = Left then Some ?z else slot t l d)"
    by (rule unwrap_update_some [OF t(2) lev])
  obtain t2 where t2: "unwrap_update ?m 0 Right t1 = Some t2" "wf_table t2"
    "slot t2 = (\<lambda>l d. if l = 0 \<and> d = Right then Some ?m else slot t1 l d)"
    by (rule unwrap_update_some [OF t1(2) lev])
  have "random_lookup_table_with_extremes ids n a1 a2 = Some t2"
    using t(1) t1(1) t2(1) by (simp add: random_lookup_table_with_extremes_def extreme_values)
  moreover have "slot t2 l d = (if l \<noteq> 0 then slot t l d else if d = Left then Some ?z else Some ?m)" for l d
    by (cases d) (simp_all add: t2(3) t1(3))
  ultimately show "\<exists>t t'. random_lookup_table ids n = Some t \<and> wf_table t \<and>
      (\<forall>l d. slot t l d = (if l < n then Some (ids ! (l + (if d = Left then 0 else n))) else None)) \<and>
      random_lookup_table_with_extremes ids n a1 a2 = Some t' \<and> wf_table t' \<and>
      (\<forall>l d. slot t' l d = (if l \<noteq> 0 then slot t l d else if d = Left then Some ?z else Some ?m))"
    using t t2(2) by (intro exI [of _ t] exI [of _ t2]) simp
qed

theorem random_table_filled_witness:
  "random_lookup_table [] 257 = None \<and>
   (\<exists>t. random_lookup_table [sample_identity 1, sample_identity 2] 1 = Some t \<and>
      slot t 0 Left = Some (sample_identity 1) \<and> slot t 0 Right = Some (sample_identity 2))"
proof
  show "random_lookup_table [] 257 = None" using random_table_filled [of 257 "[]"] by (simp add: size_defs)
  obtain t where "random_lookup_table [sample_identity 1, sample_identity 2] 1 = Some t"
    "\<forall>l d. slot t l d = (if l < 1 then Some ([sample_identity 1, sample_identity 2] !
       (l + (if d = Left then 0 else 1))) else None)"
    using random_table_filled [of 1 "[sample_identity 1, sample_identity 2]"
        "\<lparr>host = ''localhost'', port = ''0''\<rparr>" "\<lparr>host = ''localhost'', port = ''0''\<rparr>"] leI [of LOOKUP_TABLE_LEVELS 1]
    by (force simp: size_defs)
  then show "\<exists>t. random_lookup_table [sample_identity 1, sample_identity 2] 1 = Some t \<and>
      slot t 0 Left = Some (sample_identity 1) \<and> slot t 0 Right = Some (sample_identity 2)"
    by simp
qed


text \<open>
  Joining threads under one timeout: the call returns within the budget, and it returns Ok
  exactly when every thread ends without a panic by the deadline and all but the last before it.
\<close>

theorem join_all_budget:
  assumes "join_all_with_timeout start handles timeout = (t, r)"
  shows "t \<le> start + timeout \<and>
    (r = Inr () \<longleftrightarrow> (\<forall>h \<in> set handles. done_by (start + timeout) h) \<and>
       (\<forall>h \<in> set (butlast handles). done_by (start + timeout - 1) h) \<and>
       (handles \<noteq> [] \<longrightarrow> 0 < timeout))"
  using join_all_loop_spec [of start start timeout handles t r] assms
  by (simp add: join_all_with_timeout_def)

theorem join_all_budget_witness:
  "join_all_with_timeout 100 [Finished 130, Finished 110, Finished 150] 50 = (150, Inr ()) \<and>
   join_all_with_timeout 100 [Finished 150, Finished 110] 50 = (150, Inl ''timeout'')"
  using join_all_budget [of 100 "[Finished 130, Finished 110, Finished 150]" 50 150 "Inr ()"]
    join_all_budget [of 100 "[Finished 150, Finished 110]" 50 150 "Inl ''timeout''"]
  by (simp add: join_all_with_timeout_def)



end
