(* ===== verification/Unit_Tests.thy ===== *)
theory Unit_Tests
  imports Random_Data
begin

unbundle bit_operations_syntax

text \<open>
  The unit tests of the value types (\<^verbatim>\<open>identifier.rs\<close>, \<^verbatim>\<open>memvec.rs\<close>, \<^verbatim>\<open>address.rs\<close>, \<^verbatim>\<open>identity.rs\<close>) and of the
  fixtures, as executable definitions over their random draws: a test passes when every assertion
  holds and nothing panics. They are shown to pass for every draw, not only for the sampled ones.
\<close>

section \<open>Definitions\<close>

text \<open>\<^verbatim>\<open>.unwrap()\<close> inside a test: an error fails the test.\<close>

definition on_ok :: "'a result \<Rightarrow> ('a \<Rightarrow> bool) \<Rightarrow> bool" where
  "on_ok r k = (case r of Ok x \<Rightarrow> k x | Err _ \<Rightarrow> False)"

definition on_some :: "'a option \<Rightarrow> ('a \<Rightarrow> bool) \<Rightarrow> bool" where
  "on_some r k = (case r of Some x \<Rightarrow> k x | None \<Rightarrow> False)"

subsubsection \<open>Membership vectors\<close>

definition test_membership_vector_from_bytes :: "(nat \<Rightarrow> nat \<Rightarrow> u8) \<Rightarrow> bool" where
  "test_membership_vector_from_bytes rng \<longleftrightarrow>
     (let bytes = replicate 32 0 in on_ok (mv_from_bytes bytes) (\<lambda>mv. mv_bytes mv = bytes)) \<and>
     (let bytes = replicate 32 255 in on_ok (mv_from_bytes bytes) (\<lambda>mv. mv_bytes mv = bytes)) \<and>
     (let bytes = rand_bytes (rng 0) 32 in on_ok (mv_from_bytes bytes) (\<lambda>mv. mv_bytes mv = bytes)) \<and>
     (let bytes = rand_bytes (rng 1) 31 in
      on_ok (mv_from_bytes bytes) (\<lambda>mv. drop 1 (mv_bytes mv) = bytes \<and> mv_bytes mv ! 0 = 0)) \<and>
     (let bytes = rand_bytes (rng 2) 33 in \<not> is_ok (mv_from_bytes bytes))"

definition test_membership_vector_from_string ::
  "(u8 list \<Rightarrow> string) \<Rightarrow> (string \<Rightarrow> u8 list result) \<Rightarrow> (nat \<Rightarrow> nat \<Rightarrow> u8) \<Rightarrow> bool" where
  "test_membership_vector_from_string hex_encode hex_decode rng \<longleftrightarrow>
     (let s = hex_encode (replicate IDENTIFIER_SIZE_BYTES 0) in
      on_ok (mv_from_string hex_decode s) (\<lambda>mv. mv_bytes mv = replicate IDENTIFIER_SIZE_BYTES 0)) \<and>
     (let s = hex_encode (replicate IDENTIFIER_SIZE_BYTES 255) in
      on_ok (mv_from_string hex_decode s) (\<lambda>mv. mv_bytes mv = replicate IDENTIFIER_SIZE_BYTES 255)) \<and>
     (let s = random_hex_str hex_encode (rng 0) IDENTIFIER_SIZE_BYTES in
      on_ok (mv_from_string hex_decode s) (\<lambda>mv.
      on_ok (hex_decode s) (\<lambda>expected_bytes. expected_bytes = mv_bytes mv))) \<and>
     (let s = random_hex_str hex_encode (rng 1) (IDENTIFIER_SIZE_BYTES - 1) in
      on_ok (mv_from_string hex_decode s) (\<lambda>mv.
      on_ok (hex_decode s) (\<lambda>expected_bytes. 0 = mv_bytes mv ! 0 \<and> expected_bytes = drop 1 (mv_bytes mv)))) \<and>
     (let s = random_hex_str hex_encode (rng 2) (IDENTIFIER_SIZE_BYTES + 1) in
      \<not> is_ok (mv_from_string hex_decode s))"

text \<open>
  The draws of the last part: a byte index, the bytes on its two sides, a byte and a bit index.
\<close>

definition test_common_bit_prefix :: "nat \<Rightarrow> (nat \<Rightarrow> nat \<Rightarrow> u8) \<Rightarrow> u8 \<Rightarrow> nat \<Rightarrow> bool" where
  "test_common_bit_prefix random_index rng byte_1 random_bit_index \<longleftrightarrow>
     on_ok (mv_from_bytes (replicate IDENTIFIER_SIZE_BYTES 0)) (\<lambda>mv_0.
     on_ok (mv_from_bytes (replicate IDENTIFIER_SIZE_BYTES 255)) (\<lambda>mv_1.
       common_prefix_bit mv_0 mv_0 = IDENTIFIER_SIZE_BYTES * 8 \<and>
       common_prefix_bit mv_1 mv_1 = IDENTIFIER_SIZE_BYTES * 8 \<and>
       common_prefix_bit mv_0 mv_1 = 0 \<and>
     on_ok (mv_from_bytes ([127] @ replicate (IDENTIFIER_SIZE_BYTES - 1) 255)) (\<lambda>mv_01.
       common_prefix_bit mv_01 mv_01 = IDENTIFIER_SIZE_BYTES * 8 \<and>
       common_prefix_bit mv_1 mv_01 = 0 \<and> common_prefix_bit mv_01 mv_1 = 0 \<and>
       common_prefix_bit mv_0 mv_01 = 1 \<and> common_prefix_bit mv_01 mv_0 = 1) \<and>
     on_ok (mv_from_bytes ([63] @ replicate (IDENTIFIER_SIZE_BYTES - 1) 255)) (\<lambda>mv_001.
       common_prefix_bit mv_001 mv_001 = IDENTIFIER_SIZE_BYTES * 8 \<and>
       common_prefix_bit mv_001 mv_0 = 2 \<and> common_prefix_bit mv_0 mv_001 = 2 \<and>
       common_prefix_bit mv_001 mv_1 = 0 \<and> common_prefix_bit mv_1 mv_001 = 0) \<and>
     on_ok (mv_from_bytes ([255] @ [0] @ replicate (IDENTIFIER_SIZE_BYTES - 2) 255))
       (\<lambda>mv_second_byte_all_zero.
       common_prefix_bit mv_second_byte_all_zero mv_second_byte_all_zero = IDENTIFIER_SIZE_BYTES * 8 \<and>
       common_prefix_bit mv_second_byte_all_zero mv_0 = 0 \<and>
       common_prefix_bit mv_0 mv_second_byte_all_zero = 0 \<and>
       common_prefix_bit mv_second_byte_all_zero mv_1 = 8 \<and>
       common_prefix_bit mv_1 mv_second_byte_all_zero = 8 \<and>
     on_ok (mv_from_bytes ([255] @ [128] @ replicate (IDENTIFIER_SIZE_BYTES - 2) 255))
       (\<lambda>mv_second_byte_128.
       common_prefix_bit mv_second_byte_128 mv_second_byte_128 = IDENTIFIER_SIZE_BYTES * 8 \<and>
       common_prefix_bit mv_second_byte_128 mv_0 = 0 \<and>
       common_prefix_bit mv_0 mv_second_byte_128 = 0 \<and>
       common_prefix_bit mv_second_byte_128 mv_1 = 8 + 1 \<and>
       common_prefix_bit mv_1 mv_second_byte_128 = 8 + 1 \<and>
       common_prefix_bit mv_second_byte_128 mv_second_byte_all_zero = 8 \<and>
       common_prefix_bit mv_second_byte_all_zero mv_second_byte_128 = 8)))) \<and>
     (let left_bytes = rand_bytes (rng 0) random_index;
          right_bytes = rand_bytes (rng 1) (IDENTIFIER_SIZE_BYTES - random_index - 1)
      in
      length right_bytes + length left_bytes = IDENTIFIER_SIZE_BYTES - 1 \<and>
      on_ok (mv_from_bytes (left_bytes @ [239] @ right_bytes)) (\<lambda>mv_239.
      on_ok (mv_from_bytes (left_bytes @ [255] @ right_bytes)) (\<lambda>mv_255.
        common_prefix_bit mv_239 mv_255 = random_index * 8 + 3 \<and>
        common_prefix_bit mv_255 mv_239 = random_index * 8 + 3)) \<and>
      (let byte_2 = byte_1 XOR push_bit random_bit_index 1 in
       on_ok (mv_from_bytes (left_bytes @ [byte_1] @ right_bytes)) (\<lambda>mv_1.
       on_ok (mv_from_bytes (left_bytes @ [byte_2] @ right_bytes)) (\<lambda>mv_2.
         common_prefix_bit mv_1 mv_2 = random_index * 8 + (7 - random_bit_index)))))"

definition assert_valid_decompose ::
  "(u8 list \<Rightarrow> string) \<Rightarrow> MembershipVector \<Rightarrow> nat \<Rightarrow> string \<times> string \<times> string \<Rightarrow> bool" where
  "assert_valid_decompose hex_encode mv pivot_index parts =
     (case parts of (left, pivot, right) \<Rightarrow>
        pivot_index div 8 < length (mv_bytes mv) \<and>
        left = hex_encode (take (pivot_index div 8) (mv_bytes mv)) \<and>
        pivot = fmt_08b (mv_bytes mv ! (pivot_index div 8)) \<and>
        right = hex_encode (drop (pivot_index div 8 + 1) (mv_bytes mv)))"

abbreviation fixed_vector :: string where
  "fixed_vector \<equiv> ''a738f14dc0750b7f7e4c418fdda32c424e9ecf7280892d14648e405466a76f29''"

definition test_decompose_at_bit_fixed_mv_fixed_pivot ::
  "(u8 list \<Rightarrow> string) \<Rightarrow> (string \<Rightarrow> u8 list result) \<Rightarrow> bool" where
  "test_decompose_at_bit_fixed_mv_fixed_pivot hex_encode hex_decode \<longleftrightarrow>
     on_ok (mv_from_string hex_decode fixed_vector) (\<lambda>mv.
     on_some (decompose_at_bit hex_encode mv 40) (\<lambda>(left, pivot, right).
       left = ''a738f14dc0'' \<and> pivot = ''01110101'' \<and>
       right = ''0b7f7e4c418fdda32c424e9ecf7280892d14648e405466a76f29''))"

definition test_decompose_at_bit_exhaustive_pivot ::
  "(u8 list \<Rightarrow> string) \<Rightarrow> (string \<Rightarrow> u8 list result) \<Rightarrow> bool" where
  "test_decompose_at_bit_exhaustive_pivot hex_encode hex_decode \<longleftrightarrow>
     on_ok (mv_from_string hex_decode fixed_vector) (\<lambda>mv.
       \<forall>p < IDENTIFIER_SIZE_BYTES * 8 - 1.
         on_some (decompose_at_bit hex_encode mv p) (assert_valid_decompose hex_encode mv p))"

definition test_decompose_at_bit_exhaustive_pivot_random_mvs ::
  "(u8 list \<Rightarrow> string) \<Rightarrow> (string \<Rightarrow> u8 list result) \<Rightarrow> (nat \<Rightarrow> nat \<Rightarrow> u8) \<Rightarrow> bool" where
  "test_decompose_at_bit_exhaustive_pivot_random_mvs hex_encode hex_decode rng \<longleftrightarrow>
     (\<forall>k < 1000. on_some (random_membership_vector hex_encode hex_decode (rng k)) (\<lambda>mv.
       \<forall>p < IDENTIFIER_SIZE_BYTES * 8 - 1.
         on_some (decompose_at_bit hex_encode mv p) (assert_valid_decompose hex_encode mv p)))"

subsection \<open>Addresses and identities\<close>

definition test_address :: "(string \<Rightarrow> string) \<Rightarrow> (string \<Rightarrow> string) \<Rightarrow> bool" where
  "test_address s128 s8 \<longleftrightarrow>
     (let address = address_new s128 s8 ''localhost'' ''1234'' in
      host address = ''localhost'' \<and> port address = ''1234'')"

definition test_identity ::
  "(u8 list \<Rightarrow> string) \<Rightarrow> (string \<Rightarrow> u8 list result) \<Rightarrow> (string \<Rightarrow> string) \<Rightarrow> (string \<Rightarrow> string)
   \<Rightarrow> (nat \<Rightarrow> nat \<Rightarrow> u8) \<Rightarrow> bool" where
  "test_identity hex_encode hex_decode s128 s8 rng \<longleftrightarrow>
     on_some (random_identifier hex_encode hex_decode (rng 0)) (\<lambda>i.
     on_some (random_membership_vector hex_encode hex_decode (rng 1)) (\<lambda>mem_vec.
       let address = address_new s128 s8 ''localhost'' ''1234'';
           identity = identity_new i mem_vec address
       in ident_id identity = i \<and> ident_mem_vec identity = mem_vec \<and> ident_address identity = address))"

subsection \<open>Fixtures\<close>

text \<open>\<open>draws\<close> are the identifiers that \<^verbatim>\<open>random_identifier\<close> gives.\<close>

fun ascending_from :: "Identifier \<Rightarrow> Identifier list \<Rightarrow> bool" where
  "ascending_from prev [] = True"
| "ascending_from prev (cur # rest) =
     (CompareLess = cmp_result (compare prev cur) \<and> ascending_from cur rest)"

definition test_random_identifiers :: "Identifier list \<Rightarrow> bool" where
  "test_random_identifiers draws \<longleftrightarrow>
     (case random_sorted_identifiers draws of
        [] \<Rightarrow> False
      | i # rest \<Rightarrow> ascending_from i rest)"

fun greater_than_loop :: "(Identifier \<times> Identifier) list \<Rightarrow> nat \<Rightarrow> nat option" where
  "greater_than_loop [] failure_count = Some failure_count"
| "greater_than_loop ((target, draw) # rest) failure_count =
     (if target = ID_MAX then greater_than_loop rest (failure_count + 1)
      else (case random_identifier_greater_than draw target of
              None \<Rightarrow> None
            | Some g \<Rightarrow> if g > target then greater_than_loop rest failure_count else None))"

definition test_random_identifier_greater_than :: "(Identifier \<times> Identifier) list \<Rightarrow> bool" where
  "test_random_identifier_greater_than draws \<longleftrightarrow>
     on_some (greater_than_loop draws 0) (\<lambda>failure_count. failure_count < 1000)"

fun less_than_loop :: "(Identifier \<times> Identifier) list \<Rightarrow> nat \<Rightarrow> nat option" where
  "less_than_loop [] failure_count = Some failure_count"
| "less_than_loop ((target, draw) # rest) failure_count =
     (if target = ID_ZERO then less_than_loop rest (failure_count + 1)
      else (case random_identifier_less_than draw target of
              None \<Rightarrow> None
            | Some l \<Rightarrow> if l < target then less_than_loop rest failure_count else None))"

definition test_random_identifier_less_than :: "(Identifier \<times> Identifier) list \<Rightarrow> bool" where
  "test_random_identifier_less_than draws \<longleftrightarrow>
     on_some (less_than_loop draws 0) (\<lambda>failure_count. failure_count < 1000)"

section \<open>Identifiers\<close>

text \<open>\<open>rng k\<close> is the generator that call \<open>k\<close> of the random helpers draws from.\<close>

definition test_identifier_from_bytes :: "(nat \<Rightarrow> nat \<Rightarrow> u8) \<Rightarrow> bool" where
  "test_identifier_from_bytes rng \<longleftrightarrow>
     (let bytes = replicate IDENTIFIER_SIZE_BYTES 0 in
      on_ok (from_bytes bytes) (\<lambda>identifier. to_bytes identifier = bytes)) \<and>
     (let bytes = replicate IDENTIFIER_SIZE_BYTES 255 in
      on_ok (from_bytes bytes) (\<lambda>identifier. to_bytes identifier = bytes)) \<and>
     (let bytes = rand_bytes (rng 0) IDENTIFIER_SIZE_BYTES in
      on_ok (from_bytes bytes) (\<lambda>identifier. to_bytes identifier = bytes)) \<and>
     (let bytes = rand_bytes (rng 1) (IDENTIFIER_SIZE_BYTES - 1) in
      on_ok (from_bytes bytes) (\<lambda>identifier.
        drop 1 (to_bytes identifier) = bytes \<and> to_bytes identifier ! 0 = 0)) \<and>
     (let bytes = rand_bytes (rng 2) (IDENTIFIER_SIZE_BYTES + 1) in \<not> is_ok (from_bytes bytes))"

definition test_identifier_from_string ::
  "(u8 list \<Rightarrow> string) \<Rightarrow> (string \<Rightarrow> u8 list result) \<Rightarrow> (nat \<Rightarrow> nat \<Rightarrow> u8) \<Rightarrow> bool" where
  "test_identifier_from_string hex_encode hex_decode rng \<longleftrightarrow>
     (let s = hex_encode (replicate IDENTIFIER_SIZE_BYTES 0) in
      on_ok (from_string hex_decode s) (\<lambda>identifier.
        to_bytes identifier = replicate IDENTIFIER_SIZE_BYTES 0)) \<and>
     (let s = hex_encode (replicate IDENTIFIER_SIZE_BYTES 255) in
      on_ok (from_string hex_decode s) (\<lambda>identifier.
        to_bytes identifier = replicate IDENTIFIER_SIZE_BYTES 255)) \<and>
     (let s = random_hex_str hex_encode (rng 0) 32 in
      on_ok (from_string hex_decode s) (\<lambda>identifier.
      on_ok (hex_decode s) (\<lambda>expected_bytes. to_bytes identifier = expected_bytes))) \<and>
     (let s = random_hex_str hex_encode (rng 1) 31 in
      on_ok (from_string hex_decode s) (\<lambda>identifier.
      on_ok (hex_decode s) (\<lambda>expected_bytes.
        drop 1 (to_bytes identifier) = expected_bytes \<and> to_bytes identifier ! 0 = 0))) \<and>
     (let s = random_hex_str hex_encode (rng 2) 33 in \<not> is_ok (from_string hex_decode s))"

text \<open>The five assertions on one comparison, and the one on its text.\<close>

definition compares_to :: "Identifier \<Rightarrow> Identifier \<Rightarrow> ComparisonResult \<Rightarrow> nat \<Rightarrow> bool" where
  "compares_to a b result diff_index \<longleftrightarrow>
     (let comp = compare a b in
      (case result of CompareEqual \<Rightarrow> a = b | CompareLess \<Rightarrow> a < b | CompareGreater \<Rightarrow> a > b) \<and>
      result = cmp_result comp \<and> a = cmp_left comp \<and> b = cmp_right comp \<and>
      diff_index = cmp_diff_index comp)"

definition compares_as ::
  "(u8 list \<Rightarrow> string) \<Rightarrow> Identifier \<Rightarrow> Identifier \<Rightarrow> ComparisonResult \<Rightarrow> nat \<Rightarrow> string \<Rightarrow> bool" where
  "compares_as hex_encode a b result diff_index text \<longleftrightarrow>
     compares_to a b result diff_index \<and> cmp_display hex_encode (compare a b) = Some text"

definition equal_to_itself :: "(u8 list \<Rightarrow> string) \<Rightarrow> Identifier \<Rightarrow> bool" where
  "equal_to_itself hex_encode a \<longleftrightarrow>
     compares_as hex_encode a a CompareEqual IDENTIFIER_SIZE_BYTES
       (id_display hex_encode a @ '' == '' @ id_display hex_encode a)"

definition test_identifier_compare ::
  "(u8 list \<Rightarrow> string) \<Rightarrow> (nat \<Rightarrow> nat \<Rightarrow> u8) \<Rightarrow> bool" where
  "test_identifier_compare hex_encode rng \<longleftrightarrow>
     on_ok (from_bytes (replicate IDENTIFIER_SIZE_BYTES 0)) (\<lambda>id_0.
     on_ok (from_bytes (replicate IDENTIFIER_SIZE_BYTES 127)) (\<lambda>id_1.
     on_ok (from_bytes (replicate IDENTIFIER_SIZE_BYTES 255)) (\<lambda>id_2.
       equal_to_itself hex_encode id_0 \<and> equal_to_itself hex_encode id_1 \<and>
       equal_to_itself hex_encode id_2 \<and>
       compares_as hex_encode id_0 id_1 CompareLess 0 ''00 < 7f (at byte 0)'' \<and>
       compares_as hex_encode id_1 id_0 CompareGreater 0 ''7f > 00 (at byte 0)'' \<and>
       compares_as hex_encode id_1 id_2 CompareLess 0 ''7f < ff (at byte 0)'' \<and>
       compares_as hex_encode id_2 id_1 CompareGreater 0 ''ff > 7f (at byte 0)'' \<and>
       compares_as hex_encode id_0 id_2 CompareLess 0 ''00 < ff (at byte 0)'' \<and>
       compares_as hex_encode id_2 id_0 CompareGreater 0 ''ff > 00 (at byte 0)''))) \<and>
     (let differing_byte_index = IDENTIFIER_SIZE_BYTES div 2;
          left_bytes = rand_bytes (rng 0) (differing_byte_index - 1);
          right_bytes = rand_bytes (rng 1) (differing_byte_index - 1)
      in
      on_ok (from_bytes (left_bytes @ [1] @ right_bytes)) (\<lambda>id_random_greater.
      on_ok (from_bytes (left_bytes @ [0] @ right_bytes)) (\<lambda>id_random_less.
        equal_to_itself hex_encode id_random_greater \<and>
        compares_to id_random_less id_random_less CompareEqual IDENTIFIER_SIZE_BYTES \<and>
        compares_as hex_encode id_random_greater id_random_less CompareGreater differing_byte_index
          (hex_encode (take (differing_byte_index + 1) (to_bytes id_random_greater)) @ '' > '' @
           hex_encode (take (differing_byte_index + 1) (to_bytes id_random_less)) @
           '' (at byte '' @ fmt_nat differing_byte_index @ '')'') \<and>
        compares_as hex_encode id_random_less id_random_greater CompareLess differing_byte_index
          (hex_encode (take (differing_byte_index + 1) (to_bytes id_random_less)) @ '' < '' @
           hex_encode (take (differing_byte_index + 1) (to_bytes id_random_greater)) @
           '' (at byte '' @ fmt_nat differing_byte_index @ '')''))))"

definition test_identifier_to_string ::
  "(u8 list \<Rightarrow> string) \<Rightarrow> (string \<Rightarrow> u8 list result) \<Rightarrow> (nat \<Rightarrow> u8) \<Rightarrow> bool" where
  "test_identifier_to_string hex_encode hex_decode rng \<longleftrightarrow>
     on_some (random_identifier hex_encode hex_decode rng) (\<lambda>i.
     on_ok (from_string hex_decode (id_display hex_encode i)) (\<lambda>id_from_str. i = id_from_str))"

section \<open>Identifiers\<close>

lemma on_ok_simps [simp]: "on_ok (Ok x) k = k x" "on_ok (Err e) k = False"
  by (simp_all add: on_ok_def)

lemma on_some_simps [simp]: "on_some (Some x) k = k x" "on_some None k = False"
  by (simp_all add: on_some_def)

lemma length_rand_bytes [simp]: "length (rand_bytes rng n) = n"
  by (simp add: rand_bytes_def)

lemma test_identifier_from_bytes_passes: "test_identifier_from_bytes rng"
  by (simp add: test_identifier_from_bytes_def from_bytes_def to_bytes_def bytes_of_pad32 size_defs)

lemma compare_refl: "compare a a = \<lparr>cmp_result = CompareEqual, cmp_left = a, cmp_right = a,
    cmp_diff_index = IDENTIFIER_SIZE_BYTES\<rparr>"
  using compare_meets_spec [of a a]
  by (cases "compare a a") (auto simp: compare_spec_def first_diff_def split: ComparisonResult.splits)

lemma compare_at:
  assumes "first_diff a b d"
  shows "compare a b = \<lparr>cmp_result = (if as_bytes a ! d < as_bytes b ! d then CompareLess else CompareGreater),
    cmp_left = a, cmp_right = b, cmp_diff_index = d\<rparr>"
proof -
  have "d' = d" if "first_diff a b d'" for d'
    using assms that unfolding first_diff_def by (metis linorder_neqE_nat)
  moreover have "a \<noteq> b" using assms by (auto simp: first_diff_def)
  ultimately show ?thesis
    using compare_meets_spec [of a b]
    by (cases "compare a b") (auto simp: compare_spec_def split: ComparisonResult.splits)
qed

lemma equal_to_itself_holds: "equal_to_itself hex_encode a"
  by (simp add: equal_to_itself_def compares_as_def compares_to_def compare_refl cmp_display_def Let_def)

lemma compares_as_less:
  assumes "first_diff a b d" "as_bytes a ! d < as_bytes b ! d"
  shows "compares_as hex_encode a b CompareLess d (hex_encode (take (Suc d) (as_bytes a)) @ '' < '' @
      hex_encode (take (Suc d) (as_bytes b)) @ '' (at byte '' @ fmt_nat d @ '')'')"
    "compares_as hex_encode b a CompareGreater d (hex_encode (take (Suc d) (as_bytes b)) @ '' > '' @
      hex_encode (take (Suc d) (as_bytes a)) @ '' (at byte '' @ fmt_nat d @ '')'')"
proof -
  have d: "first_diff b a d" "d < IDENTIFIER_SIZE_BYTES" "\<not> as_bytes b ! d < as_bytes a ! d"
    using assms by (auto simp: first_diff_def)
  have "a < b" using first_diff_less [OF assms] by (simp add: less_id_val)
  then show "compares_as hex_encode a b CompareLess d (hex_encode (take (Suc d) (as_bytes a)) @ '' < '' @
      hex_encode (take (Suc d) (as_bytes b)) @ '' (at byte '' @ fmt_nat d @ '')'')"
    "compares_as hex_encode b a CompareGreater d (hex_encode (take (Suc d) (as_bytes b)) @ '' > '' @
      hex_encode (take (Suc d) (as_bytes a)) @ '' (at byte '' @ fmt_nat d @ '')'')"
    using assms d by (simp_all add: compares_as_def compares_to_def compare_at [OF assms(1)] compare_at [OF d(1)]
        cmp_display_def display_prefixes_def slice_to_def Let_def)
qed

text \<open>The digits of \<^verbatim>\<open>hex::encode\<close> are documented: two lower-case digits for each byte.\<close>

locale lower_hex = hex_codec +
  assumes encode_lower: "hex_encode bs = plain_encode bs"
begin

lemma test_identifier_from_string_passes: "test_identifier_from_string hex_encode hex_decode rng"
  by (simp add: test_identifier_from_string_def random_hex_str_def from_string_def decode_encode
      from_bytes_def to_bytes_def bytes_of_pad32 size_defs)

lemma test_identifier_to_string_passes: "test_identifier_to_string hex_encode hex_decode rng"
  using printed_bytes.of_string_display [OF identifier_printed [OF hex_codec_axioms]]
  by (simp add: test_identifier_to_string_def random_identifier_draw)

lemma encode_digits: "hex_encode [0] = ''00''" "hex_encode [127] = ''7f''" "hex_encode [255] = ''ff''"
  by (simp_all add: encode_lower nibble_char_def char_of_def bit_Suc_0_iff)

lemma filled_compares:
  assumes "as_bytes a = replicate IDENTIFIER_SIZE_BYTES x" "as_bytes b = replicate IDENTIFIER_SIZE_BYTES y" "x < y"
  shows "compares_as hex_encode a b CompareLess 0
      (hex_encode [x] @ '' < '' @ hex_encode [y] @ '' (at byte 0)'')"
    "compares_as hex_encode b a CompareGreater 0
      (hex_encode [y] @ '' > '' @ hex_encode [x] @ '' (at byte 0)'')"
proof -
  have z: "0 < IDENTIFIER_SIZE_BYTES" by (simp add: size_defs)
  then have "first_diff a b 0" "as_bytes a ! 0 < as_bytes b ! 0" using assms by (auto simp: first_diff_def)
  note c = compares_as_less [OF this, of hex_encode]
  have "take (Suc 0) (as_bytes a) = [x]" "take (Suc 0) (as_bytes b) = [y]" "fmt_nat 0 = ''0''"
    using z by (simp_all add: assms take_Suc hd_replicate fmt_nat.simps digit_char_def char_of_def bit_Suc_0_iff)
  with c show "compares_as hex_encode a b CompareLess 0
      (hex_encode [x] @ '' < '' @ hex_encode [y] @ '' (at byte 0)'')"
    "compares_as hex_encode b a CompareGreater 0
      (hex_encode [y] @ '' > '' @ hex_encode [x] @ '' (at byte 0)'')" by simp_all
qed

lemma test_identifier_compare_passes: "test_identifier_compare hex_encode rng"
proof -
  let ?id = "\<lambda>bs. Identifier (pad32 bs)"
  have fill: "as_bytes (?id (replicate IDENTIFIER_SIZE_BYTES x)) = replicate IDENTIFIER_SIZE_BYTES x" for x
    by (simp add: as_bytes_def bytes_of_pad32)
  note c = filled_compares [OF fill fill]
  define l r where "l = rand_bytes (rng 0) (IDENTIFIER_SIZE_BYTES div 2 - 1)"
    and "r = rand_bytes (rng 1) (IDENTIFIER_SIZE_BYTES div 2 - 1)"
  have len: "length l = 15" "length r = 15" by (simp_all add: l_def r_def size_defs)
  then have mid: "as_bytes (?id (l @ [x] @ r)) = 0 # l @ [x] @ r" for x
    by (simp add: as_bytes_def bytes_of_pad32 size_defs)
  have "first_diff (?id (l @ [0] @ r)) (?id (l @ [1] @ r)) 16"
    "as_bytes (?id (l @ [0] @ r)) ! 16 < as_bytes (?id (l @ [1] @ r)) ! 16"
    unfolding first_diff_def mid using len by (auto simp: size_defs nth_Cons' nth_append)
  note r = compares_as_less [OF this, of hex_encode] and equal = equal_to_itself_holds [of hex_encode]
  have d: "IDENTIFIER_SIZE_BYTES div 2 = 16" by (simp add: size_defs)
  have ok: "from_bytes (replicate IDENTIFIER_SIZE_BYTES x) = Ok (?id (replicate IDENTIFIER_SIZE_BYTES x))"
    "from_bytes (l @ [x] @ r) = Ok (?id (l @ [x] @ r))" for x
    using len by (simp_all add: from_bytes_def size_defs)
  have same: "compares_to a a CompareEqual IDENTIFIER_SIZE_BYTES" for a
    using equal [of a] by (simp add: equal_to_itself_def compares_as_def)
  have shown: "hex_encode [0] @ '' < '' @ hex_encode [127] @ '' (at byte 0)'' = ''00 < 7f (at byte 0)''"
    "hex_encode [127] @ '' > '' @ hex_encode [0] @ '' (at byte 0)'' = ''7f > 00 (at byte 0)''"
    "hex_encode [127] @ '' < '' @ hex_encode [255] @ '' (at byte 0)'' = ''7f < ff (at byte 0)''"
    "hex_encode [255] @ '' > '' @ hex_encode [127] @ '' (at byte 0)'' = ''ff > 7f (at byte 0)''"
    "hex_encode [0] @ '' < '' @ hex_encode [255] @ '' (at byte 0)'' = ''00 < ff (at byte 0)''"
    "hex_encode [255] @ '' > '' @ hex_encode [0] @ '' (at byte 0)'' = ''ff > 00 (at byte 0)''"
    by (simp_all add: encode_digits)
  show ?thesis
    unfolding test_identifier_compare_def Let_def l_def [symmetric] r_def [symmetric] ok on_ok_simps
      to_bytes_as_bytes
    using c [of 0 127, unfolded shown] c [of 127 255, unfolded shown] c [of 0 255, unfolded shown] r same equal
    by (simp add: d)
qed

lemma test_membership_vector_from_string_passes:
  "test_membership_vector_from_string hex_encode hex_decode rng"
  by (simp add: test_membership_vector_from_string_def random_hex_str_def mv_from_string_def decode_encode
      mv_from_bytes_def mv_bytes_def bytes_of_pad32 size_defs)

lemma valid_decompose:
  assumes "p < IDENTIFIER_SIZE_BYTES * 8"
  shows "on_some (decompose_at_bit hex_encode mv p) (assert_valid_decompose hex_encode mv p)"
proof -
  have "p div 8 < IDENTIFIER_SIZE_BYTES" using assms by (simp add: div_less_iff_less_mult)
  then show ?thesis
    by (auto simp: decompose_at_bit_def assert_valid_decompose_def Let_def encode_lower)
qed

lemma fixed_vector_bytes:
  "\<exists>mv. mv_from_string hex_decode fixed_vector = Ok mv \<and> mv_bytes mv =
     [167, 56, 241, 77, 192, 117, 11, 127, 126, 76, 65, 143, 221, 163, 44, 66,
      78, 158, 207, 114, 128, 137, 45, 20, 100, 142, 64, 84, 102, 167, 111, 41]"
proof -
  let ?bs = "[167, 56, 241, 77, 192, 117, 11, 127, 126, 76, 65, 143, 221, 163, 44, 66,
      78, 158, 207, 114, 128, 137, 45, 20, 100, 142, 64, 84, 102, 167, 111, 41] :: u8 list"
  have "fixed_vector = hex_encode ?bs" unfolding encode_lower by code_simp
  then have "hex_decode fixed_vector = Ok ?bs" by (simp only: decode_encode)
  then show ?thesis
    by (simp add: mv_from_string_def mv_from_bytes_def mv_bytes_def bytes_of_pad32 size_defs)
qed

lemma decompose_tests_pass:
  "test_decompose_at_bit_fixed_mv_fixed_pivot hex_encode hex_decode"
  "test_decompose_at_bit_exhaustive_pivot hex_encode hex_decode"
  "test_decompose_at_bit_exhaustive_pivot_random_mvs hex_encode hex_decode rng"
proof -
  obtain mv where mv: "mv_from_string hex_decode fixed_vector = Ok mv" "mv_bytes mv =
     [167, 56, 241, 77, 192, 117, 11, 127, 126, 76, 65, 143, 221, 163, 44, 66,
      78, 158, 207, 114, 128, 137, 45, 20, 100, 142, 64, 84, 102, 167, 111, 41]"
    using fixed_vector_bytes by blast
  have "plain_encode [167, 56, 241, 77, 192] = ''a738f14dc0''" "fmt_08b 117 = ''01110101''"
    "plain_encode [11, 127, 126, 76, 65, 143, 221, 163, 44, 66, 78, 158, 207, 114, 128, 137, 45, 20,
       100, 142, 64, 84, 102, 167, 111, 41] = ''0b7f7e4c418fdda32c424e9ecf7280892d14648e405466a76f29''"
    by code_simp+
  then show "test_decompose_at_bit_fixed_mv_fixed_pivot hex_encode hex_decode"
    by (simp add: test_decompose_at_bit_fixed_mv_fixed_pivot_def mv decompose_at_bit_def encode_lower
        size_defs Let_def)
  show "test_decompose_at_bit_exhaustive_pivot hex_encode hex_decode"
    by (simp add: test_decompose_at_bit_exhaustive_pivot_def mv(1) valid_decompose)
  show "test_decompose_at_bit_exhaustive_pivot_random_mvs hex_encode hex_decode rng"
    by (simp add: test_decompose_at_bit_exhaustive_pivot_random_mvs_def random_membership_vector_draw
        valid_decompose)
qed

end

interpretation plain_lower: lower_hex plain_encode plain_decode
  by unfold_locales simp

section \<open>Membership vectors and fixtures\<close>

lemma test_membership_vector_from_bytes_passes: "test_membership_vector_from_bytes rng"
  by (simp add: test_membership_vector_from_bytes_def mv_from_bytes_def mv_bytes_def bytes_of_pad32 size_defs)

lemma common_prefix_at:
  assumes "mv_bytes a = ps @ x # xs" "mv_bytes b = ps @ y # ys" "x \<noteq> y"
  shows "common_prefix_bit a b = length ps * 8 + lcp (byte_bits x) (byte_bits y)"
  using assms by (simp add: common_prefix_bit_lcp mv_bits_def lcp_append_diff length_concat_byte_bits)

lemma common_prefix_same: "common_prefix_bit a a = IDENTIFIER_SIZE_BYTES * 8"
  by (simp add: common_prefix_bit_lcp)

lemma lcp_flipped:
  assumes "i < 8"
  shows "lcp (byte_bits x) (byte_bits (x XOR push_bit i 1)) = 7 - i"
proof -
  have flip: "bit (x XOR push_bit i 1) j = (bit x j \<noteq> (j = i))" if "j < 8" for j
    using that by (auto simp: bit_xor_iff bit_exp_iff)
  have "[0..<8] = [0..<i] @ i # [Suc i..<8]"
    using assms upt_add_eq_append [of 0 i "8 - i"] by (simp add: upt_conv_Cons)
  then have rev: "rev [0..<8] = rev [Suc i..<8] @ i # rev [0..<i]" by simp
  have same: "map (bit (x XOR push_bit i 1)) (rev [Suc i..<8]) = map (bit x) (rev [Suc i..<8])"
    by (auto simp: flip simp del: push_bit_of_1)
  show ?thesis
    unfolding byte_bits_def rev map_append same lcp_append_same using flip [OF assms]
    by (simp del: push_bit_of_1)
qed

abbreviation mv_of :: "u8 list \<Rightarrow> MembershipVector" where
  "mv_of bs \<equiv> MembershipVector (pad32 bs)"

lemma on_ok_mv: "length bs = 32 \<Longrightarrow> on_ok (mv_from_bytes bs) k = k (mv_of bs)"
  by (simp add: mv_from_bytes_def size_defs)

lemma common_prefix_lists:
  assumes "length ps + length xs = 31" "length ys = length xs" "x \<noteq> y"
  shows "common_prefix_bit (mv_of (ps @ x # xs)) (mv_of (ps @ y # ys)) =
    length ps * 8 + lcp (byte_bits x) (byte_bits y)"
  using assms by (intro common_prefix_at) (simp_all add: mv_bytes_def bytes_of_pad32 size_defs)

lemmas common_prefix_heads = common_prefix_lists [of "[]", simplified]
  common_prefix_lists [of "[z]" for z, simplified]

lemma byte_prefixes:
  "lcp (byte_bits 0) (byte_bits 255) = 0" "lcp (byte_bits 127) (byte_bits 255) = 0"
  "lcp (byte_bits 255) (byte_bits 127) = 0" "lcp (byte_bits 0) (byte_bits 127) = 1"
  "lcp (byte_bits 127) (byte_bits 0) = 1" "lcp (byte_bits 63) (byte_bits 0) = 2"
  "lcp (byte_bits 0) (byte_bits 63) = 2" "lcp (byte_bits 63) (byte_bits 255) = 0"
  "lcp (byte_bits 255) (byte_bits 63) = 0" "lcp (byte_bits 255) (byte_bits 0) = 0"
  "lcp (byte_bits 128) (byte_bits 255) = 1" "lcp (byte_bits 255) (byte_bits 128) = 1"
  "lcp (byte_bits 128) (byte_bits 0) = 0" "lcp (byte_bits 0) (byte_bits 128) = 0"
  "lcp (byte_bits 239) (byte_bits 255) = 3" "lcp (byte_bits 255) (byte_bits 239) = 3"
  by (simp_all add: byte_bits_def upt_rec)

lemma replicate_heads: "replicate 32 x = x # x # replicate 30 x" "replicate 31 x = x # replicate 30 x"
  by (simp_all add: numeral_eq_Suc)

lemma test_common_bit_prefix_passes:
  assumes "random_index < IDENTIFIER_SIZE_BYTES" "random_bit_index < 8"
  shows "test_common_bit_prefix random_index rng byte_1 random_bit_index"
proof -
  define l r where "l = rand_bytes (rng 0) random_index"
    and "r = rand_bytes (rng 1) (IDENTIFIER_SIZE_BYTES - random_index - 1)"
  have len: "length l = random_index" "length l + length r = 31"
    using assms(1) by (simp_all add: l_def r_def size_defs)
  let ?y = "byte_1 XOR push_bit random_bit_index 1"
  have "bit ?y random_bit_index \<noteq> bit byte_1 random_bit_index"
    using assms(2) by (simp add: bit_xor_iff bit_exp_iff)
  then have y: "byte_1 \<noteq> ?y" by auto
  have random: "common_prefix_bit (mv_of (l @ byte_1 # r)) (mv_of (l @ ?y # r)) =
      random_index * 8 + (7 - random_bit_index)"
    using common_prefix_lists [OF len(2) refl y] lcp_flipped [OF assms(2)] len(1) by simp
  show ?thesis
    unfolding test_common_bit_prefix_def Let_def l_def [symmetric] r_def [symmetric]
    using len random
    by (simp add: on_ok_mv size_defs(1) replicate_heads common_prefix_same common_prefix_heads
        common_prefix_lists byte_prefixes)
qed

lemma compare_less_iff: "cmp_result (compare a b) = CompareLess \<longleftrightarrow> a < b"
  by (auto simp: less_Identifier_def partial_cmp_def cmp_def split: ComparisonResult.splits)

lemma ascending_from_iff: "ascending_from i is \<longleftrightarrow> sorted_wrt (<) (i # is)"
proof (induction "is" arbitrary: i)
  case (Cons j "is")
  then show ?case using compare_less_iff [of i j] by (auto simp: eq_commute [of CompareLess])
qed simp

lemma test_random_identifiers_iff:
  "test_random_identifiers draws \<longleftrightarrow> draws \<noteq> [] \<and> distinct draws"
proof (cases "sort draws")
  case (Cons i "is")
  have "test_random_identifiers draws \<longleftrightarrow> sorted_wrt (<) (sort draws)"
    by (simp add: test_random_identifiers_def random_sorted_identifiers_def Cons ascending_from_iff)
  also have "\<dots> \<longleftrightarrow> distinct draws" by (simp add: strict_sorted_iff)
  finally show ?thesis using Cons by auto
next
  case Nil
  then have "draws = []" by (metis length_0_conv length_sort)
  then show ?thesis by (simp add: test_random_identifiers_def random_sorted_identifiers_def)
qed

lemma be_val_all_zeros: "be_val (replicate n 0) = 0"
  by (induction n) simp_all

lemma be_val_ones: "be_val (replicate n 255) + 1 = 256 ^ n"
  by (induction n) simp_all

lemma extremes: "ID_ZERO \<le> i" "i \<le> ID_MAX" "ID_ZERO \<noteq> ID_MAX"
proof -
  have "id_val ID_ZERO = 0" by (simp add: id_val_def as_bytes_def ID_ZERO_def be_val_all_zeros)
  then show "ID_ZERO \<le> i" by (simp add: less_eq_id_val)
  have "id_val ID_MAX + 1 = 256 ^ IDENTIFIER_SIZE_BYTES"
    by (simp only: id_val_def as_bytes_def ID_MAX_def id_array.simps bytes_of_fill32 be_val_ones)
  moreover have "id_val i < 256 ^ IDENTIFIER_SIZE_BYTES"
    using be_val_less [of "as_bytes i"] by (simp add: id_val_def)
  ultimately show "i \<le> ID_MAX" by (simp add: less_eq_id_val)
  show "ID_ZERO \<noteq> ID_MAX"
    using \<open>id_val ID_ZERO = 0\<close> \<open>id_val ID_MAX + 1 = _\<close> by (auto simp: size_defs)
qed

lemma greater_than_loop_result:
  "greater_than_loop ps n =
     (if (ID_ZERO, ID_ZERO) \<in> set ps then None
      else Some (n + length (filter (\<lambda>(target, draw). target = ID_MAX) ps)))"
proof (induction ps arbitrary: n)
  case (Cons q ps)
  obtain target draw where q: "q = (target, draw)" by (cases q)
  have zero: "ID_ZERO < draw \<longleftrightarrow> draw \<noteq> ID_ZERO" using extremes(1) [of draw] by auto
  consider "target = ID_ZERO" | "target = ID_MAX" | "target \<noteq> ID_ZERO" "target \<noteq> ID_MAX" by blast
  then show ?case
  proof cases
    case 3
    then obtain g where "random_identifier_greater_than draw target = Some g" "target < g"
      using greater_than_result by blast
    then show ?thesis using Cons 3 q by auto
  qed (use Cons q zero extremes(3) in \<open>auto simp: random_identifier_greater_than_def\<close>)
qed simp

lemma less_than_loop_result:
  "less_than_loop ps n =
     (if (ID_MAX, ID_MAX) \<in> set ps then None
      else Some (n + length (filter (\<lambda>(target, draw). target = ID_ZERO) ps)))"
proof (induction ps arbitrary: n)
  case (Cons q ps)
  obtain target draw where q: "q = (target, draw)" by (cases q)
  have max: "draw < ID_MAX \<longleftrightarrow> draw \<noteq> ID_MAX" using extremes(2) [of draw] by auto
  consider "target = ID_ZERO" | "target = ID_MAX" | "target \<noteq> ID_ZERO" "target \<noteq> ID_MAX" by blast
  then show ?case
  proof cases
    case 3
    then obtain l where "random_identifier_less_than draw target = Some l" "l < target"
      using less_than_result by blast
    then show ?thesis using Cons 3 q by auto
  qed (use Cons q max extremes(3) in \<open>auto simp: random_identifier_less_than_def\<close>)
qed simp

lemma all_filtered: "length (filter P xs) < length xs \<longleftrightarrow> (\<exists>x \<in> set xs. \<not> P x)"
  by (metis filter_True le_neq_implies_less length_filter_le length_filter_less less_irrefl)

section \<open>Properties\<close>

text \<open>
  C36. The unit tests of \<^verbatim>\<open>identifier.rs\<close>, \<^verbatim>\<open>address.rs\<close> and \<^verbatim>\<open>identity.rs\<close> pass whatever bytes the random
  helpers draw.
\<close>

theorem identifier_tests_pass:
  assumes "lower_hex hex_encode hex_decode" "s128 ''localhost'' = ''localhost''" "s8 ''1234'' = ''1234''"
  shows "test_identifier_from_bytes rng \<and> test_identifier_from_string hex_encode hex_decode rng \<and>
    test_identifier_compare hex_encode rng \<and> test_identifier_to_string hex_encode hex_decode draws \<and>
    test_address s128 s8 \<and> test_identity hex_encode hex_decode s128 s8 rng"
proof -
  have codec: "hex_codec hex_encode hex_decode" using assms(1) by (simp add: lower_hex_def)
  show ?thesis
    using test_identifier_from_bytes_passes lower_hex.test_identifier_from_string_passes [OF assms(1)]
      lower_hex.test_identifier_compare_passes [OF assms(1)]
      lower_hex.test_identifier_to_string_passes [OF assms(1)] assms(2,3)
    by (simp add: test_address_def test_identity_def address_new_def identity_new_def
        hex_codec.random_identifier_draw [OF codec] hex_codec.random_membership_vector_draw [OF codec])
qed

theorem identifier_tests_pass_witness:
  "test_identifier_compare plain_encode (\<lambda>k i. word_of_nat (k + i)) \<and>
   test_identifier_to_string plain_encode plain_decode (\<lambda>_. 7)"
  using identifier_tests_pass [OF plain_lower.lower_hex_axioms, of id id] by simp

text \<open>
  C37. The unit tests of \<^verbatim>\<open>memvec.rs\<close> pass for every draw of bytes, of a byte index below 32 and of a
  bit index below 8.
\<close>

theorem memvec_tests_pass:
  assumes "lower_hex hex_encode hex_decode" "random_index < IDENTIFIER_SIZE_BYTES" "random_bit_index < 8"
  shows "test_membership_vector_from_bytes rng \<and>
    test_membership_vector_from_string hex_encode hex_decode rng \<and>
    test_common_bit_prefix random_index rng byte_1 random_bit_index \<and>
    test_decompose_at_bit_fixed_mv_fixed_pivot hex_encode hex_decode \<and>
    test_decompose_at_bit_exhaustive_pivot hex_encode hex_decode \<and>
    test_decompose_at_bit_exhaustive_pivot_random_mvs hex_encode hex_decode rng"
  using test_membership_vector_from_bytes_passes lower_hex.test_membership_vector_from_string_passes [OF assms(1)]
    test_common_bit_prefix_passes [OF assms(2,3)] lower_hex.decompose_tests_pass [OF assms(1)]
  by simp

theorem memvec_tests_pass_witness:
  "test_common_bit_prefix 4 (\<lambda>k i. word_of_nat (k + i)) 90 3 \<and>
   test_decompose_at_bit_fixed_mv_fixed_pivot plain_encode plain_decode"
  using memvec_tests_pass [OF plain_lower.lower_hex_axioms, of 4 3] by (simp add: size_defs)

text \<open>
  C38. The tests of the fixtures, with their draws made explicit: the order test passes exactly when
  no identifier is drawn twice; the two generator tests fail only when the extreme at which the
  generator returns an unconstrained draw is drawn as target and as draw, or when every target
  is the extreme that is skipped.
\<close>

theorem fixture_tests_outcome:
  assumes "length pairs = 1000"
  shows "(test_random_identifiers ids \<longleftrightarrow> ids \<noteq> [] \<and> distinct ids) \<and>
    (test_random_identifier_greater_than pairs \<longleftrightarrow>
       (ID_ZERO, ID_ZERO) \<notin> set pairs \<and> (\<exists>q \<in> set pairs. fst q \<noteq> ID_MAX)) \<and>
    (test_random_identifier_less_than pairs \<longleftrightarrow>
       (ID_MAX, ID_MAX) \<notin> set pairs \<and> (\<exists>q \<in> set pairs. fst q \<noteq> ID_ZERO))"
  using test_random_identifiers_iff [of ids] all_filtered [of "\<lambda>(t, d). t = ID_MAX" pairs]
    all_filtered [of "\<lambda>(t, d). t = ID_ZERO" pairs] assms
  by (auto simp: test_random_identifier_greater_than_def test_random_identifier_less_than_def
      greater_than_loop_result less_than_loop_result case_prod_beta)

theorem fixture_tests_outcome_witness:
  "test_random_identifiers [sample_id 3, sample_id 1, sample_id 2] \<and>
   \<not> test_random_identifier_greater_than (replicate 1000 (ID_ZERO, ID_ZERO))"
  using fixture_tests_outcome [of "replicate 1000 (ID_ZERO, ID_ZERO)" "[sample_id 3, sample_id 1, sample_id 2]"]
  by simp

end
