(* ===== verification/Node_Tests.thy ===== *)
theory Node_Tests
  imports Async_Run Unit_Tests
begin

unbundle bit_operations_syntax

text \<open>
  The unit tests of \<^verbatim>\<open>base_node.rs\<close> as executable definitions over their random draws. The mocked
  network of a test is the predicate that its closure checks on every message it is given; a
  message that the closure does not accept, or one that is sent when the mock declares no
  \<^verbatim>\<open>send_event\<close>, fails the test.
\<close>

section \<open>Definitions\<close>

subsection \<open>The harness\<close>

type_synonym mock = "Identifier \<Rightarrow> Event \<Rightarrow> bool"

definition fresh_node ::
  "Identifier \<Rightarrow> MembershipVector \<Rightarrow> Address \<Rightarrow> InnerArrayLookupTable \<Rightarrow> BaseNode" where
  "fresh_node i v a lt = node_new (core_new i v lt) a"

text \<open>\<^verbatim>\<open>process_incoming_event(..).expect(..)\<close>, with no message or with one message to the mock.\<close>

definition handled_quietly :: "BaseNode \<Rightarrow> Identifier \<Rightarrow> Event \<Rightarrow> (BaseNode \<Rightarrow> bool) \<Rightarrow> bool" where
  "handled_quietly n origin ev k =
     (case process_incoming_event n origin ev of
        (n', Done (Ok _)) \<Rightarrow> k n'
      | _ \<Rightarrow> False)"

definition handled_sending :: "mock \<Rightarrow> BaseNode \<Rightarrow> Identifier \<Rightarrow> Event \<Rightarrow> bool" where
  "handled_sending mock n origin ev =
     (case process_incoming_event n origin ev of
        (n', Send dest ev' msg) \<Rightarrow> mock dest ev'
      | _ \<Rightarrow> False)"

text \<open>The lookup table that a test keeps is the one its node holds.\<close>

abbreviation table_of :: "BaseNode \<Rightarrow> InnerArrayLookupTable" where
  "table_of n \<equiv> core_lt (node_core n)"

abbreviation waiter_map :: "BaseNode \<Rightarrow> Nonce \<rightharpoonup> Waiter" where
  "waiter_map n \<equiv> request_id_map (node_requests n)"

subsection \<open>Requests of one node\<close>

definition test_base_node :: "Identifier \<Rightarrow> MembershipVector \<Rightarrow> Address \<Rightarrow> bool" where
  "test_base_node i mem_vec a \<longleftrightarrow>
     (let node = fresh_node i mem_vec a new_table in node_id node = i \<and> node_mem_vec node = mem_vec)"

definition test_get_max_level_resolves ::
  "await_fn \<Rightarrow> BaseNode \<Rightarrow> Identifier \<Rightarrow> Nonce \<Rightarrow> bool" where
  "test_get_max_level_resolves aw node introducer nonce \<longleftrightarrow>
     (let expected_level = 7; (n1, ch, dest, ev) = get_max_level_begin node introducer nonce in
      dest = introducer \<and>
      (case ev of
         GetMaxLevelOp req \<Rightarrow>
           handled_quietly n1 introducer
             (RetMaxLevelOp \<lparr>mlres_nonce = mlreq_nonce req, mlres_max_level = expected_level\<rparr>) (\<lambda>n2.
           snd (get_max_level_end aw n2 nonce ch (Ok ())) = Ok expected_level)
       | _ \<Rightarrow> False))"

definition test_send_search_by_id_req_resolves ::
  "await_fn \<Rightarrow> BaseNode \<Rightarrow> Identifier \<Rightarrow> Identifier \<Rightarrow> Nonce \<Rightarrow> bool" where
  "test_send_search_by_id_req_resolves aw node introducer expected_anchor nonce \<longleftrightarrow>
     (let search_level = 3;
          (n1, ch, dest, ev) =
            send_search_by_id_req_begin node introducer nonce (node_id node) search_level Right
      in
      dest = introducer \<and>
      (case ev of
         SearchByIdRequest req \<Rightarrow> sreq_direction req = Right \<and> sreq_level req = search_level
       | _ \<Rightarrow> False) \<and>
      handled_quietly n1 introducer
        (SearchByIdResponse \<lparr>sres_nonce = nonce, sres_target = node_id node,
           sres_termination_level = search_level, sres_result = expected_anchor\<rparr>) (\<lambda>n2.
      on_ok (snd (send_search_by_id_req_end aw n2 nonce ch (Ok ()))) (\<lambda>res.
        sres_result res = expected_anchor)))"

definition test_get_neighbor_resolves ::
  "await_fn \<Rightarrow> BaseNode \<Rightarrow> Identifier \<Rightarrow> Identity \<Rightarrow> Nonce \<Rightarrow> bool" where
  "test_get_neighbor_resolves aw node from expected_neighbor nonce \<longleftrightarrow>
     (let query_level = 3; (n1, ch, dest, ev) = get_neighbor_begin node from Right query_level nonce in
      dest = from \<and>
      (case ev of
         GetNeighborOp req \<Rightarrow>
           nreq_direction req = Right \<and> nreq_level req = query_level \<and>
           handled_quietly n1 from
             (RetNeighborOp \<lparr>nres_nonce = nreq_nonce req, nres_level = query_level,
                nres_direction = Right, nres_neighbor = Some expected_neighbor\<rparr>) (\<lambda>n2.
           on_ok (snd (get_neighbor_end aw n2 nonce ch (Ok ()))) (\<lambda>neighbor.
             map_option ident_id neighbor = Some (ident_id expected_neighbor)))
       | _ \<Rightarrow> False))"

definition test_get_neighbor_resolves_to_none ::
  "await_fn \<Rightarrow> BaseNode \<Rightarrow> Identifier \<Rightarrow> Nonce \<Rightarrow> bool" where
  "test_get_neighbor_resolves_to_none aw node from nonce \<longleftrightarrow>
     (let query_level = 2; (n1, ch, dest, ev) = get_neighbor_begin node from Right query_level nonce in
      dest = from \<and>
      (case ev of
         GetNeighborOp req \<Rightarrow>
           handled_quietly n1 from
             (RetNeighborOp \<lparr>nres_nonce = nreq_nonce req, nres_level = query_level,
                nres_direction = Right, nres_neighbor = None\<rparr>) (\<lambda>n2.
           snd (get_neighbor_end aw n2 nonce ch (Ok ())) = Ok None)
       | _ \<Rightarrow> False))"

definition test_get_max_level_times_out_and_cleans_up ::
  "await_fn \<Rightarrow> BaseNode \<Rightarrow> Identifier \<Rightarrow> Nonce \<Rightarrow> bool" where
  "test_get_max_level_times_out_and_cleans_up aw node introducer nonce \<longleftrightarrow>
     (let (n1, ch, dest, ev) = get_max_level_begin node introducer nonce;
          (n2, result) = get_max_level_end aw n1 nonce ch (Ok ())
      in \<not> is_ok result \<and> waiter_map n2 = Map.empty)"

text \<open>
  Aborting the task drops the future at its await: the receiver and the guard, nothing else.
\<close>

definition test_get_max_level_cleans_up_on_cancellation ::
  "BaseNode \<Rightarrow> Identifier \<Rightarrow> Nonce \<Rightarrow> bool" where
  "test_get_max_level_cleans_up_on_cancellation node introducer nonce \<longleftrightarrow>
     (let (n1, ch, dest, ev) = get_max_level_begin node introducer nonce in
      dest = introducer \<and> (case ev of GetMaxLevelOp req \<Rightarrow> True | _ \<Rightarrow> False) \<and>
      waiter_map n1 \<noteq> Map.empty \<and> waiter_map (unpark n1 nonce ch) = Map.empty)"

subsection \<open>Requests answered by one node\<close>

definition test_process_incoming_event_answers_get_max_level_request ::
  "(InnerArrayLookupTable \<Rightarrow> BaseNode) \<Rightarrow> Identity \<Rightarrow> Identifier \<Rightarrow> Nonce \<Rightarrow> bool" where
  "test_process_incoming_event_answers_get_max_level_request node seed origin nonce \<longleftrightarrow>
     (let expected_level = 4 in
      on_some (unwrap_update seed expected_level Right new_table) (\<lambda>lt.
      handled_sending (\<lambda>dest ev. dest = origin \<and>
          (case ev of RetMaxLevelOp res \<Rightarrow> mlres_max_level res = expected_level | _ \<Rightarrow> False))
        (node lt) origin (GetMaxLevelOp \<lparr>mlreq_nonce = nonce, mlreq_origin = origin\<rparr>)))"

definition test_process_incoming_event_answers_get_neighbor_request ::
  "(InnerArrayLookupTable \<Rightarrow> BaseNode) \<Rightarrow> Identity \<Rightarrow> Identifier \<Rightarrow> Nonce \<Rightarrow> bool" where
  "test_process_incoming_event_answers_get_neighbor_request node expected_neighbor origin nonce \<longleftrightarrow>
     on_some (unwrap_update expected_neighbor 0 Right new_table) (\<lambda>lt.
     handled_sending (\<lambda>dest ev. dest = origin \<and>
         (case ev of
            RetNeighborOp res \<Rightarrow> nres_level res = 0 \<and> nres_direction res = Right \<and>
              map_option ident_id (nres_neighbor res) = Some (ident_id expected_neighbor)
          | _ \<Rightarrow> False))
       (node lt) origin (GetNeighborOp \<lparr>nreq_nonce = nonce, nreq_origin = origin, nreq_level = 0,
          nreq_direction = Right\<rparr>))"

text \<open>In the following, \<open>draw\<close> is what \<^verbatim>\<open>random_identifier\<close> gives inside a generator.\<close>

definition test_process_incoming_event_links_get_link_request_directly ::
  "Identifier \<Rightarrow> MembershipVector \<Rightarrow> Address \<Rightarrow> Identifier \<Rightarrow> MembershipVector \<Rightarrow> Address \<Rightarrow> Nonce \<Rightarrow> bool" where
  "test_process_incoming_event_links_get_link_request_directly i mem_vec address draw v a nonce \<longleftrightarrow>
     on_some (random_identifier_greater_than draw i) (\<lambda>c.
       let candidate = identity_new c v a in
       handled_sending (\<lambda>dest ev. dest = ident_id candidate \<and>
           (case ev of
              SetLinkOp res \<Rightarrow> lres_dir res = Left \<and> lres_level res = 0 \<and>
                map_option ident_id (lres_linked res) = Some i
            | _ \<Rightarrow> False))
         (fresh_node i mem_vec address new_table) (ident_id candidate)
         (GetLinkOp \<lparr>lreq_nonce = nonce, lreq_candidate = candidate, lreq_dir = Right, lreq_level = 0\<rparr>))"

definition test_process_incoming_event_forwards_get_link_request ::
  "Identifier \<Rightarrow> MembershipVector \<Rightarrow> Address \<Rightarrow> Identifier \<Rightarrow> Identifier \<Rightarrow> (nat \<Rightarrow> MembershipVector)
   \<Rightarrow> (nat \<Rightarrow> Address) \<Rightarrow> Nonce \<Rightarrow> bool" where
  "test_process_incoming_event_forwards_get_link_request i mem_vec address draw draw' v a nonce \<longleftrightarrow>
     on_some (random_identifier_greater_than draw i) (\<lambda>existing_id.
     on_some (random_identifier_greater_than draw' existing_id) (\<lambda>c.
       let candidate = identity_new c (v 0) (a 0); existing = identity_new existing_id (v 1) (a 1) in
       on_some (unwrap_update existing 0 Right new_table) (\<lambda>lt.
       handled_sending (\<lambda>dest ev. dest = ident_id existing \<and>
           (case ev of
              GetLinkOp req \<Rightarrow> ident_id (lreq_candidate req) = ident_id candidate \<and>
                lreq_dir req = Right \<and> lreq_level req = 0
            | _ \<Rightarrow> False))
         (fresh_node i mem_vec address lt) (ident_id candidate)
         (GetLinkOp \<lparr>lreq_nonce = nonce, lreq_candidate = candidate, lreq_dir = Right,
            lreq_level = 0\<rparr>))))"

definition test_send_link_request_resolves ::
  "await_fn \<Rightarrow> Identifier \<Rightarrow> MembershipVector \<Rightarrow> Address \<Rightarrow> Identifier \<Rightarrow> Identifier \<Rightarrow> MembershipVector
   \<Rightarrow> Address \<Rightarrow> Nonce \<Rightarrow> bool" where
  "test_send_link_request_resolves aw i mem_vec address dest draw v a nonce \<longleftrightarrow>
     on_some (random_identifier_less_than draw i) (\<lambda>l.
       let linked_identity = identity_new l v a;
           (n1, ch, event_dest, ev) =
             send_link_request_begin (fresh_node i mem_vec address new_table) dest Right 0 nonce
       in
       event_dest = dest \<and>
       (case ev of
          GetLinkOp req \<Rightarrow>
            lreq_candidate req = identity_new i mem_vec address \<and> lreq_dir req = Right \<and>
            lreq_level req = 0 \<and>
            handled_quietly n1 dest
              (SetLinkOp \<lparr>lres_nonce = lreq_nonce req, lres_dir = Left, lres_level = 0,
                 lres_linked = Some linked_identity\<rparr>) (\<lambda>n2.
            let (n3, send_result) = send_link_request_end aw n2 nonce ch (Ok ()) in
            is_ok send_result \<and> entry_id_is (table_of n3) 0 Left (Some (ident_id linked_identity)))
        | _ \<Rightarrow> False))"

definition test_set_link_op_rejects_out_of_range_level ::
  "await_fn \<Rightarrow> Identifier \<Rightarrow> MembershipVector \<Rightarrow> Address \<Rightarrow> Identifier \<Rightarrow> Identifier \<Rightarrow> MembershipVector
   \<Rightarrow> Address \<Rightarrow> Nonce \<Rightarrow> bool" where
  "test_set_link_op_rejects_out_of_range_level aw i mem_vec address origin draw v a nonce \<longleftrightarrow>
     on_some (random_identifier_less_than draw i) (\<lambda>l.
       let linked_identity = identity_new l v a;
           (rx, n1) = park (fresh_node i mem_vec address new_table) nonce
             (\<lambda>tx. Link tx LOOKUP_TABLE_LEVELS Left)
       in
       handled_quietly n1 origin
         (SetLinkOp \<lparr>lres_nonce = nonce, lres_dir = Left, lres_level = LOOKUP_TABLE_LEVELS,
            lres_linked = Some linked_identity\<rparr>) (\<lambda>n2.
       (case await_reply aw rx (node_requests n2) of
          Received (ReplyLink resolved) \<Rightarrow> lres_nonce resolved = nonce
        | _ \<Rightarrow> False) \<and>
       get_entry (table_of n2) 0 Left = Ok None))"

definition test_get_link_op_rejects_a_wrong_side_candidate ::
  "Identifier \<Rightarrow> MembershipVector \<Rightarrow> Address \<Rightarrow> Identifier \<Rightarrow> MembershipVector \<Rightarrow> Address \<Rightarrow> Nonce \<Rightarrow> bool" where
  "test_get_link_op_rejects_a_wrong_side_candidate i mem_vec address draw v a nonce \<longleftrightarrow>
     on_some (random_identifier_less_than draw i) (\<lambda>c.
       let candidate = identity_new c v a in
       handled_quietly (fresh_node i mem_vec address new_table) (ident_id candidate)
         (GetLinkOp \<lparr>lreq_nonce = nonce, lreq_candidate = candidate, lreq_dir = Right, lreq_level = 0\<rparr>)
         (\<lambda>n. get_entry (table_of n) 0 Right = Ok None))"

definition test_get_link_op_rejects_a_prefix_mismatch_above_level_zero ::
  "Identifier \<Rightarrow> MembershipVector \<Rightarrow> Address \<Rightarrow> Identifier \<Rightarrow> Address \<Rightarrow> Nonce \<Rightarrow> bool" where
  "test_get_link_op_rejects_a_prefix_mismatch_above_level_zero i mem_vec address draw a nonce \<longleftrightarrow>
     (let far_bytes = (mv_bytes mem_vec)[0 := mv_bytes mem_vec ! 0 XOR 0x80] in
      on_some (random_identifier_greater_than draw i) (\<lambda>c.
      on_ok (mv_from_bytes far_bytes) (\<lambda>far.
        let candidate = identity_new c far a in
        handled_quietly (fresh_node i mem_vec address new_table) (ident_id candidate)
          (GetLinkOp \<lparr>lreq_nonce = nonce, lreq_candidate = candidate, lreq_dir = Right, lreq_level = 1\<rparr>)
          (\<lambda>n. get_entry (table_of n) 1 Right = Ok None))))"

definition test_set_link_op_rejects_a_wrong_side_linked_node ::
  "Identifier \<Rightarrow> MembershipVector \<Rightarrow> Address \<Rightarrow> Identifier \<Rightarrow> Identifier \<Rightarrow> MembershipVector \<Rightarrow> Address
   \<Rightarrow> Nonce \<Rightarrow> bool" where
  "test_set_link_op_rejects_a_wrong_side_linked_node i mem_vec address origin draw v a nonce \<longleftrightarrow>
     on_some (random_identifier_less_than draw i) (\<lambda>l.
       handled_quietly (fresh_node i mem_vec address new_table) origin
         (SetLinkOp \<lparr>lres_nonce = nonce, lres_dir = Right, lres_level = 0,
            lres_linked = Some (identity_new l v a)\<rparr>)
         (\<lambda>n. get_entry (table_of n) 0 Right = Ok None))"

definition test_set_link_op_ignores_a_reply_naming_another_slot ::
  "Identifier \<Rightarrow> MembershipVector \<Rightarrow> Address \<Rightarrow> Identifier \<Rightarrow> Identifier \<Rightarrow> MembershipVector \<Rightarrow> Address
   \<Rightarrow> Nonce \<Rightarrow> bool" where
  "test_set_link_op_ignores_a_reply_naming_another_slot i mem_vec address origin draw v a nonce \<longleftrightarrow>
     on_some (random_identifier_greater_than draw i) (\<lambda>l.
       let (rx, n1) = park (fresh_node i mem_vec address new_table) nonce (\<lambda>tx. Link tx 0 Left) in
       handled_quietly n1 origin
         (SetLinkOp \<lparr>lres_nonce = nonce, lres_dir = Right, lres_level = 0,
            lres_linked = Some (identity_new l v a)\<rparr>)
         (\<lambda>n2. waiter_map n2 nonce \<noteq> None))"

definition test_set_link_op_applies_an_unsolicited_write ::
  "Identifier \<Rightarrow> MembershipVector \<Rightarrow> Address \<Rightarrow> Identifier \<Rightarrow> Identifier \<Rightarrow> MembershipVector \<Rightarrow> Address
   \<Rightarrow> Nonce \<Rightarrow> bool" where
  "test_set_link_op_applies_an_unsolicited_write i mem_vec address origin draw v a nonce \<longleftrightarrow>
     on_some (random_identifier_greater_than draw i) (\<lambda>l.
       let node = fresh_node i mem_vec address new_table in
       waiter_map node = Map.empty \<and>
       handled_quietly node origin
         (SetLinkOp \<lparr>lres_nonce = nonce, lres_dir = Right, lres_level = 0,
            lres_linked = Some (identity_new l v a)\<rparr>)
         (\<lambda>n. entry_id_is (table_of n) 0 Right (Some l)))"

text \<open>
  Two requests wait at the same time, started in either order (\<open>search_first\<close>).
\<close>

definition search_by_id_begin ::
  "BaseNode \<Rightarrow> IdSearchReq \<Rightarrow> (BaseNode \<times> chan \<times> Identifier \<times> Event) option" where
  "search_by_id_begin n req =
     (case core_search_by_id (node_core n) req of
        Err e \<Rightarrow> None
      | Ok local_res \<Rightarrow>
          if sres_result local_res = core_id (node_core n) then None
          else Some (send_search_by_id_req_begin n (sres_result local_res) (sreq_nonce req)
                 (sreq_target req) (sres_termination_level local_res) (sreq_direction req)))"

definition test_concurrent_requests_of_different_types_resolve_independently ::
  "await_fn \<Rightarrow> bool \<Rightarrow> Identifier \<Rightarrow> MembershipVector \<Rightarrow> Address \<Rightarrow> Identifier \<Rightarrow> Identifier \<Rightarrow> Identifier
   \<Rightarrow> MembershipVector \<Rightarrow> Address \<Rightarrow> Identifier \<Rightarrow> Nonce \<Rightarrow> Nonce \<Rightarrow> bool" where
  "test_concurrent_requests_of_different_types_resolve_independently aw search_first i mem_vec address
       introducer target draw v a expected_search_result search_nonce max_level_nonce \<longleftrightarrow>
     on_some (random_identifier_greater_than draw target) (\<lambda>relay_target.
     on_some (unwrap_update (identity_new relay_target v a) 0 Left new_table) (\<lambda>lt.
       let expected_max_level = 3;
           node = fresh_node i mem_vec address lt;
           search_req = \<lparr>sreq_nonce = search_nonce, sreq_target = target, sreq_origin = i,
             sreq_level = 0, sreq_direction = Left\<rparr>
       in
       on_some
         (if search_first
          then map_option (\<lambda>(n1, ch_s, _, ev_s).
                 let (n2, ch_m, _, ev_m) = get_max_level_begin n1 introducer max_level_nonce
                 in (n2, ch_s, ev_s, ch_m, ev_m)) (search_by_id_begin node search_req)
          else (let (n1, ch_m, _, ev_m) = get_max_level_begin node introducer max_level_nonce in
                map_option (\<lambda>(n2, ch_s, _, ev_s). (n2, ch_s, ev_s, ch_m, ev_m))
                  (search_by_id_begin n1 search_req)))
         (\<lambda>(n2, ch_s, ev_s, ch_m, ev_m).
           case (ev_s, ev_m) of
             (SearchByIdRequest req_s, GetMaxLevelOp req_m) \<Rightarrow>
               handled_quietly n2 introducer
                 (RetMaxLevelOp \<lparr>mlres_nonce = mlreq_nonce req_m, mlres_max_level = expected_max_level\<rparr>) (\<lambda>n3.
               handled_quietly n3 relay_target
                 (SearchByIdResponse \<lparr>sres_nonce = sreq_nonce req_s, sres_target = target,
                    sres_termination_level = 0, sres_result = expected_search_result\<rparr>) (\<lambda>n4.
               let (n5, search_result) = send_search_by_id_req_end aw n4 search_nonce ch_s (Ok ());
                   (n6, max_level_result) = get_max_level_end aw n5 max_level_nonce ch_m (Ok ())
               in on_ok search_result (\<lambda>res. sres_result res = expected_search_result) \<and>
                  max_level_result = Ok expected_max_level))
           | _ \<Rightarrow> False)))"

section \<open>One node\<close>

lemma fresh_node_simps [simp]:
  "node_core (fresh_node i v a lt) = core_new i v lt" "node_address (fresh_node i v a lt) = a"
  "node_requests (fresh_node i v a lt) = no_requests" "node_id (fresh_node i v a lt) = i"
  "self_identity (fresh_node i v a lt) = identity_new i v a"
  by (simp_all add: fresh_node_def node_new_def node_id_def core_new_def self_identity_def)

lemma core_new_simps [simp]:
  "core_id (core_new i v lt) = i" "core_mem_vec (core_new i v lt) = v" "core_lt (core_new i v lt) = lt"
  by (simp_all add: core_new_def)

lemma node_ok_fresh [simp]: "node_ok (fresh_node i v a new_table)"
  by (simp add: fresh_node_def)

lemma open_no_requests:
  "open_request nonce mk no_requests = (0, \<lparr>request_id_map = [nonce \<mapsto> mk 0], oneshots = (\<lambda>_. []), next_chan = 1\<rparr>)"
  by (simp add: open_request_def insert_waiter_def no_requests_def Let_def fun_eq_iff)

lemma open_second_request:
  "m \<noteq> nonce \<Longrightarrow> open_request m mk \<lparr>request_id_map = [nonce \<mapsto> w], oneshots = (\<lambda>_. []), next_chan = 1\<rparr> =
     (1, \<lparr>request_id_map = [nonce \<mapsto> w, m \<mapsto> mk 1], oneshots = (\<lambda>_. []), next_chan = 2\<rparr>)"
  by (simp add: open_request_def insert_waiter_def Let_def fun_eq_iff)

lemmas request_defs = park_def open_no_requests resolve_def take_waiter_def tx_send_def await_reply_def
  unpark_def close_request_def rx_drop_def guard_drop_def drop_tx_def

context oneshot
begin

lemma request_tests_pass:
  "test_get_max_level_resolves aw (fresh_node i v a new_table) introducer nonce"
  "test_send_search_by_id_req_resolves aw (fresh_node i v a new_table) introducer anchor nonce"
  "test_get_neighbor_resolves aw (fresh_node i v a new_table) from neighbor nonce"
  "test_get_neighbor_resolves_to_none aw (fresh_node i v a new_table) from nonce"
  "test_get_max_level_times_out_and_cleans_up aw (fresh_node i v a new_table) introducer nonce"
  "test_get_max_level_cleans_up_on_cancellation (fresh_node i v a new_table) introducer nonce"
  by (simp_all add: test_get_max_level_resolves_def test_send_search_by_id_req_resolves_def
      test_get_neighbor_resolves_def test_get_neighbor_resolves_to_none_def
      test_get_max_level_times_out_and_cleans_up_def test_get_max_level_cleans_up_on_cancellation_def
      get_max_level_begin_def get_max_level_end_def send_search_by_id_req_begin_def
      send_search_by_id_req_end_def get_neighbor_begin_def get_neighbor_end_def
      handled_quietly_def handle_ret_max_level_response_def handle_search_by_id_response_def
      handle_ret_neighbor_response_def request_defs sent_received silent_elapses Let_def)

end

lemma answer_tests_pass:
  "test_base_node i v a"
  "test_process_incoming_event_answers_get_max_level_request (fresh_node i v a) seed origin nonce"
  "test_process_incoming_event_answers_get_neighbor_request (fresh_node i v a) neighbor origin nonce"
proof -
  show "test_base_node i v a" by (simp add: test_base_node_def node_mem_vec_def)
  have lev: "4 < LOOKUP_TABLE_LEVELS" "0 < LOOKUP_TABLE_LEVELS" by (simp_all add: size_defs)
  obtain t where t: "unwrap_update seed 4 Right new_table = Some t" "wf_table t"
    "slot t = (\<lambda>l d. if l = 4 \<and> d = Right then Some seed else slot new_table l d)"
    by (rule unwrap_update_some [OF wf_new_table lev(1)])
  have "max_populated_level t = Some 4"
    using arr.max_level_law [OF t(2), of 4] by (auto simp: t(3) slot_new_table split: if_splits)
  then show "test_process_incoming_event_answers_get_max_level_request (fresh_node i v a) seed origin nonce"
    by (simp add: test_process_incoming_event_answers_get_max_level_request_def t(1) handled_sending_def
        handle_get_max_level_request_def core_max_level_def Let_def)
  obtain t' where t': "unwrap_update neighbor 0 Right new_table = Some t'" "wf_table t'"
    "slot t' = (\<lambda>l d. if l = 0 \<and> d = Right then Some neighbor else slot new_table l d)"
    by (rule unwrap_update_some [OF wf_new_table lev(2)])
  then show "test_process_incoming_event_answers_get_neighbor_request (fresh_node i v a) neighbor origin nonce"
    using arr.get_entry_law [OF t'(2) lev(2), of Right]
    by (simp add: test_process_incoming_event_answers_get_neighbor_request_def handled_sending_def
        handle_get_neighbor_request_def core_neighbor_entry_def)
qed

text \<open>What the link handlers make of a fresh node.\<close>

lemma fresh_belongs:
  "belongs_in_own_slot (n\<lparr>node_requests := r\<rparr>) l d e = belongs_in_own_slot n l d e"
  "belongs_in_own_slot (fresh_node i v a lt) 0 d e = beyond d i (ident_id e)"
  by (simp_all add: belongs_in_own_slot_iff belongs_level0)

lemma fresh_link:
  assumes "wf_table lt" "slot lt 0 d = None"
  shows "core_try_link (core_new i v lt) 0 d e = (core_new i v (write_slot lt 0 d (Some e)), Ok LinkedDirectly)"
  using assms by (simp add: core_try_link_def try_link_decision core_new_def link_outcome_def link_slot_def size_defs)

lemma write_slot0:
  "wf_table t \<Longrightarrow> slot (write_slot t 0 d v) l d' = (if l = 0 \<and> d' = d then v else slot t l d')"
  by (simp add: slot_write_slot size_defs)

lemma entry_of:
  assumes "wf_table t" "slot t 0 d = s"
  shows "get_entry t 0 d = Ok s" "entry_id_is t 0 d x \<longleftrightarrow> map_option ident_id s = x"
  using assms arr.get_entry_law [OF assms(1), of 0 d] by (simp_all add: entry_id_is_def size_defs)

text \<open>The node of a test with its table and its requests.\<close>

abbreviation busy ::
  "Identifier \<Rightarrow> MembershipVector \<Rightarrow> Address \<Rightarrow> InnerArrayLookupTable \<Rightarrow> Requests \<Rightarrow> BaseNode" where
  "busy i v a lt r \<equiv> (fresh_node i v a lt)\<lparr>node_requests := r\<rparr>"

lemma set_link_fresh:
  assumes "wf_table lt" "slot lt 0 d = None" "beyond d i (ident_id e)"
  shows "handle_set_link_response (busy i v a lt r)
      \<lparr>lres_nonce = nonce, lres_dir = d, lres_level = 0, lres_linked = Some e\<rparr> =
    (busy i v a (write_slot lt 0 d (Some e)) (resolve nonce (is_link_at 0 d)
        (ReplyLink \<lparr>lres_nonce = nonce, lres_dir = d, lres_level = 0, lres_linked = Some e\<rparr>) r),
     Done (Ok ()))"
proof -
  have "(busy i v a lt r)\<lparr>node_core := core_new i v lt'\<rparr> = busy i v a lt' r" for lt'
    by (simp add: fresh_node_def node_new_def)
  then show ?thesis
    using assms by (simp add: handle_set_link_response_def apply_set_link_def fresh_belongs fresh_link)
qed

lemma with_requests: "fresh_node i v a lt = busy i v a lt no_requests"
  by (simp add: fresh_node_def node_new_def)

lemma link_request_tests_pass:
  assumes "i \<noteq> ID_ZERO" "i \<noteq> ID_MAX"
  shows "test_process_incoming_event_links_get_link_request_directly i v a draw v' a' nonce"
    "random_identifier_greater_than draw i \<noteq> Some ID_MAX \<Longrightarrow>
      test_process_incoming_event_forwards_get_link_request i v a draw draw' vs as nonce"
    "test_get_link_op_rejects_a_wrong_side_candidate i v a draw v' a' nonce"
proof -
  obtain g l where g: "random_identifier_greater_than draw i = Some g" "i < g"
    and l: "random_identifier_less_than draw i = Some l" "l < i"
    using greater_than_result [OF assms] less_than_result [OF assms] by blast
  show "test_process_incoming_event_links_get_link_request_directly i v a draw v' a' nonce"
    using fresh_link [OF wf_new_table slot_new_table, of i v Right "identity_new g v' a'"] g
    by (auto simp: test_process_incoming_event_links_get_link_request_directly_def handled_sending_def
        handle_get_link_request_def fresh_belongs self_identity_def identity_new_def Let_def)
  show "test_get_link_op_rejects_a_wrong_side_candidate i v a draw v' a' nonce"
    using l entry_of(1) [OF wf_new_table slot_new_table]
    by (auto simp: test_get_link_op_rejects_a_wrong_side_candidate_def handled_quietly_def
        handle_get_link_request_def fresh_belongs identity_new_def Let_def)
  assume "random_identifier_greater_than draw i \<noteq> Some ID_MAX"
  then have "g \<noteq> ID_ZERO" "g \<noteq> ID_MAX" using g extremes(1) [of i] by auto
  then obtain c where c: "random_identifier_greater_than draw' g = Some c" "g < c"
    using greater_than_result by blast
  let ?x = "identity_new g (vs 1) (as 1)"
  have lev: "0 < LOOKUP_TABLE_LEVELS" by (simp add: size_defs)
  obtain t where t: "unwrap_update ?x 0 Right new_table = Some t" "wf_table t"
    "slot t = (\<lambda>l d. if l = 0 \<and> d = Right then Some ?x else slot new_table l d)"
    by (rule unwrap_update_some [OF wf_new_table lev])
  have "\<exists>core. core_try_link (core_new i v t) 0 Right (identity_new c (vs 0) (as 0)) = (core, Ok (Forward ?x))"
    using arr.link_law [OF t(2) lev, of Right "identity_new c (vs 0) (as 0)"] c(2) t(3)
    by (auto simp: core_try_link_def link_outcome_def strictly_between_def identity_new_def)
  then show "test_process_incoming_event_forwards_get_link_request i v a draw draw' vs as nonce"
    using g c t(1)
    by (auto simp: test_process_incoming_event_forwards_get_link_request_def handled_sending_def
        handle_get_link_request_def fresh_belongs Let_def identity_new_def)
qed

lemma set_link_tests_pass:
  assumes "i \<noteq> ID_ZERO" "i \<noteq> ID_MAX"
  shows "test_set_link_op_rejects_a_wrong_side_linked_node i v a origin draw v' a' nonce"
    "test_set_link_op_ignores_a_reply_naming_another_slot i v a origin draw v' a' nonce"
    "test_set_link_op_applies_an_unsolicited_write i v a origin draw v' a' nonce"
proof -
  obtain g l where g: "random_identifier_greater_than draw i = Some g" "i < g"
    and l: "random_identifier_less_than draw i = Some l" "l < i"
    using greater_than_result [OF assms] less_than_result [OF assms] by blast
  show "test_set_link_op_rejects_a_wrong_side_linked_node i v a origin draw v' a' nonce"
    using l entry_of(1) [OF wf_new_table slot_new_table]
    by (auto simp: test_set_link_op_rejects_a_wrong_side_linked_node_def handled_quietly_def
        handle_set_link_response_def apply_set_link_def fresh_belongs identity_new_def)
  let ?e = "identity_new g v' a'"
  have side: "beyond Right i (ident_id ?e)" using g by (simp add: identity_new_def)
  note set_link = set_link_fresh [OF wf_new_table slot_new_table side]
  have "entry_id_is (write_slot new_table 0 Right (Some ?e)) 0 Right (Some g)"
    using entry_of(2) [of "write_slot new_table 0 Right (Some ?e)" Right "Some ?e"]
    by (simp add: write_slot0 identity_new_def)
  then show "test_set_link_op_applies_an_unsolicited_write i v a origin draw v' a' nonce"
    using g(1) set_link [of no_requests v a nonce, folded with_requests]
    by (simp add: test_set_link_op_applies_an_unsolicited_write_def handled_quietly_def
        no_requests_def [THEN arg_cong [of _ _ request_id_map]])
  show "test_set_link_op_ignores_a_reply_naming_another_slot i v a origin draw v' a' nonce"
    using g(1) by (simp add: test_set_link_op_ignores_a_reply_naming_another_slot_def handled_quietly_def
        park_def open_no_requests set_link resolve_def take_waiter_def)
qed

lemma prefix_test_passes:
  assumes "i \<noteq> ID_ZERO" "i \<noteq> ID_MAX"
  shows "test_get_link_op_rejects_a_prefix_mismatch_above_level_zero i v a draw a' nonce"
proof -
  obtain g where g: "random_identifier_greater_than draw i = Some g" "i < g"
    using greater_than_result [OF assms] by blast
  obtain b bs where v: "mv_bytes v = b # bs"
    using length_mv_bytes [of v] by (cases "mv_bytes v") (simp_all add: size_defs)
  let ?y = "b XOR push_bit 7 1"
  have y: "?y = b XOR 0x80" by simp
  have "length (?y # bs) = IDENTIFIER_SIZE_BYTES" using length_mv_bytes [of v] by (simp add: v)
  then obtain far where far: "mv_from_bytes (?y # bs) = Ok far" "mv_bytes far = ?y # bs"
    using mvs.padded [of "?y # bs"] by auto
  have "bit ?y 7 \<noteq> bit b 7" by (simp add: bit_xor_iff bit_exp_iff)
  then have "b \<noteq> ?y" by auto
  then have "common_prefix_bit v far = lcp (byte_bits b) (byte_bits ?y)"
    using common_prefix_at [of v "[]" b bs far ?y bs] v far(2) by simp
  then have "common_prefix_bit v far = 0" using lcp_flipped [of 7 b] by simp
  moreover have "get_entry new_table 1 Right = Ok None"
    using arr.get_entry_law [OF wf_new_table, of 1 Right] by (simp add: slot_new_table size_defs)
  ultimately show ?thesis
    using g(1) far(1) v y
    by (simp add: test_get_link_op_rejects_a_prefix_mismatch_above_level_zero_def handled_quietly_def
        handle_get_link_request_def belongs_in_own_slot_def core_prefix_match_def identity_new_def Let_def)
qed

context oneshot
begin

lemma awaited_link_tests_pass:
  assumes "i \<noteq> ID_ZERO" "i \<noteq> ID_MAX"
  shows "test_send_link_request_resolves aw i v a dest draw v' a' nonce"
    "test_set_link_op_rejects_out_of_range_level aw i v a origin draw v' a' nonce"
proof -
  obtain l where l: "random_identifier_less_than draw i = Some l" "l < i"
    using less_than_result [OF assms] by blast
  let ?e = "identity_new l v' a'"
  have side: "beyond Left i (ident_id ?e)" using l by (simp add: identity_new_def)
  have "entry_id_is (write_slot new_table 0 Left (Some ?e)) 0 Left (Some l)"
    using entry_of(2) [of "write_slot new_table 0 Left (Some ?e)" Left "Some ?e"]
    by (simp add: write_slot0 identity_new_def)
  then show "test_send_link_request_resolves aw i v a dest draw v' a' nonce"
    using l(1) set_link_fresh [OF wf_new_table slot_new_table side]
    by (simp add: test_send_link_request_resolves_def send_link_request_begin_def send_link_request_end_def
        handled_quietly_def request_defs sent_received Let_def identity_new_def)
  show "test_set_link_op_rejects_out_of_range_level aw i v a origin draw v' a' nonce"
    using l(1) entry_of(1) [OF wf_new_table slot_new_table]
    by (simp add: test_set_link_op_rejects_out_of_range_level_def handled_quietly_def
        handle_set_link_response_def apply_set_link_def belongs_in_own_slot_def request_defs sent_received Let_def)
qed

lemma concurrent_test_passes:
  assumes "target \<noteq> ID_ZERO" "target \<noteq> ID_MAX" "search_nonce \<noteq> max_level_nonce"
    and "random_identifier_greater_than draw target \<noteq> Some i"
  shows "test_concurrent_requests_of_different_types_resolve_independently aw search_first i v a
    introducer target draw v' a' expected search_nonce max_level_nonce"
proof -
  obtain g where g: "random_identifier_greater_than draw target = Some g" "target < g"
    using greater_than_result [OF assms(1,2)] by blast
  let ?e = "identity_new g v' a'"
  have lev: "0 < LOOKUP_TABLE_LEVELS" by (simp add: size_defs)
  obtain t where t: "unwrap_update ?e 0 Left new_table = Some t" "wf_table t"
    "slot t = (\<lambda>l d. if l = 0 \<and> d = Left then Some ?e else slot new_table l d)"
    by (rule unwrap_update_some [OF wf_new_table lev])
  let ?req = "\<lparr>sreq_nonce = search_nonce, sreq_target = target, sreq_origin = i, sreq_level = 0,
    sreq_direction = Left\<rparr>"
  have el: "eligible (core_new i v t) Left 0 target j l \<longleftrightarrow> j = g \<and> l = 0" for j l
    using g(2) by (auto simp: eligible_def t(3) identity_new_def)
  have "wf_table (core_lt (core_new i v t))" "sreq_level ?req < LOOKUP_TABLE_LEVELS"
    using t(2) lev by simp_all
  then have search: "core_search_by_id (core_new i v t) ?req =
      Ok \<lparr>sres_nonce = search_nonce, sres_target = target, sres_termination_level = 0, sres_result = g\<rparr>"
  proof (cases rule: core_search_by_id_cases)
    case (found j l)
    then show ?thesis by (simp add: closest_eligible_def el)
  next
    case fallback
    then show ?thesis using el by auto
  qed
  have "g \<noteq> i" using assms(4) g(1) by auto
  then show ?thesis
    using g(1) t(1) assms(3)
    by (cases search_first) (simp_all add: test_concurrent_requests_of_different_types_resolve_independently_def
        search_by_id_begin_def search get_max_level_begin_def get_max_level_end_def
        send_search_by_id_req_begin_def send_search_by_id_req_end_def handled_quietly_def
        handle_ret_max_level_response_def handle_search_by_id_response_def request_defs
        open_second_request [simplified] sent_received Let_def)
qed

end

section \<open>Properties\<close>

text \<open>Small identifiers, and the step of the generator on them.\<close>

lemma sample_not_extreme:
  assumes "0 < n" "n < 255"
  shows "sample_id n \<noteq> ID_ZERO" "sample_id n \<noteq> ID_MAX"
proof -
  have "sample_id 0 < sample_id n" "sample_id n < sample_id 255" using assms by simp_all
  then show "sample_id n \<noteq> ID_ZERO" "sample_id n \<noteq> ID_MAX" using extremes(1,2) leD by metis+
qed

lemma greater_than_sample:
  assumes "0 < n" "n < 255"
  shows "random_identifier_greater_than draw (sample_id n) = Some (sample_id (Suc n))"
proof -
  have "to_bytes (sample_id n) = replicate (IDENTIFIER_SIZE_BYTES - 1) 0 @ [word_of_nat n]"
    by (simp add: to_bytes_def sample_id_def bytes_of_pad32 size_defs)
  moreover have "(word_of_nat n :: u8) < 255"
    using assms(2) by (simp add: word_less_nat_alt unat_of_nat)
  moreover have "from_bytes (replicate (IDENTIFIER_SIZE_BYTES - 1) 0 @ [word_of_nat (Suc n)]) = Ok (sample_id (Suc n))"
    by (simp add: from_bytes_def sample_id_def bytes32_eqI bytes_of_pad32 size_defs)
  ultimately show ?thesis
    using sample_not_extreme [OF assms] by (simp add: random_identifier_greater_than_def add.commute)
qed



text \<open>
  C34. The tests of the message handlers of one node pass on every draw off the two extreme identifiers: a
  request is answered from the table, a link request is accepted, forwarded or rejected by the side
  and the prefix of its candidate, and a link reply is applied, awaited or not, only when it
  belongs in the slot.
\<close>

theorem handler_tests_outcome:
  assumes "oneshot aw" "i \<noteq> ID_ZERO" "i \<noteq> ID_MAX" "random_identifier_greater_than draw i \<noteq> Some ID_MAX"
  shows "test_process_incoming_event_answers_get_max_level_request (fresh_node i v a) seed origin nonce \<and>
    test_process_incoming_event_answers_get_neighbor_request (fresh_node i v a) seed origin nonce \<and>
    test_process_incoming_event_links_get_link_request_directly i v a draw v' a' nonce \<and>
    test_process_incoming_event_forwards_get_link_request i v a draw draw' vs as nonce \<and>
    test_send_link_request_resolves aw i v a origin draw v' a' nonce \<and>
    test_set_link_op_rejects_out_of_range_level aw i v a origin draw v' a' nonce \<and>
    test_get_link_op_rejects_a_wrong_side_candidate i v a draw v' a' nonce \<and>
    test_get_link_op_rejects_a_prefix_mismatch_above_level_zero i v a draw a' nonce \<and>
    test_set_link_op_rejects_a_wrong_side_linked_node i v a origin draw v' a' nonce \<and>
    test_set_link_op_ignores_a_reply_naming_another_slot i v a origin draw v' a' nonce \<and>
    test_set_link_op_applies_an_unsolicited_write i v a origin draw v' a' nonce"
  by (intro conjI answer_tests_pass link_request_tests_pass [OF assms(2,3)] assms(4)
      oneshot.awaited_link_tests_pass [OF assms(1-3)] prefix_test_passes [OF assms(2,3)]
      set_link_tests_pass [OF assms(2,3)])

theorem handler_tests_outcome_witness:
  "test_set_link_op_applies_an_unsolicited_write (sample_id 7) (MembershipVector (fill32 0))
     \<lparr>host = ''localhost'', port = ''0''\<rparr> (sample_id 1) (sample_id 3) (MembershipVector (fill32 1))
     \<lparr>host = ''localhost'', port = ''1''\<rparr> (Nonce 1)"
proof -
  have "sample_id 7 \<noteq> ID_ZERO" "sample_id 7 \<noteq> ID_MAX"
    "random_identifier_greater_than (sample_id 3) (sample_id 7) \<noteq> Some ID_MAX"
    by (simp_all add: sample_not_extreme greater_than_sample)
  from handler_tests_outcome [OF std.oneshot_axioms this] show ?thesis by simp
qed

end
