(* ===== verification/Join_Tests.thy ===== *)
theory Join_Tests
  imports Node_Tests
begin

text \<open>
  The unit tests of \<^verbatim>\<open>base_node.rs\<close> that run the first stage of the join against a scripted network: the
  join is polled, and the replies of the script are delivered, in the order the test awaits them.
\<close>

section \<open>Definitions\<close>

subsection \<open>Stage 1 of the join\<close>

text \<open>
  What the mock's closure writes into the nonce cells, read off the messages it was given.
\<close>

fun search_cell :: "Identifier \<times> Event \<Rightarrow> Nonce option" where
  "search_cell (dest, SearchByIdRequest req) = Some (sreq_nonce req)"
| "search_cell _ = None"

fun neighbor_cell :: "Identifier \<times> Event \<Rightarrow> Nonce option" where
  "neighbor_cell (dest, GetNeighborOp req) = Some (nreq_nonce req)"
| "neighbor_cell _ = None"

fun link_cell :: "Identifier \<Rightarrow> Identifier \<times> Event \<Rightarrow> Nonce option" where
  "link_cell peer (dest, GetLinkOp req) = (if dest = peer then Some (lreq_nonce req) else None)"
| "link_cell peer _ = None"

definition captured :: "('m \<Rightarrow> Nonce option) \<Rightarrow> 'm list \<Rightarrow> Nonce option" where
  "captured cell sent =
     (case List.map_filter cell sent of [] \<Rightarrow> None | ns \<Rightarrow> Some (last ns))"

definition accepted :: "mock \<Rightarrow> (Identifier \<times> Event) list \<Rightarrow> bool" where
  "accepted mock sent \<longleftrightarrow> (\<forall>(dest, ev) \<in> set sent. mock dest ev)"

fun is_link :: "Event \<Rightarrow> bool" where
  "is_link (GetLinkOp req) = True"
| "is_link _ = False"

text \<open>The \<^verbatim>\<open>deliver\<close> block of the tests: the replies, each after its request has been seen.\<close>

fun deliver_links ::
  "(Identity \<times> Direction) list \<Rightarrow> (Identifier \<times> Event) list \<Rightarrow> BaseNode \<Rightarrow> (BaseNode \<Rightarrow> bool) \<Rightarrow> bool" where
  "deliver_links [] sent n k = k n"
| "deliver_links ((peer, dir) # rest) sent n k =
     on_some (captured (link_cell (ident_id peer)) sent) (\<lambda>nonce.
     handled_quietly n (ident_id peer)
       (SetLinkOp \<lparr>lres_nonce = nonce, lres_dir = dir, lres_level = 0, lres_linked = Some peer\<rparr>) (\<lambda>n'.
     deliver_links rest sent n' k))"

definition join_script ::
  "await_fn \<Rightarrow> BaseNode \<Rightarrow> Identifier \<Rightarrow> mock \<Rightarrow> (nat \<Rightarrow> Nonce) \<Rightarrow> Identifier \<Rightarrow> Direction
   \<Rightarrow> Identity option \<Rightarrow> (Identity \<times> Direction) list \<Rightarrow> (nat \<Rightarrow> BaseNode \<Rightarrow> bool) \<Rightarrow> bool" where
  "join_script aw node introducer mock nonce searched dir neighbor links k \<longleftrightarrow>
     (let (n1, js1, sent1) = join_begin node introducer 0 (nonce 0) in
      accepted mock sent1 \<and>
      on_some (captured search_cell sent1) (\<lambda>c.
      handled_quietly n1 introducer
        (SearchByIdResponse \<lparr>sres_nonce = c, sres_target = node_id node, sres_termination_level = 0,
           sres_result = searched\<rparr>) (\<lambda>n2.
      let (n3, js2, sent2) = join_resume aw (\<lambda>_. False) (nonce 1, nonce 1) n2 js1 in
      accepted mock sent2 \<and>
      on_some (captured neighbor_cell sent2) (\<lambda>c.
      handled_quietly n3 searched
        (RetNeighborOp \<lparr>nres_nonce = c, nres_level = 0, nres_direction = dir,
           nres_neighbor = neighbor\<rparr>) (\<lambda>n4.
      let (n5, js3, sent3) = join_resume aw (\<lambda>_. False) (nonce 2, nonce 3) n4 js2 in
      accepted mock sent3 \<and>
      deliver_links links sent3 n5 (\<lambda>n6.
      let (n7, js4, sent4) = join_resume aw (\<lambda>_. False) (nonce 4, nonce 5) n6 js3 in
      sent4 = [] \<and> js4 = Joined (Ok ()) \<and>
      k (length (filter (is_link \<circ> snd) (sent1 @ sent2 @ sent3))) n7))))))"

definition test_join_stage1_link_level0_links_both_sides ::
  "await_fn \<Rightarrow> Identifier \<Rightarrow> MembershipVector \<Rightarrow> Address \<Rightarrow> (nat \<Rightarrow> Identifier) \<Rightarrow> (nat \<Rightarrow> MembershipVector)
   \<Rightarrow> (nat \<Rightarrow> Address) \<Rightarrow> (nat \<Rightarrow> Nonce) \<Rightarrow> bool" where
  "test_join_stage1_link_level0_links_both_sides aw i mem_vec address draw v a nonce \<longleftrightarrow>
     on_some (random_identifier_less_than (draw 0) i) (\<lambda>introducer.
     on_some (random_identifier_less_than (draw 1) i) (\<lambda>s_id.
     on_some (random_identifier_greater_than (draw 2) i) (\<lambda>z_id.
       let s_identity = identity_new s_id (v 0) (a 0); z_identity = identity_new z_id (v 1) (a 1) in
       join_script aw (fresh_node i mem_vec address new_table) introducer
         (\<lambda>dest ev. case ev of
            SearchByIdRequest req \<Rightarrow> dest = introducer \<and> sreq_direction req = Right
          | GetNeighborOp req \<Rightarrow> dest = s_id \<and> nreq_direction req = Right
          | GetLinkOp req \<Rightarrow>
              if dest = s_id then lreq_dir req = Right else dest = z_id \<and> lreq_dir req = Left
          | _ \<Rightarrow> False)
         nonce s_id Right (Some z_identity) [(s_identity, Left), (z_identity, Right)]
         (\<lambda>_ n. entry_id_is (table_of n) 0 Left (Some s_id) \<and>
                entry_id_is (table_of n) 0 Right (Some z_id)))))"

definition test_join_stage1_link_level0_introducer_is_the_closest ::
  "await_fn \<Rightarrow> Identifier \<Rightarrow> MembershipVector \<Rightarrow> Address \<Rightarrow> (nat \<Rightarrow> Identifier) \<Rightarrow> (nat \<Rightarrow> MembershipVector)
   \<Rightarrow> (nat \<Rightarrow> Address) \<Rightarrow> (nat \<Rightarrow> Nonce) \<Rightarrow> bool" where
  "test_join_stage1_link_level0_introducer_is_the_closest aw i mem_vec address draw v a nonce \<longleftrightarrow>
     on_some (random_identifier_less_than (draw 0) i) (\<lambda>introducer.
     on_some (random_identifier_greater_than (draw 1) i) (\<lambda>z_id.
       let s_identity = identity_new introducer (v 0) (a 0); z_identity = identity_new z_id (v 1) (a 1) in
       join_script aw (fresh_node i mem_vec address new_table) introducer
         (\<lambda>dest ev. case ev of
            SearchByIdRequest req \<Rightarrow> dest = introducer \<and> sreq_direction req = Right
          | GetNeighborOp req \<Rightarrow> dest = introducer \<and> nreq_direction req = Right
          | GetLinkOp req \<Rightarrow>
              if dest = introducer then lreq_dir req = Right else dest = z_id \<and> lreq_dir req = Left
          | _ \<Rightarrow> False)
         nonce introducer Right (Some z_identity) [(s_identity, Left), (z_identity, Right)]
         (\<lambda>_ n. entry_id_is (table_of n) 0 Left (Some introducer) \<and>
                entry_id_is (table_of n) 0 Right (Some z_id))))"

definition test_join_stage1_link_level0_no_right_neighbor_sends_single_link_request ::
  "await_fn \<Rightarrow> Identifier \<Rightarrow> MembershipVector \<Rightarrow> Address \<Rightarrow> (nat \<Rightarrow> Identifier) \<Rightarrow> (nat \<Rightarrow> MembershipVector)
   \<Rightarrow> (nat \<Rightarrow> Address) \<Rightarrow> (nat \<Rightarrow> Nonce) \<Rightarrow> bool" where
  "test_join_stage1_link_level0_no_right_neighbor_sends_single_link_request aw i mem_vec address draw v a nonce \<longleftrightarrow>
     on_some (random_identifier_less_than (draw 0) i) (\<lambda>introducer.
     on_some (random_identifier_less_than (draw 1) i) (\<lambda>s_id.
       let s_identity = identity_new s_id (v 0) (a 0) in
       join_script aw (fresh_node i mem_vec address new_table) introducer
         (\<lambda>dest ev. case ev of
            SearchByIdRequest req \<Rightarrow> dest = introducer \<and> sreq_direction req = Right
          | GetNeighborOp req \<Rightarrow> dest = s_id \<and> nreq_direction req = Right
          | GetLinkOp req \<Rightarrow> dest = s_id
          | _ \<Rightarrow> False)
         nonce s_id Right None [(s_identity, Left)]
         (\<lambda>link_request_count n. link_request_count = 1 \<and>
            entry_id_is (table_of n) 0 Left (Some s_id) \<and> get_entry (table_of n) 0 Right = Ok None)))"

definition test_join_stage1_link_level0_new_leftmost_node_sends_single_link_request ::
  "await_fn \<Rightarrow> Identifier \<Rightarrow> MembershipVector \<Rightarrow> Address \<Rightarrow> (nat \<Rightarrow> Identifier) \<Rightarrow> (nat \<Rightarrow> MembershipVector)
   \<Rightarrow> (nat \<Rightarrow> Address) \<Rightarrow> (nat \<Rightarrow> Nonce) \<Rightarrow> bool" where
  "test_join_stage1_link_level0_new_leftmost_node_sends_single_link_request aw i mem_vec address draw v a nonce \<longleftrightarrow>
     on_some (random_identifier_greater_than (draw 0) i) (\<lambda>introducer.
     on_some (random_identifier_greater_than (draw 1) i) (\<lambda>z_id.
       let z_identity = identity_new z_id (v 0) (a 0) in
       join_script aw (fresh_node i mem_vec address new_table) introducer
         (\<lambda>dest ev. case ev of
            SearchByIdRequest req \<Rightarrow> dest = introducer \<and> sreq_direction req = Left
          | GetNeighborOp req \<Rightarrow> dest = z_id \<and> nreq_direction req = Left
          | GetLinkOp req \<Rightarrow> dest = z_id \<and> lreq_dir req = Left
          | _ \<Rightarrow> False)
         nonce z_id Left None [(z_identity, Right)]
         (\<lambda>link_request_count n. link_request_count = 1 \<and>
            entry_id_is (table_of n) 0 Right (Some z_id) \<and> get_entry (table_of n) 0 Left = Ok None)))"

definition test_join_stage1_link_level0_aborts_on_id_collision ::
  "await_fn \<Rightarrow> Identifier \<Rightarrow> MembershipVector \<Rightarrow> Address \<Rightarrow> Identifier \<Rightarrow> (nat \<Rightarrow> Nonce) \<Rightarrow> bool" where
  "test_join_stage1_link_level0_aborts_on_id_collision aw i mem_vec address draw nonce \<longleftrightarrow>
     on_some (random_identifier_less_than draw i) (\<lambda>introducer.
       let mock = (\<lambda>dest ev. case ev of SearchByIdRequest req \<Rightarrow> True | _ \<Rightarrow> False);
           (n1, js1, sent1) = join_begin (fresh_node i mem_vec address new_table) introducer 0 (nonce 0)
       in
       accepted mock sent1 \<and>
       on_some (captured search_cell sent1) (\<lambda>c.
       handled_quietly n1 introducer
         (SearchByIdResponse \<lparr>sres_nonce = c, sres_target = i, sres_termination_level = 0,
            sres_result = i\<rparr>) (\<lambda>n2.
       let (n3, js2, sent2) = join_resume aw (\<lambda>_. False) (nonce 1, nonce 1) n2 js1 in
       accepted mock sent2 \<and> (case js2 of Joined r \<Rightarrow> \<not> is_ok r | _ \<Rightarrow> False))))"

definition test_join_stage1_link_level0_rejects_introducer_with_own_id ::
  "Identifier \<Rightarrow> MembershipVector \<Rightarrow> Address \<Rightarrow> Nonce \<Rightarrow> bool" where
  "test_join_stage1_link_level0_rejects_introducer_with_own_id i mem_vec address nonce \<longleftrightarrow>
     (let (n1, js1, sent1) = join_begin (fresh_node i mem_vec address new_table) i 0 nonce in
      sent1 = [] \<and> (case js1 of Joined r \<Rightarrow> \<not> is_ok r | _ \<Rightarrow> False))"

section \<open>The join tests\<close>

lemma open_empty:
  "open_request m mk \<lparr>request_id_map = Map.empty, oneshots = cs, next_chan = c\<rparr> =
     (c, \<lparr>request_id_map = [m \<mapsto> mk c], oneshots = cs(c := []), next_chan = Suc c\<rparr>)"
  by (simp add: open_request_def insert_waiter_def Let_def)

lemma open_other:
  "m \<noteq> n \<Longrightarrow> open_request m mk \<lparr>request_id_map = [n \<mapsto> w], oneshots = cs, next_chan = c\<rparr> =
     (c, \<lparr>request_id_map = [n \<mapsto> w, m \<mapsto> mk c], oneshots = cs(c := []), next_chan = Suc c\<rparr>)"
  by (simp add: open_request_def insert_waiter_def Let_def)


lemmas join_defs = join_begin_def stage1_direction_def send_search_by_id_req_begin_def
  send_search_by_id_req_end_def get_neighbor_begin_def get_neighbor_end_def send_link_request_begin_def
  send_link_request_end_def resume_search_def resume_query_def ready_def handled_quietly_def
  handle_search_by_id_response_def handle_ret_neighbor_response_def captured_def List.map_filter_def
  request_defs open_empty open_other Let_def

lemma accepted_simps [simp]:
  "accepted mock []"
  "accepted mock ((dest, ev) # sent) \<longleftrightarrow> mock dest ev \<and> accepted mock sent"
  by (simp_all add: accepted_def)

lemma ident_id_new [simp]: "ident_id (identity_new j v a) = j"
  by (simp add: identity_new_def)

lemma self_identity_requests [simp]: "self_identity (n\<lparr>node_requests := r\<rparr>) = self_identity n"
  by (simp add: self_identity_def)

text \<open>The messages of a stage-1 run, in order.\<close>

abbreviation search_msg :: "Identifier \<Rightarrow> Direction \<Rightarrow> Nonce \<Rightarrow> Event" where
  "search_msg i d nonce \<equiv> SearchByIdRequest \<lparr>sreq_nonce = nonce, sreq_target = i, sreq_origin = i,
     sreq_level = 0, sreq_direction = d\<rparr>"

abbreviation neighbor_msg :: "Identifier \<Rightarrow> Direction \<Rightarrow> Nonce \<Rightarrow> Event" where
  "neighbor_msg i d nonce \<equiv> GetNeighborOp \<lparr>nreq_nonce = nonce, nreq_origin = i, nreq_level = 0,
     nreq_direction = d\<rparr>"

abbreviation link_msg :: "Identity \<Rightarrow> Direction \<Rightarrow> Nonce \<Rightarrow> Event" where
  "link_msg me d nonce \<equiv> GetLinkOp \<lparr>lreq_nonce = nonce, lreq_candidate = me, lreq_dir = d, lreq_level = 0\<rparr>"

text \<open>Neighbors drawn on both sides of an identifier off the extremes.\<close>

lemma drawn_sides:
  assumes "i \<noteq> ID_ZERO" "i \<noteq> ID_MAX"
  obtains g l where "\<And>draw. random_identifier_greater_than draw i = Some (g draw)" "\<And>draw. i < g draw"
    "\<And>draw. random_identifier_less_than draw i = Some (l draw)" "\<And>draw. l draw < i"
    "\<And>draw draw'. l draw \<noteq> g draw'"
proof (rule that)
  let ?g = "\<lambda>draw. the (random_identifier_greater_than draw i)"
  let ?l = "\<lambda>draw. the (random_identifier_less_than draw i)"
  show g: "random_identifier_greater_than draw i = Some (?g draw)" "i < ?g draw" for draw
    using greater_than_result [OF assms, of draw] by auto
  show l: "random_identifier_less_than draw i = Some (?l draw)" "?l draw < i" for draw
    using less_than_result [OF assms, of draw] by auto
  show "?l draw \<noteq> ?g draw'" for draw draw'
    using less_trans [OF l(2) g(2)] by (rule less_imp_neq)
qed

context oneshot
begin

lemma join_script_two:
  assumes order: "introducer < i" "s < i" "i < z" and nonces: "nonce 2 \<noteq> nonce 3"
    and msgs: "accepted mock [(introducer, search_msg i Right (nonce 0)), (s, neighbor_msg i Right (nonce 1)),
      (s, link_msg (identity_new i v a) Right (nonce 2)), (z, link_msg (identity_new i v a) Left (nonce 3))]"
    and after: "\<And>r. k (Suc (Suc 0)) (busy i v a (write_slot (write_slot new_table 0 Left (Some (identity_new s v1 a1)))
      0 Right (Some (identity_new z v2 a2))) r)"
  shows "join_script aw (fresh_node i v a new_table) introducer mock nonce s Right
     (Some (identity_new z v2 a2)) [(identity_new s v1 a1, Left), (identity_new z v2 a2, Right)] k"
  using assms order(2) [THEN less_imp_neq] less_trans [OF order(2,3), THEN less_imp_neq]
  by (simp add: join_script_def join_defs sent_received set_link_fresh write_slot0 slot_new_table)

lemma join_script_one:
  assumes order: "beyond (opposite d) i introducer" "beyond (opposite d) i s"
    and msgs: "accepted mock [(introducer, search_msg i d (nonce 0)), (s, neighbor_msg i d (nonce 1)),
      (s, link_msg (identity_new i v a) d (nonce 2))]"
    and after: "\<And>r. k 1 (busy i v a (write_slot new_table 0 (opposite d) (Some (identity_new s v1 a1))) r)"
  shows "join_script aw (fresh_node i v a new_table) introducer mock nonce s d None
     [(identity_new s v1 a1, opposite d)] k"
proof -
  have "s \<noteq> i" using order(2) by (cases d) auto
  then show ?thesis
    using assms
    by (cases d) (simp_all add: join_script_def join_defs sent_received set_link_fresh slot_new_table)
qed

lemma join_tests_both_sides:
  assumes "i \<noteq> ID_ZERO" "i \<noteq> ID_MAX" "nonce 2 \<noteq> nonce 3"
  shows "test_join_stage1_link_level0_links_both_sides aw i v a draw vs as nonce"
    "test_join_stage1_link_level0_introducer_is_the_closest aw i v a draw vs as nonce"
proof -
  obtain g l where g: "\<And>x. random_identifier_greater_than x i = Some (g x)" "\<And>x. i < g x"
    and l: "\<And>x. random_identifier_less_than x i = Some (l x)" "\<And>x. l x < i" and ne: "\<And>x y. l x \<noteq> g y"
    by (rule drawn_sides [OF assms(1,2)]) blast
  let ?t = "\<lambda>s z. write_slot (write_slot new_table 0 Left (Some s)) 0 Right (Some z)"
  have entries: "entry_id_is (?t s z) 0 Left (Some (ident_id s))" "entry_id_is (?t s z) 0 Right (Some (ident_id z))"
    for s z
    using entry_of(2) [OF _ refl, of "?t s z" Left] entry_of(2) [OF _ refl, of "?t s z" Right]
    by (simp_all add: write_slot0)
  show "test_join_stage1_link_level0_links_both_sides aw i v a draw vs as nonce"
    using entries [of "identity_new (l (draw 1)) (vs 0) (as 0)" "identity_new (g (draw 2)) (vs 1) (as 1)"]
    by (simp add: test_join_stage1_link_level0_links_both_sides_def l g ne [symmetric] assms(3) join_script_two)
  show "test_join_stage1_link_level0_introducer_is_the_closest aw i v a draw vs as nonce"
    using entries [of "identity_new (l (draw 0)) (vs 0) (as 0)" "identity_new (g (draw 1)) (vs 1) (as 1)"]
    by (simp add: test_join_stage1_link_level0_introducer_is_the_closest_def l g ne [symmetric] assms(3) join_script_two)
qed

lemma join_tests_one_side:
  assumes "i \<noteq> ID_ZERO" "i \<noteq> ID_MAX"
  shows "test_join_stage1_link_level0_no_right_neighbor_sends_single_link_request aw i v a draw vs as nonce"
    "test_join_stage1_link_level0_new_leftmost_node_sends_single_link_request aw i v a draw vs as nonce"
proof -
  obtain g l where g: "\<And>x. random_identifier_greater_than x i = Some (g x)" "\<And>x. i < g x"
    and l: "\<And>x. random_identifier_less_than x i = Some (l x)" "\<And>x. l x < i"
    by (rule drawn_sides [OF assms]) blast
  have entries: "entry_id_is (write_slot new_table 0 d (Some e)) 0 d (Some (ident_id e))"
    "d' \<noteq> d \<Longrightarrow> get_entry (write_slot new_table 0 d (Some e)) 0 d' = Ok None" for d d' e
    using entry_of(2) [OF _ refl, of "write_slot new_table 0 d (Some e)" d]
      entry_of(1) [OF _ refl, of "write_slot new_table 0 d (Some e)" d']
    by (simp_all add: write_slot0 slot_new_table)
  show "test_join_stage1_link_level0_no_right_neighbor_sends_single_link_request aw i v a draw vs as nonce"
    using entries [where d = Left and e = "identity_new (l (draw 1)) (vs 0) (as 0)"] join_script_one [where d = Right]
    by (simp add: test_join_stage1_link_level0_no_right_neighbor_sends_single_link_request_def l)
  show "test_join_stage1_link_level0_new_leftmost_node_sends_single_link_request aw i v a draw vs as nonce"
    using entries [where d = Right and e = "identity_new (g (draw 1)) (vs 0) (as 0)"] join_script_one [where d = Left]
    by (simp add: test_join_stage1_link_level0_new_leftmost_node_sends_single_link_request_def g)
qed

lemma join_tests_aborted:
  assumes "i \<noteq> ID_ZERO" "i \<noteq> ID_MAX"
  shows "test_join_stage1_link_level0_aborts_on_id_collision aw i v a drawn nonce"
    "test_join_stage1_link_level0_rejects_introducer_with_own_id i v a nonce0"
proof -
  obtain l where "random_identifier_less_than drawn i = Some l" "l < i"
    using less_than_result [OF assms] by blast
  then show "test_join_stage1_link_level0_aborts_on_id_collision aw i v a drawn nonce"
    by (simp add: test_join_stage1_link_level0_aborts_on_id_collision_def join_defs sent_received)
  show "test_join_stage1_link_level0_rejects_introducer_with_own_id i v a nonce0"
    by (simp add: test_join_stage1_link_level0_rejects_introducer_with_own_id_def join_begin_def
        stage1_direction_def)
qed

end

section \<open>Properties\<close>

text \<open>
  C33. The tests of stage 1 of the join pass on every draw off the two extreme identifiers, when the two
  link requests draw different nonces: the node links on the sides where it has a neighbor, sends
  one link request when it has only one, and gives up before any link when the search finds its own
  identifier or the introducer has it.
\<close>

theorem join_tests_outcome:
  assumes "oneshot aw" "i \<noteq> ID_ZERO" "i \<noteq> ID_MAX" "nonce 2 \<noteq> nonce 3"
  shows "test_join_stage1_link_level0_links_both_sides aw i v a draw vs as nonce \<and>
    test_join_stage1_link_level0_introducer_is_the_closest aw i v a draw vs as nonce \<and>
    test_join_stage1_link_level0_no_right_neighbor_sends_single_link_request aw i v a draw vs as nonce \<and>
    test_join_stage1_link_level0_new_leftmost_node_sends_single_link_request aw i v a draw vs as nonce \<and>
    test_join_stage1_link_level0_aborts_on_id_collision aw i v a (draw 0) nonce \<and>
    test_join_stage1_link_level0_rejects_introducer_with_own_id i v a (nonce 0)"
  by (intro conjI oneshot.join_tests_both_sides [OF assms] oneshot.join_tests_one_side [OF assms(1-3)]
      oneshot.join_tests_aborted [OF assms(1-3)])

theorem join_tests_outcome_witness:
  "test_join_stage1_link_level0_links_both_sides std_await (sample_id 7) (MembershipVector (fill32 0))
     \<lparr>host = ''localhost'', port = ''0''\<rparr> (\<lambda>x. sample_id 1) (\<lambda>x. MembershipVector (fill32 1))
     (\<lambda>x. \<lparr>host = ''localhost'', port = ''1''\<rparr>) (\<lambda>x. Nonce (of_nat x))"
proof -
  have "sample_id 7 \<noteq> ID_ZERO" "sample_id 7 \<noteq> ID_MAX" "Nonce (of_nat 2) \<noteq> Nonce (of_nat 3)"
    by (simp_all add: sample_not_extreme)
  from join_tests_outcome [OF std.oneshot_axioms this(1,2), of "\<lambda>x. Nonce (of_nat x)"] this(3)
  show ?thesis by simp
qed

end
