(* ===== verification/Link_Tests.thy ===== *)
theory Link_Tests
  imports Async_Run Unit_Tests
begin

text \<open>
  The unit tests of \<^verbatim>\<open>base_node.rs\<close> that link the nodes of the fixture over the in-memory hub, for any
  number of nodes: a candidate beyond all the linked nodes is appended at their end, however far
  its request is forwarded.
\<close>

section \<open>Definitions\<close>

definition test_link_round_trip_fills_the_candidates_mirror_slot ::
  "await_fn \<Rightarrow> nat \<Rightarrow> Identifier list \<Rightarrow> MembershipVector list \<Rightarrow> Address list \<Rightarrow> Nonce \<Rightarrow> bool" where
  "test_link_round_trip_fills_the_candidates_mirror_slot aw k draws vs ads nonce \<longleftrightarrow>
     on_some (sorted_nodes_fixture draws vs ads) (\<lambda>hub.
       let ids = random_sorted_identifiers draws; responder_id = ids ! 0; candidate_id = ids ! 1 in
       case send_link_request aw k hub candidate_id responder_id Right 0 nonce of
         Some (hub', Ok _) \<Rightarrow>
           on_some (table_at hub' responder_id) (\<lambda>responder_lt.
           on_some (table_at hub' candidate_id) (\<lambda>candidate_lt.
             entry_id_is responder_lt 0 Right (Some candidate_id) \<and>
             entry_id_is candidate_lt 0 Left (Some responder_id) \<and>
             get_entry candidate_lt 0 Right = Ok None))
       | _ \<Rightarrow> False)"

text \<open>The loop over the candidates; each awaits its request and expects it to be Ok.\<close>

fun link_candidates ::
  "await_fn \<Rightarrow> nat \<Rightarrow> NetworkHub \<Rightarrow> Identifier \<Rightarrow> Direction \<Rightarrow> (Identifier \<times> Nonce) list
   \<Rightarrow> NetworkHub option" where
  "link_candidates aw k hub dest d [] = Some hub"
| "link_candidates aw k hub dest d ((candidate, nonce) # rest) =
     (case send_link_request aw k hub candidate dest d 0 nonce of
        Some (hub', Ok _) \<Rightarrow> link_candidates aw k hub' dest d rest
      | _ \<Rightarrow> None)"

definition chain_linked :: "Identifier list \<Rightarrow> NetworkHub \<Rightarrow> bool" where
  "chain_linked ids hub \<longleftrightarrow>
     on_some (those (map (table_at hub) ids)) (\<lambda>tables. assert_doubly_linked_at_level ids tables 0)"

definition test_link_round_trip_forwards_twice_rightward ::
  "await_fn \<Rightarrow> nat \<Rightarrow> Identifier list \<Rightarrow> MembershipVector list \<Rightarrow> Address list \<Rightarrow> Nonce list \<Rightarrow> bool" where
  "test_link_round_trip_forwards_twice_rightward aw k draws vs ads nonces \<longleftrightarrow>
     on_some (sorted_nodes_fixture draws vs ads) (\<lambda>hub.
       let ids = random_sorted_identifiers draws in
       on_some (link_candidates aw k hub (ids ! 0) Right (zip (drop 1 ids) nonces)) (chain_linked ids))"

definition test_link_round_trip_forwards_twice_leftward ::
  "await_fn \<Rightarrow> nat \<Rightarrow> Identifier list \<Rightarrow> MembershipVector list \<Rightarrow> Address list \<Rightarrow> Nonce list \<Rightarrow> bool" where
  "test_link_round_trip_forwards_twice_leftward aw k draws vs ads nonces \<longleftrightarrow>
     on_some (sorted_nodes_fixture draws vs ads) (\<lambda>hub.
       let ids = random_sorted_identifiers draws; largest = length ids - 1 in
       on_some (link_candidates aw k hub (ids ! largest) Left (zip (rev (take largest ids)) nonces))
         (chain_linked ids))"

section \<open>Appending at the end\<close>

context oneshot
begin

lemma link_at_end:
  assumes "hub_ok hub" "graph_linked hub S" "joining hub S u" "\<forall>y \<in> S. beyond d y u" "t \<in> S" "card S < k"
  shows "\<exists>hub'. send_link_request aw k hub u t d 0 nonce = Some (hub', Ok ()) \<and> joined hub hub' S u"
proof -
  have u: "u \<notin> S" using assms(3) by (simp add: joining_def)
  have u0: "slot_at hub u 0 dir = None" for dir
    using assms(3) by (cases "slot_at hub u 0 dir") (auto simp: joining_def)
  obtain n where n: "node_at hub u = Some n" using assms(3) by (auto simp: joining_def)
  have fin: "finite S" using graph_finite [OF assms(2)] .
  have sides: "side_linked hub S dir" for dir using assms(2) by (simp add: graph_linked_sides)
  have "t \<notin> ahead S d u t" "ahead S d u t \<subseteq> S" by (auto simp: ahead_def)
  then have "ahead S d u t \<subset> S" using assms(5) by blast
  then have "card (ahead S d u t) + 1 < k" using psubset_card_mono [OF fin, of "ahead S d u t"] assms(6) by simp
  then obtain x hub' where l: "closest_member S d u x"
    "send_link_request aw k hub u t d 0 nonce = Some (hub', Ok ())" "link_made hub hub' d x u"
    using link_request_answer [OF assms(1) sides u n u0 assms(5)] assms(4,5) by blast
  have x: "x \<in> S" "x \<noteq> u" using l(1) u by (auto simp: closest_member_def)
  have h: "hub_ok hub'" "evolves hub hub'" using send_link_request_keeps [OF assms(1) l(2)] by auto
  have nodes: "node_at hub i \<noteq> None" if "i \<in> insert u S" for i
    using that n graph_node [OF assms(2)] by auto
  then have nodes': "node_at hub' i \<noteq> None" if "i \<in> insert u S" for i
    using that evolves_None [OF h(2)] by simp
  have "side_done hub' S u d"
    using link_made_done [OF sides l(1) u l(3)] identity_at_id [OF assms(1) nodes] x(1) by blast
  moreover have "side_done hub' S u (opposite d)"
  proof (rule no_link_done [OF _ u])
    have "slot_at hub' i 0 (opposite d) = slot_at hub i 0 (opposite d)" if "i \<in> S" for i
      using l(3) that u by (auto simp: link_made_def)
    then show "side_linked hub' S (opposite d)"
      using sides [of "opposite d"] side_linked_cong [of S hub' hub] evolves_None [OF h(2)] by simp
    show "\<forall>y \<in> S. \<not> beyond (opposite (opposite d)) u y" using assms(4) by (auto dest: beyond_asym)
    show "slot_at hub' u 0 (opposite (opposite d)) = None" using l(3) x(2) u0 by (simp add: link_made_def)
  qed
  moreover have frame: "slot_at hub' i l dir = slot_at hub i l dir" if "l \<noteq> 0 \<or> i \<notin> insert u S" for i l dir
    using l(3) that x(1) by (auto simp: link_made_def)
  moreover have "ident_id e \<in> S" if "i \<in> insert u S" "l \<noteq> 0" "slot_at hub i l dir = Some e" for i l dir e
    using that assms(2,3) by (auto simp: graph_linked_sides joining_def)
  ultimately have "graph_linked hub' (insert u S)"
    using sides_joined [OF fin, of hub' u d] nodes' by auto
  then show ?thesis using l(2) h frame by (simp add: joined_def)
qed

lemma link_candidates_chain:
  assumes "hub_ok hub" "graph_linked hub S" "t \<in> S" "sorted_wrt (beyond d) (map fst qs)"
    and "\<forall>u \<in> set (map fst qs). joining hub S u \<and> (\<forall>y \<in> S. beyond d y u)"
    and "card S + length qs \<le> k"
  shows "\<exists>hub'. link_candidates aw k hub t d qs = Some hub' \<and> hub_ok hub' \<and>
    graph_linked hub' (S \<union> set (map fst qs))"
  using assms
proof (induction qs arbitrary: hub S)
  case (Cons q qs)
  obtain u nonce where q: "q = (u, nonce)" by (cases q) auto
  obtain h1 where h1: "send_link_request aw k hub u t d 0 nonce = Some (h1, Ok ())" "joined hub h1 S u"
    using link_at_end [OF Cons.prems(1,2), of u d t k nonce] Cons.prems(3,5,6) q by auto
  have "card (insert u S) \<le> Suc (card S)" by (rule card_insert_le_m1) simp_all
  moreover have "v \<noteq> u" if "v \<in> fst ` set qs" for v using Cons.prems(4) q that by auto
  ultimately have "\<exists>hub'. link_candidates aw k h1 t d qs = Some hub' \<and> hub_ok hub' \<and>
      graph_linked hub' (insert u S \<union> set (map fst qs))"
    using Cons.prems(3-6) q h1(2) joining_after [OF h1(2)]
    by (intro Cons.IH) (auto simp: joined_def)
  then show ?case using h1(1) q by simp
qed simp

end

lemma chain_linkedI:
  assumes "hub_ok hub" "sorted_wrt (<) ids" "graph_linked hub (set ids)"
  shows "chain_linked ids hub"
proof -
  let ?tables = "map (\<lambda>i. the (table_at hub i)) ids"
  have t: "map (table_at hub) ids = map Some ?tables"
    using assms(3) by (auto simp: graph_linked_def)
  moreover have "those (map Some xs) = Some xs" for xs :: "InnerArrayLookupTable list"
    by (induction xs) simp_all
  ultimately have "those (map (table_at hub) ids) = Some ?tables" by metis
  then show ?thesis using graph_linked_assert [OF assms t] by (simp add: chain_linked_def)
qed

lemma two_linked:
  assumes "assert_doubly_linked_at_level [i, j] [t, u] 0"
  shows "entry_id_is t 0 Right (Some j)" "entry_id_is u 0 Left (Some i)" "get_entry u 0 Right = Ok None"
proof -
  have all: "\<forall>x < 2. entry_id_is ([t, u] ! x) 0 Left (if x = 0 then None else Some ([i, j] ! (x - 1))) \<and>
      entry_id_is ([t, u] ! x) 0 Right (if x + 1 < 2 then Some ([i, j] ! (x + 1)) else None)"
    using assms by (simp add: assert_doubly_linked_at_level_def numeral_2_eq_2)
  show "entry_id_is t 0 Right (Some j)" using all [rule_format, of 0] by simp
  have "entry_id_is u 0 Left (Some i)" "entry_id_is u 0 Right None" using all [rule_format, of 1] by simp_all
  then show "entry_id_is u 0 Left (Some i)" "get_entry u 0 Right = Ok None"
    by (simp_all add: entry_id_is_def split: sum.splits)
qed

lemma sorted_beyond_distinct: "sorted_wrt (beyond d) xs \<Longrightarrow> distinct xs"
  by (induction xs) auto

lemma beyond_order: "beyond Right = (<)" "beyond Left = (>)"
  by (simp_all add: fun_eq_iff)

text \<open>The fixture, then candidates that ask one end of the chain, each beyond the ones before it.\<close>

lemma fixture_chain:
  assumes "oneshot aw" "distinct draws" "length vs = length draws" "length ads = length draws"
    and "sorted_wrt (beyond d) (t # us)" "set (t # us) = set draws" "length nonces = length us"
    and "length draws \<le> k"
  shows "\<exists>hub hub'. sorted_nodes_fixture draws vs ads = Some hub \<and>
    link_candidates aw k hub t d (zip us nonces) = Some hub' \<and>
    chain_linked (random_sorted_identifiers draws) hub'"
proof -
  obtain hub where hub: "sorted_nodes_fixture draws vs ads = Some hub" "hub_ok hub"
    "\<forall>i \<in> set draws. table_at hub i = Some new_table"
    using fixture_ok [OF assms(2-4)] by blast
  have dist: "distinct (t # us)" by (rule sorted_beyond_distinct [OF assms(5)])
  have len: "length draws = Suc (length us)"
    using distinct_card [OF assms(2)] distinct_card [OF dist] assms(6) by simp
  have fst_zip: "map fst (zip us nonces) = us" using assms(7) by simp
  have "graph_linked hub {t}" using hub(3) assms(6) by (auto intro: fresh_graph)
  moreover have "\<forall>u \<in> set us. joining hub {t} u \<and> (\<forall>y \<in> {t}. beyond d y u)"
    using hub(3) assms(6) dist assms(5) by (auto intro!: fresh_joining)
  ultimately obtain hub' where h: "link_candidates aw k hub t d (zip us nonces) = Some hub'" "hub_ok hub'"
    "graph_linked hub' (set (t # us))"
    using oneshot.link_candidates_chain [OF assms(1) hub(2), of "{t}" t d "zip us nonces" k] assms(5,7,8) len
    unfolding fst_zip by auto
  have "sorted_wrt (<) (random_sorted_identifiers draws)" "set (t # us) = set (random_sorted_identifiers draws)"
    using assms(2,6) by (simp_all add: random_sorted_identifiers_def strict_sorted_iff)
  then have "chain_linked (random_sorted_identifiers draws) hub'" using chain_linkedI [OF h(2)] h(3) by simp
  then show ?thesis using hub(1) h(1) by blast
qed

lemma link_round_trips:
  assumes "oneshot aw" "distinct draws" "draws \<noteq> []" "length vs = length draws" "length ads = length draws"
    and "length nonces = length draws - 1" "length draws \<le> k"
  shows "test_link_round_trip_forwards_twice_rightward aw k draws vs ads nonces"
    and "test_link_round_trip_forwards_twice_leftward aw k draws vs ads nonces"
    and "length draws = 2 \<Longrightarrow> test_link_round_trip_fills_the_candidates_mirror_slot aw k draws vs ads (nonces ! 0)"
proof -
  let ?ids = "random_sorted_identifiers draws"
  have ids: "sorted_wrt (<) ?ids" "set ?ids = set draws" "length ?ids = length draws"
    using assms(2) by (simp_all add: random_sorted_identifiers_def strict_sorted_iff)
  then obtain t us where tu: "?ids = t # us" using assms(3) by (cases ?ids) auto
  have "sorted_wrt (beyond Right) (t # us)" using ids(1) tu by (simp add: beyond_order)
  then obtain hub hub' where h: "sorted_nodes_fixture draws vs ads = Some hub"
    "link_candidates aw k hub t Right (zip us nonces) = Some hub'" "chain_linked ?ids hub'"
    using fixture_chain [OF assms(1,2,4,5)] tu ids assms(6,7) by (metis length_Cons diff_Suc_1)
  then show "test_link_round_trip_forwards_twice_rightward aw k draws vs ads nonces"
    by (simp add: test_link_round_trip_forwards_twice_rightward_def tu)
  obtain t' us' where tu': "?ids = us' @ [t']" using ids(3) assms(3) by (cases ?ids rule: rev_cases) auto
  have "sorted_wrt (beyond Left) (t' # rev us')"
    using ids(1) by (simp add: tu' beyond_order sorted_wrt_append sorted_wrt_rev)
  moreover have "set (t' # rev us') = set draws" using ids(2) tu' by auto
  ultimately obtain hub1 hub1' where "sorted_nodes_fixture draws vs ads = Some hub1"
    "link_candidates aw k hub1 t' Left (zip (rev us') nonces) = Some hub1'" "chain_linked ?ids hub1'"
    using fixture_chain [OF assms(1,2,4,5)] tu' ids(3) assms(6,7)
    by (metis length_append_singleton length_rev diff_Suc_1)
  then show "test_link_round_trip_forwards_twice_leftward aw k draws vs ads nonces"
    by (simp add: test_link_round_trip_forwards_twice_leftward_def tu')
  assume two: "length draws = 2"
  then obtain c nonce where us: "us = [c]" "nonces = [nonce]"
    using tu ids(3) assms(6) by (cases us; cases nonces) auto
  obtain tables where tables: "those (map (table_at hub') [t, c]) = Some tables"
    "assert_doubly_linked_at_level [t, c] tables 0"
    using h(3) by (auto simp: chain_linked_def tu us split: option.splits)
  then obtain t1 t2 where "table_at hub' t = Some t1" "table_at hub' c = Some t2" "tables = [t1, t2]"
    by (auto split: option.splits)
  then show "test_link_round_trip_fills_the_candidates_mirror_slot aw k draws vs ads (nonces ! 0)"
    using h(1,2) two_linked [of t c t1 t2] tables(2)
    by (simp add: test_link_round_trip_fills_the_candidates_mirror_slot_def tu us split: option.splits prod.splits sum.splits)
qed

section \<open>Properties\<close>

text \<open>
  C32. The link round trips over the hub pass with any number of nodes: with every candidate asking the
  smallest node rightward, or the largest one leftward, each request resolves, and the assertion on
  the doubly linked list holds at the end.
\<close>

theorem link_round_trips_pass:
  assumes "oneshot aw" "distinct draws" "draws \<noteq> []" "length vs = length draws" "length ads = length draws"
    and "length nonces = length draws - 1" "length draws \<le> k"
  shows "test_link_round_trip_forwards_twice_rightward aw k draws vs ads nonces \<and>
    test_link_round_trip_forwards_twice_leftward aw k draws vs ads nonces \<and>
    (length draws = 2 \<longrightarrow>
      test_link_round_trip_fills_the_candidates_mirror_slot aw k draws vs ads (nonces ! 0))"
  using link_round_trips [OF assms] by blast

theorem link_round_trips_pass_witness:
  "test_link_round_trip_fills_the_candidates_mirror_slot std_await 2 [sample_id 9, sample_id 4]
     (replicate 2 (MembershipVector (fill32 0))) (replicate 2 \<lparr>host = ''localhost'', port = ''0''\<rparr>) (Nonce 1)"
  using link_round_trips_pass [OF std.oneshot_axioms, of "[sample_id 9, sample_id 4]"
      "replicate 2 (MembershipVector (fill32 0))" "replicate 2 \<lparr>host = ''localhost'', port = ''0''\<rparr>"
      "[Nonce 1]" 2]
  by simp

end
