(* ===== verification/Repair_Schedule.thy ===== *)
theory Repair_Schedule
  imports Prelude
begin

text \<open>
  The tick source of the repair task (\<^verbatim>\<open>node/repair_schedule.rs\<close>). The production schedule is a tokio
  interval behind a mutex; the test schedule is a tokio \<^verbatim>\<open>Notify\<close>. Both are parameters, with their
  documented behaviour as the assumptions of a locale; times are nanoseconds on the runtime's clock.
\<close>

section \<open>Definitions\<close>

subsection \<open>The production schedule\<close>






subsection \<open>The test schedule\<close>

text \<open>
  \<open>one n\<close> is \<^verbatim>\<open>notify_one\<close>, with the task it wakes; \<open>wait k n\<close> is the first poll of the future that
  \<^verbatim>\<open>notified\<close> gives to task \<open>k\<close>, true when it completes at once.
\<close>

type_synonym task = nat

datatype ScheduleCall = Fire | Tick task

record 'n ManualRepairSchedule =
  notify :: 'n

definition manual_new :: "'n \<Rightarrow> 'n ManualRepairSchedule" where
  "manual_new new = \<lparr>notify = new\<rparr>"

definition fire ::
  "('n \<Rightarrow> 'n \<times> task option) \<Rightarrow> 'n ManualRepairSchedule \<Rightarrow> 'n ManualRepairSchedule \<times> task option" where
  "fire one sch = (let (n, woken) = one (notify sch) in (sch\<lparr>notify := n\<rparr>, woken))"

definition manual_tick ::
  "(task \<Rightarrow> 'n \<Rightarrow> 'n \<times> bool) \<Rightarrow> task \<Rightarrow> 'n ManualRepairSchedule \<Rightarrow> 'n ManualRepairSchedule \<times> bool" where
  "manual_tick wait k sch = (let (n, done) = wait k (notify sch) in (sch\<lparr>notify := n\<rparr>, done))"

text \<open>The ticks that a sequence of calls completes, in the order of their completion.\<close>

fun completed ::
  "('n \<Rightarrow> 'n \<times> task option) \<Rightarrow> (task \<Rightarrow> 'n \<Rightarrow> 'n \<times> bool) \<Rightarrow> 'n ManualRepairSchedule
   \<Rightarrow> ScheduleCall list \<Rightarrow> task list" where
  "completed one wait sch [] = []"
| "completed one wait sch (Fire # cs) =
     (let (sch', woken) = fire one sch
      in (case woken of None \<Rightarrow> [] | Some k \<Rightarrow> [k]) @ completed one wait sch' cs)"
| "completed one wait sch (Tick k # cs) =
     (let (sch', done) = manual_tick wait k sch
      in (if done then [k] else []) @ completed one wait sch' cs)"

section \<open>Reference definitions\<close>


text \<open>
  The ticks that have been called, and how many of the waiting and the called ones get through when
  the balance of fires and ticks is \<open>b\<close>: a fire counts for nothing when the balance is one.
\<close>

fun called :: "ScheduleCall list \<Rightarrow> task list" where
  "called [] = []"
| "called (Fire # cs) = called cs"
| "called (Tick k # cs) = k # called cs"

fun passed :: "int \<Rightarrow> ScheduleCall list \<Rightarrow> nat" where
  "passed b [] = 0"
| "passed b (Fire # cs) = (if b < 0 then 1 else 0) + passed (min 1 (b + 1)) cs"
| "passed b (Tick k # cs) = (if b = 1 then 1 else 0) + passed (b - 1) cs"



lemma passed_le:
  "b \<le> 1 \<Longrightarrow> passed b cs \<le> count_list cs Fire + (if b = 1 then 1 else 0)"
proof (induction b cs rule: passed.induct)
  case (2 b cs)
  then have "passed (min 1 (b + 1)) cs \<le> count_list cs Fire + (if min 1 (b + 1) = 1 then 1 else 0)"
    by simp
  then show ?case using 2(2) by (auto split: if_splits)
qed (auto split: if_splits)

section \<open>Intervals that skip missed ticks\<close>


section \<open>Gates with one permit\<close>

text \<open>
  The documented notifier: \<^verbatim>\<open>notify_one\<close> wakes the task that has waited longest or, when none waits,
  stores a permit, of which there is at most one; \<^verbatim>\<open>notified\<close> takes the permit, or waits.
\<close>

locale tokio_notify =
  fixes new :: 'n
    and one :: "'n \<Rightarrow> 'n \<times> task option"
    and wait :: "task \<Rightarrow> 'n \<Rightarrow> 'n \<times> bool"
    and permit :: "'n \<Rightarrow> bool"
    and waiters :: "'n \<Rightarrow> task list"
  assumes new_empty: "\<not> permit new" "waiters new = []"
    and one_wakes: "waiters n = k # ks \<Longrightarrow>
      \<exists>n'. one n = (n', Some k) \<and> waiters n' = ks \<and> permit n' = permit n"
    and one_stores: "waiters n = [] \<Longrightarrow> \<exists>n'. one n = (n', None) \<and> waiters n' = [] \<and> permit n'"
    and wait_takes: "permit n \<Longrightarrow> \<exists>n'. wait k n = (n', True) \<and> waiters n' = waiters n \<and> \<not> permit n'"
    and wait_parks: "\<not> permit n \<Longrightarrow>
      \<exists>n'. wait k n = (n', False) \<and> waiters n' = waiters n @ [k] \<and> \<not> permit n'"
begin

text \<open>The gate as a balance of fires and ticks that never exceeds one.\<close>

definition balanced :: "'n ManualRepairSchedule \<Rightarrow> int \<Rightarrow> task list \<Rightarrow> bool" where
  "balanced sch b ks \<longleftrightarrow>
     waiters (notify sch) = ks \<and> permit (notify sch) = (b = 1) \<and> b \<le> 1 \<and> int (length ks) = max 0 (- b)"

lemma balanced_new: "balanced (manual_new new) 0 []"
  by (simp add: balanced_def manual_new_def new_empty)

lemma balanced_fire:
  assumes "balanced sch b ks"
  shows "\<exists>sch'. fire one sch = (sch', if b < 0 then Some (hd ks) else None) \<and>
    balanced sch' (min 1 (b + 1)) (tl ks)"
proof (cases ks)
  case Nil
  then show ?thesis
    using assms one_stores [of "notify sch"] by (auto simp: balanced_def fire_def)
next
  case (Cons k ks')
  then show ?thesis
    using assms one_wakes [of "notify sch" k ks'] by (auto simp: balanced_def fire_def)
qed

lemma balanced_tick:
  assumes "balanced sch b ks"
  shows "\<exists>sch'. manual_tick wait k sch = (sch', b = 1) \<and>
    balanced sch' (b - 1) (if b = 1 then ks else ks @ [k])"
  using assms wait_takes [of "notify sch" k] wait_parks [of "notify sch" k]
  by (cases "b = 1") (auto simp: balanced_def manual_tick_def)

lemma completed_balance:
  assumes "balanced sch b ks"
  shows "completed one wait sch cs = take (passed b cs) (ks @ called cs)"
  using assms
proof (induction cs arbitrary: sch b ks)
  case (Cons c cs)
  have len: "int (length ks) = max 0 (- b)" "b \<le> 1" using Cons.prems by (simp_all add: balanced_def)
  show ?case
  proof (cases c)
    case Fire
    obtain sch' where s: "fire one sch = (sch', if b < 0 then Some (hd ks) else None)"
      "balanced sch' (min 1 (b + 1)) (tl ks)" using balanced_fire [OF Cons.prems] by blast
    show ?thesis
      using Cons.IH [OF s(2)] s(1) Fire len by (cases ks) (auto simp: Let_def)
  next
    case (Tick k)
    obtain sch' where s: "manual_tick wait k sch = (sch', b = 1)"
      "balanced sch' (b - 1) (if b = 1 then ks else ks @ [k])"
      using balanced_tick [OF Cons.prems] by blast
    show ?thesis
      using Cons.IH [OF s(2)] s(1) Tick len by (auto simp: Let_def simp del: take_append)
  qed
qed simp

end

section \<open>Concrete runtimes\<close>






record StdNotify =
  std_permit :: bool
  std_waiters :: "task list"

definition std_notify_new :: StdNotify where
  "std_notify_new = \<lparr>std_permit = False, std_waiters = []\<rparr>"

definition std_notify_one :: "StdNotify \<Rightarrow> StdNotify \<times> task option" where
  "std_notify_one n =
     (case std_waiters n of
        [] \<Rightarrow> (n\<lparr>std_permit := True\<rparr>, None)
      | k # ks \<Rightarrow> (n\<lparr>std_waiters := ks\<rparr>, Some k))"

definition std_notified :: "task \<Rightarrow> StdNotify \<Rightarrow> StdNotify \<times> bool" where
  "std_notified k n =
     (if std_permit n then (n\<lparr>std_permit := False\<rparr>, True)
      else (n\<lparr>std_waiters := std_waiters n @ [k]\<rparr>, False))"

interpretation std_gate: tokio_notify std_notify_new std_notify_one std_notified std_permit std_waiters
  by unfold_locales (simp_all add: std_notify_new_def std_notify_one_def std_notified_def)

section \<open>Properties\<close>



text \<open>
  C30. The test schedule lets ticks through in the order of their calls. A fire completes the tick
  that has waited longest; when none waits, it lets exactly one future tick through, and further
  fires before that tick count for nothing. So no more ticks complete than were fired.
\<close>

theorem manual_ticks_pass:
  assumes "tokio_notify new one wait permit waiters"
  shows "completed one wait (manual_new new) cs = take (passed 0 cs) (called cs) \<and>
    length (completed one wait (manual_new new) cs) \<le> count_list cs Fire"
  using tokio_notify.completed_balance [OF assms tokio_notify.balanced_new [OF assms]]
    passed_le [of 0 cs] by simp

theorem manual_ticks_pass_witness:
  "completed std_notify_one std_notified (manual_new std_notify_new)
     [Fire, Fire, Tick 1, Tick 2, Tick 3, Fire] = [1, 2]"
  using manual_ticks_pass [OF std_gate.tokio_notify_axioms,
      of "[Fire, Fire, Tick 1, Tick 2, Tick 3, Fire]"] by (simp add: numeral_2_eq_2)

end
