(* ===== verification/Irrevocable_Context.thy ===== *)
theory Irrevocable_Context
  imports Prelude
begin

text \<open>
  \<^verbatim>\<open>src/core/context/mod.rs\<close>: cancelable contexts with deadlines and irrecoverable errors. The
  cancellation tokens are \<^verbatim>\<open>tokio_util\<close>'s: a token is the term of the calls that made it, the state
  is the log of the \<^verbatim>\<open>cancel\<close> calls, and \<open>canc\<close>, the library's answer to \<^verbatim>\<open>is_cancelled\<close>, is an
  argument with the documented law as a locale. The clock is the argument \<open>now\<close>, and what
  \<^verbatim>\<open>select!\<close> finds ready first is an argument of \<open>ctx_run\<close>.
\<close>

section \<open>Definitions\<close>

type_synonym Instant = nat
type_synonym Duration = nat

datatype Token = RootToken nat | ChildToken Token nat

type_synonym CancelLog = "Token list"
type_synonym cancel_fn = "CancelLog \<Rightarrow> Token \<Rightarrow> bool"

datatype IrrevocableContext =
  Ctx (ctx_token: Token) (ctx_deadline: "Instant option") (ctx_parent: "IrrevocableContext option")

definition ctx_new :: "nat \<Rightarrow> IrrevocableContext" where
  "ctx_new fresh = Ctx (RootToken fresh) None None"

definition with_timeout :: "nat \<Rightarrow> Instant \<Rightarrow> Duration \<Rightarrow> IrrevocableContext" where
  "with_timeout fresh now timeout = Ctx (RootToken fresh) (Some (now + timeout)) None"

definition child :: "IrrevocableContext \<Rightarrow> nat \<Rightarrow> IrrevocableContext" where
  "child c fresh = Ctx (ChildToken (ctx_token c) fresh) (ctx_deadline c) (Some c)"

definition cancel :: "IrrevocableContext \<Rightarrow> CancelLog \<Rightarrow> CancelLog" where
  "cancel c log = log @ [ctx_token c]"

definition is_cancelled :: "cancel_fn \<Rightarrow> CancelLog \<Rightarrow> IrrevocableContext \<Rightarrow> bool" where
  "is_cancelled canc log c = canc log (ctx_token c)"

definition is_deadline_exceeded :: "Instant \<Rightarrow> IrrevocableContext \<Rightarrow> bool" where
  "is_deadline_exceeded now c = (case ctx_deadline c of Some d \<Rightarrow> now \<ge> d | None \<Rightarrow> False)"

definition ctx_err ::
  "cancel_fn \<Rightarrow> CancelLog \<Rightarrow> Instant \<Rightarrow> IrrevocableContext \<Rightarrow> error option" where
  "ctx_err canc log now c =
     (if is_cancelled canc log c then Some (Msg ''context cancelled'')
      else if is_deadline_exceeded now c then Some (Msg ''context deadline exceeded'')
      else None)"

text \<open>
  The branches of the two \<^verbatim>\<open>select!\<close> blocks. \<open>timed\<close> answers the one with a deadline, given the time
  that remains, and \<open>plain\<close> the one without, where \<^term>\<open>None\<close> is the cancellation.
\<close>

datatype 'a Branch = FutureDone "'a result" | SleepDone | CancelDone

definition ctx_run ::
  "cancel_fn \<Rightarrow> CancelLog \<Rightarrow> Instant \<Rightarrow> (Duration \<Rightarrow> 'a Branch) \<Rightarrow> 'a result option
   \<Rightarrow> IrrevocableContext \<Rightarrow> 'a result" where
  "ctx_run canc log now timed plain c =
     (case ctx_err canc log now c of
        Some err \<Rightarrow> Err err
      | None \<Rightarrow>
          (case ctx_deadline c of
             Some deadline \<Rightarrow>
               (let remaining = deadline - now in
                case timed remaining of
                  FutureDone result \<Rightarrow> result
                | SleepDone \<Rightarrow> Err (Msg ''context deadline exceeded'')
                | CancelDone \<Rightarrow> Err (Msg ''context cancelled''))
           | None \<Rightarrow>
               (case plain of
                  Some result \<Rightarrow> result
                | None \<Rightarrow> Err (Msg ''context cancelled''))))"




definition with_cancel ::
  "IrrevocableContext \<Rightarrow> nat \<Rightarrow> IrrevocableContext \<times> (CancelLog \<Rightarrow> CancelLog)" where
  "with_cancel c fresh = (let ch = child c fresh in (ch, \<lambda>log. log @ [ctx_token ch]))"

section \<open>Cancellation\<close>

fun lineage :: "Token \<Rightarrow> Token set" where
  "lineage (RootToken i) = {RootToken i}"
| "lineage (ChildToken p i) = insert (ChildToken p i) (lineage p)"

text \<open>
  The documented law of \<^verbatim>\<open>CancellationToken\<close>: a token is cancelled by a call on it or on a token it
  descends from, and by nothing else.
\<close>

locale cancellation =
  fixes canc :: cancel_fn
  assumes cancelled_iff: "canc log t \<longleftrightarrow> (\<exists>a \<in> lineage t. a \<in> set log)"

inductive descends :: "IrrevocableContext \<Rightarrow> IrrevocableContext \<Rightarrow> bool" for c where
  itself: "descends c c"
| by_child: "descends c d \<Longrightarrow> descends c (child d fresh)"

lemma size_lineage: "a \<in> lineage t \<Longrightarrow> size a \<le> size t"
  by (induction t) auto

lemma child_not_in_lineage: "ChildToken t i \<notin> lineage t"
  using size_lineage [of "ChildToken t i" t] by auto

lemma self_in_lineage [simp]: "t \<in> lineage t"
  by (cases t) simp_all

lemma child_simps [simp]:
  "ctx_token (child c i) = ChildToken (ctx_token c) i"
  "ctx_deadline (child c i) = ctx_deadline c"
  "ctx_parent (child c i) = Some c"
  by (simp_all add: child_def)

lemma descends_token: "descends c d \<Longrightarrow> ctx_token c \<in> lineage (ctx_token d)"
  by (induction rule: descends.induct) simp_all

lemma descends_deadline: "descends c d \<Longrightarrow> ctx_deadline d = ctx_deadline c"
  by (induction rule: descends.induct) simp_all

context cancellation
begin

lemma cancel_reaches:
  "descends c d \<Longrightarrow> is_cancelled canc (cancel c log) d"
  by (auto simp: is_cancelled_def cancel_def cancelled_iff dest: descends_token)

lemma cancel_frame:
  "ctx_token c \<notin> lineage (ctx_token d) \<Longrightarrow>
   is_cancelled canc (cancel c log) d = is_cancelled canc log d"
  by (auto simp: is_cancelled_def cancel_def cancelled_iff)

lemma cancel_child_frame:
  "is_cancelled canc (cancel (child c i) log) c = is_cancelled canc log c"
  by (rule cancel_frame) (simp add: child_not_in_lineage)

lemma cancel_sibling_frame:
  "i \<noteq> j \<Longrightarrow> is_cancelled canc (cancel (child c i) log) (child c j) = is_cancelled canc log (child c j)"
  by (rule cancel_frame) (simp add: child_not_in_lineage)

end

definition ref_cancelled :: cancel_fn where
  "ref_cancelled log t \<longleftrightarrow> (\<exists>a \<in> set log. a \<in> lineage t)"

interpretation ref: cancellation ref_cancelled
  by unfold_locales (auto simp: ref_cancelled_def)


lemma run_unusable: "ctx_err canc log now c = Some e \<Longrightarrow> ctx_run canc log now timed plain c = Err e"
  by (simp add: ctx_run_def)

section \<open>Properties\<close>

text \<open>
  C27. Cancelling a context cancels every context that descends from it, and all of them carry its
  deadline; cancelling a child changes neither the parent nor a sibling.
\<close>

theorem cancel_scope:
  assumes "cancellation canc" "descends c d" "i \<noteq> j"
  shows "is_cancelled canc (cancel c log) d \<and> ctx_deadline d = ctx_deadline c \<and>
    is_cancelled canc (cancel (child c i) log) c = is_cancelled canc log c \<and>
    is_cancelled canc (cancel (child c i) log) (child c j) = is_cancelled canc log (child c j) \<and>
    is_cancelled canc (snd (with_cancel c i) log) (fst (with_cancel c i))"
  using cancellation.cancel_reaches [OF assms(1,2)] descends_deadline [OF assms(2)]
    cancellation.cancel_child_frame [OF assms(1)]
    cancellation.cancel_sibling_frame [OF assms(1,3)]
    cancellation.cancel_reaches [OF assms(1) descends.itself, of "child c i" log]
  by (simp add: with_cancel_def Let_def cancel_def)

theorem cancel_scope_witness:
  "is_cancelled ref_cancelled (cancel (ctx_new 0) []) (child (child (ctx_new 0) 3) 4) \<and>
   \<not> is_cancelled ref_cancelled (cancel (child (ctx_new 0) 1) []) (child (ctx_new 0) 2)"
  using cancel_scope [OF ref.cancellation_axioms, of "ctx_new 0" "child (child (ctx_new 0) 3) 4"
      1 2 "[]"]
  by (auto intro: descends.intros simp: is_cancelled_def ref_cancelled_def)


end
