(* ===== verification/Observability.thy ===== *)
theory Observability
  imports Lookup_Table
begin

text \<open>
  \<^verbatim>\<open>src/observability/labels.rs\<close>: the label types of the metrics and the level buckets.
\<close>

section \<open>Definitions\<close>

datatype SearchOutcome = Found | NotFound

datatype MessageType = MsgTest | MsgSearchByIdRequest | MsgSearchByIdResponse




datatype LevelBucket = Low | Medium | High | Overflow


section \<open>The derived order\<close>

text \<open>\<^verbatim>\<open>derive(PartialOrd, Ord)\<close> orders the variants as they are declared.\<close>

fun bucket_rank :: "LevelBucket \<Rightarrow> nat" where
  "bucket_rank Low = 0"
| "bucket_rank Medium = 1"
| "bucket_rank High = 2"
| "bucket_rank Overflow = 3"

instantiation LevelBucket :: linorder
begin

definition less_eq_LevelBucket :: "LevelBucket \<Rightarrow> LevelBucket \<Rightarrow> bool" where
  "less_eq_LevelBucket a b \<longleftrightarrow> bucket_rank a \<le> bucket_rank b"

definition less_LevelBucket :: "LevelBucket \<Rightarrow> LevelBucket \<Rightarrow> bool" where
  "less_LevelBucket a b \<longleftrightarrow> bucket_rank a < bucket_rank b"

instance
proof
  fix a b :: LevelBucket
  assume "a \<le> b" "b \<le> a"
  then show "a = b" by (cases a; cases b) (simp_all add: less_eq_LevelBucket_def)
qed (auto simp: less_eq_LevelBucket_def less_LevelBucket_def)

end




section \<open>Properties\<close>


end
