(* ===== verification/Spec2Isabelle.thy ===== *)
theory Spec2Isabelle
  imports Join_Tests Link_Tests Repair_Schedule Irrevocable_Context Observability
begin

text \<open>
  A verification development for the Rust skip graph of this repository.

  \<^bold>\<open>The program.\<close> A node of the skip graph has a 256-bit identifier and a 256-bit membership vector
  and keeps, per level, its left and right neighbour in a lookup table. Nodes exchange messages
  over a network: searches by identifier are relayed from node to node, and a joining node asks
  two existing nodes to link it in between them at level 0. Requests that wait for a reply park
  a waiter under a random nonce.

  \<^bold>\<open>Theories and what they model.\<close>
  \<^item> Prelude: errors as values, 32-byte arrays, big-endian values, formatting; the collections
    \<open>size_defs\<close>, \<open>id_order\<close>, \<open>slot_simps\<close>, \<open>node_simps\<close>, \<open>keeps\<close>.
  \<^item> Hex\_Codec: the interface to the hex crate (a parameter), and the contract of values backed by
    a fixed-size array.
  \<^item> Identifiers: \<^verbatim>\<open>src/core/model/identifier.rs\<close>. The comparison loop is the order of the numbers
    that the bytes spell; \<^verbatim>\<open>Identifier\<close> is a linear order.
  \<^item> Mem\_Vec: \<^verbatim>\<open>src/core/model/memvec.rs\<close>. The bit loop is the longest common prefix.
  \<^item> Messages: directions, addresses, identities, nonces, payloads and \<^verbatim>\<open>Event\<close>
    (\<^verbatim>\<open>src/core/model/{direction,address,identity,search,join}.rs\<close>, \<^verbatim>\<open>src/network/mod.rs\<close>).
  \<^item> Lookup\_Table: \<^verbatim>\<open>src/core/lookup\<close>. The trait as a locale, the array table as its interpretation.
  \<^item> Base\_Core: \<^verbatim>\<open>src/node/core.rs\<close>. The local search and the link decisions, and the notion of an
    ordered table.
  \<^item> Waiters: \<^verbatim>\<open>src/node/waiter.rs\<close> and the correlation of replies. tokio's one-shot channels are a
    parameter: the state logs the calls made on a channel, and \<open>aw\<close> is what awaiting it gives.
  \<^item> Base\_Node: \<^verbatim>\<open>src/node/base_node.rs\<close>. Every handler, and the requests split at their wait.
  \<^item> Hub: \<^verbatim>\<open>src/network/mock\<close>, \<^verbatim>\<open>src/network/processor.rs\<close>, and the requests and the join run over it.
  \<^item> Round\_Trips, Search\_Protocol, Join\_Protocol: what the requests achieve over the hub.
  \<^item> Interleaving: the same handlers on a network with messages in flight, as a step relation.
  \<^item> Delivery: deliveries on that network come to an end, and every honest request is answered.
  \<^item> Async\_Join, Async\_Links, Async\_Run: \<^verbatim>\<open>join_stage1_link_level0\<close> as the state machine of its three
    awaits, on the network with messages in flight and with other nodes searching meanwhile. The
    first holds the machine and the search and query stages, the second the two concurrent link
    requests, the third the invariant of a whole run, its measure and the results.
  \<^item> Repair\_Schedule: \<^verbatim>\<open>src/node/repair_schedule.rs\<close>; tokio's interval and notify are parameters, each
    with a locale of its documented behaviour.
  \<^item> Irrevocable\_Context: \<^verbatim>\<open>src/core/context/mod.rs\<close>; cancellation tokens are a parameter.
  \<^item> Observability: \<^verbatim>\<open>src/observability/labels.rs\<close>.
  \<^item> Fixtures, Random\_Data: \<^verbatim>\<open>src/core/testutil/{fixtures,random}.rs\<close> and \<^verbatim>\<open>src/node/testutil.rs\<close>: the
    generators, random tables, the node fixture, and the helpers that join threads and poll.
  \<^item> Unit\_Tests, Node\_Tests, Join\_Tests, Link\_Tests: the unit tests inside the source files as
    predicates over their random draws. A mocked network is the check its closure makes on each
    message; an unexpected message, a failed assertion and a panic make the predicate false.

  \<^bold>\<open>Correspondence.\<close> A struct is a record, an enum a datatype, \<^verbatim>\<open>anyhow::Result\<close> a sum with the error
  on the left (an error keeps its message and the errors it wraps, not the interpolated values).
  An operation behind a lock is a function from the old state to the new state and its result.
  Panics are the value \<^term>\<open>None\<close>. \<^verbatim>\<open>usize\<close> levels are natural numbers: the code compares them and
  never computes with them beyond the range of an array. Random draws and clocks are arguments.
  Logging and tracing spans are left out.

  \<^bold>\<open>Depth.\<close> The mock hub delivers a message inside the sender's call, so a chain of messages is a
  recursion. \<^term>\<open>route_event\<close> carries a bound on its depth and is \<^term>\<open>None\<close> when the bound runs out. The
  theorems on searches, links and joins prove that a result is returned once the bound exceeds the
  number of members, since every hop of a relay moves strictly towards its goal.

  \<^bold>\<open>What is shown.\<close> The local layers: comparison, prefixes, table operations and the local search
  meet their documented rules on every branch. The node: any message keeps identity and ordering,
  replies reach exactly the request they answer, waiters never leak. The protocol: a search returns
  the closest member, a link request ends at the right neighbour and writes two slots, stage 1 of
  the join extends a sorted doubly linked level-0 list by the new node, and joins run one after the
  other build the list that the repository's own assertion describes. Concurrency: under every
  interleaving, with lost and forged messages, tables stay ordered; in honest runs no link request
  is dropped by the guard; and the split of two concurrent joins that the protocol document
  describes is reachable, so ordering cannot be strengthened to consistent back pointers. Liveness:
  deliveries run dry within a bound, every honest request is answered, and a join that runs alone
  among arbitrary read traffic always returns Ok and leaves the longer list. Tests: the unit tests of
  the identifiers, the membership vectors and the nodes pass on every draw that the theorems name,
  and those of the generators pass exactly on the stated draws.

  \<^bold>\<open>Not modelled.\<close> \<^verbatim>\<open>search_by_mem_vec\<close> is a \<^verbatim>\<open>todo!()\<close>. Stage 2 of the join and the repair task are
  not in the code yet (\<^verbatim>\<open>BuddyOp\<close> and \<^verbatim>\<open>CheckNeighborOp\<close> are answered with an error, which is
  modelled); nothing calls \<^verbatim>\<open>RepairSchedule\<close> yet. The metrics traits have no implementation. Clones
  share their state behind a lock and are the same value here, so \<^verbatim>\<open>clone_box\<close> and the test of the
  shallow clone of a processor have no counterpart. The separate files \<^verbatim>\<open>*_test.rs\<close> are not modelled.

  The sections below hold the properties that span components; the others close the theory of
  their component.
\<close>

section \<open>The join and the search over the hub\<close>

text \<open>
  C1. Stage 1 of the join succeeds on a linked graph: for any introducer and starting level the call
  returns Ok, afterwards the members and the joining node form one sorted doubly linked list at
  level 0, no slot above level 0 has changed, and no table outside the graph has.
\<close>

theorem join_links_level0:
  assumes "oneshot aw" "hub_ok hub" "graph_linked hub S" "joining hub S u" "introducer \<in> S"
    and "max_level < LOOKUP_TABLE_LEVELS" "card S + 1 < k"
  shows "\<exists>hub'. join_stage1_link_level0 aw k hub u introducer max_level nonces = Some (hub', Ok ()) \<and>
    hub_ok hub' \<and> graph_linked hub' (insert u S) \<and>
    (\<forall>i l d. l \<noteq> 0 \<or> i \<notin> insert u S \<longrightarrow> slot_at hub' i l d = slot_at hub i l d)"
  using oneshot.join_stage1_joins [OF assms] unfolding joined_def by blast

text \<open>Two fresh nodes on one hub.\<close>

definition two_nodes :: "NetworkHub option" where
  "two_nodes = sorted_nodes_fixture [sample_id 9, sample_id 4]
     (replicate 2 (MembershipVector (fill32 0))) (replicate 2 \<lparr>host = ''localhost'', port = ''0''\<rparr>)"

lemma two_nodes_ready:
  "\<exists>hub. two_nodes = Some hub \<and> hub_ok hub \<and> graph_linked hub {sample_id 4} \<and>
    joining hub {sample_id 4} (sample_id 9)"
  using fixture_ok [of "[sample_id 9, sample_id 4]" "replicate 2 (MembershipVector (fill32 0))"
      "replicate 2 \<lparr>host = ''localhost'', port = ''0''\<rparr>"]
  by (auto simp: two_nodes_def fresh_graph fresh_joining)

theorem join_links_level0_witness:
  "\<exists>hub hub'. two_nodes = Some hub \<and>
     join_stage1_link_level0 std_await 3 hub (sample_id 9) (sample_id 4) 255
       (Nonce 1, Nonce 2, Nonce 3, Nonce 4) = Some (hub', Ok ()) \<and>
     graph_linked hub' {sample_id 9, sample_id 4}"
proof -
  obtain hub where hub: "two_nodes = Some hub" "hub_ok hub" "graph_linked hub {sample_id 4}"
    "joining hub {sample_id 4} (sample_id 9)" using two_nodes_ready by blast
  from join_links_level0 [OF std.oneshot_axioms hub(2-4), of "sample_id 4" 255 3
      "(Nonce 1, Nonce 2, Nonce 3, Nonce 4)"] hub(1)
  show ?thesis by (auto simp: size_defs)
qed

text \<open>
  C2. \<^verbatim>\<open>search_by_id\<close> over the hub, started at a member that is not past the target: the call returns Ok
  with the member closest to the target on the searched side, it carries the nonce and target of
  the request, and no table has changed.
\<close>

theorem search_finds_closest:
  assumes "oneshot aw" "hub_ok hub" "graph_linked hub S" "own \<in> S" "node_at hub own = Some n"
    and "\<not> beyond (sreq_direction req) (sreq_target req) own"
    and "sreq_level req < LOOKUP_TABLE_LEVELS" "card S < k"
  shows "\<exists>hub' res. search_by_id aw k hub own req = Some (hub', Ok res) \<and>
    closest_member S (sreq_direction req) (sreq_target req) (sres_result res) \<and>
    sres_nonce res = sreq_nonce req \<and> sres_target res = sreq_target req \<and>
    (\<forall>i. table_at hub' i = table_at hub i)"
  by (rule oneshot.search_by_id_answer [OF assms])

theorem search_finds_closest_witness:
  "\<exists>hub hub' res. two_nodes = Some hub \<and>
     search_by_id std_await 2 hub (sample_id 4) \<lparr>sreq_nonce = Nonce 1, sreq_target = sample_id 200,
       sreq_origin = sample_id 4, sreq_level = 0, sreq_direction = Right\<rparr> = Some (hub', Ok res) \<and>
     sres_result res = sample_id 4"
proof -
  obtain hub where hub: "two_nodes = Some hub" "hub_ok hub" "graph_linked hub {sample_id 4}"
    using two_nodes_ready by blast
  obtain n where "node_at hub (sample_id 4) = Some n" using graph_node [OF hub(3)] by blast
  from search_finds_closest [OF std.oneshot_axioms hub(2,3) _ this, of "\<lparr>sreq_nonce = Nonce 1,
      sreq_target = sample_id 200, sreq_origin = sample_id 4, sreq_level = 0,
      sreq_direction = Right\<rparr>" 2] hub(1)
  show ?thesis by (auto simp: size_defs closest_member_def)
qed

text \<open>
  C5. The node fixture followed by joins in any order, each through an introducer that has joined
  before, always runs to the end, and the repository's assertion that the sorted nodes are doubly
  linked at level 0 then holds of their tables.
\<close>

theorem joins_build_linked_list:
  assumes "oneshot aw" "distinct draws" "length vs = length draws" "length ads = length draws"
    and "first \<in> set draws" "distinct (map fst js)" "set (map fst js) = set draws - {first}"
    and "introduced {first} js" "length draws < k"
  shows "\<exists>hub hub' tables. sorted_nodes_fixture draws vs ads = Some hub \<and>
    join_sequence aw k hub js = Some hub' \<and>
    map (table_at hub') (random_sorted_identifiers draws) = map Some tables \<and>
    assert_doubly_linked_at_level (random_sorted_identifiers draws) tables 0"
proof -
  obtain hub where hub: "sorted_nodes_fixture draws vs ads = Some hub" "hub_ok hub"
    "\<forall>i \<in> set draws. table_at hub i = Some new_table"
    using fixture_ok [OF assms(2-4)] by blast
  have g: "graph_linked hub {first}" using hub(3) assms(5) by (simp add: fresh_graph)
  have j: "\<forall>u \<in> set (map fst js). joining hub {first} u"
    using hub(3) assms(7) by (auto intro: fresh_joining)
  have "length js = card (set draws - {first})"
    using distinct_card [OF assms(6)] assms(7) by simp
  then have "card {first} + length js < k"
    using assms(2,5,9) by (cases "length draws") (auto simp: distinct_card)
  then obtain hub' where hub': "join_sequence aw k hub js = Some hub'" "hub_ok hub'"
    "graph_linked hub' ({first} \<union> set (map fst js))"
    using oneshot.join_sequence_links [OF assms(1) hub(2) g assms(8,6) j] by blast
  have S: "{first} \<union> set (map fst js) = set (random_sorted_identifiers draws)"
    using assms(5,7) by (auto simp: random_sorted_identifiers_def)
  let ?tables = "map (\<lambda>i. the (table_at hub' i)) (random_sorted_identifiers draws)"
  have t: "map (table_at hub') (random_sorted_identifiers draws) = map Some ?tables"
    using hub'(3) unfolding S by (auto simp: graph_linked_def)
  have "sorted_wrt (<) (random_sorted_identifiers draws)"
    using assms(2) by (simp add: random_sorted_identifiers_def strict_sorted_iff)
  from graph_linked_assert [OF hub'(2) this hub'(3) [unfolded S] t] hub(1) hub'(1) t
  show ?thesis by blast
qed

theorem joins_build_linked_list_witness:
  "\<exists>hub hub' tables.
     sorted_nodes_fixture [sample_id 5, sample_id 2, sample_id 9]
       (replicate 3 (MembershipVector (fill32 0)))
       (replicate 3 \<lparr>host = ''localhost'', port = ''0''\<rparr>) = Some hub \<and>
     join_sequence std_await 4 hub
       [(sample_id 2, sample_id 5, 0, Nonce 1, Nonce 2, Nonce 3, Nonce 4),
        (sample_id 9, sample_id 2, 0, Nonce 5, Nonce 6, Nonce 7, Nonce 8)] = Some hub' \<and>
     assert_doubly_linked_at_level
       (random_sorted_identifiers [sample_id 5, sample_id 2, sample_id 9]) tables 0"
  using joins_build_linked_list [OF std.oneshot_axioms, of "[sample_id 5, sample_id 2, sample_id 9]"
      "replicate 3 (MembershipVector (fill32 0))"
      "replicate 3 \<lparr>host = ''localhost'', port = ''0''\<rparr>" "sample_id 5"
      "[(sample_id 2, sample_id 5, 0, Nonce 1, Nonce 2, Nonce 3, Nonce 4),
        (sample_id 9, sample_id 2, 0, Nonce 5, Nonce 6, Nonce 7, Nonce 8)]" 4]
  by (force simp: size_defs)

section \<open>Every interleaving\<close>

text \<open>
  C6. Ordering under concurrency: from a state in which every table is ordered, no sequence of message
  deliveries, losses, new requests, finished requests and, when peers are not honest, forged
  messages leads to a table with an entry on the wrong side, without the shared prefix or at an
  impossible level.
\<close>

theorem interleavings_keep_order:
  assumes "net_ok s" "reaches honest s s'" "net_nodes s' i = Some n"
    and "slot (core_lt (node_core n)) level d = Some e"
  shows "node_id n = i \<and> level < LOOKUP_TABLE_LEVELS \<and> beyond d i (ident_id e) \<and>
    level \<le> common_prefix_bit (node_mem_vec n) (ident_mem_vec e)"
proof -
  have "core_id (node_core n) = i" "ordered_core (node_core n)"
    using reaches_keeps [OF assms(1,2)] assms(3) by (auto simp: net_ok_def node_ok_def)
  with ordered_coreD(2) [OF this(2) assms(4)] show ?thesis
    by (simp add: belongs_def node_id_def node_mem_vec_def)
qed

text \<open>Four sample members for the concurrent join.\<close>

definition sample_split :: Net where
  "sample_split = split_start (sample_identity 2) (sample_identity 4) (sample_identity 6)
     (sample_identity 8)"

lemma sample_split_honest: "net_honest sample_split"
  unfolding sample_split_def by (rule net_honest_split_start) simp_all

theorem interleavings_keep_order_witness:
  "net_ok sample_split \<and> reaches False sample_split sample_split \<and>
   beyond Right (sample_id 2) (sample_id 8)"
proof -
  have ok: "net_ok sample_split" using sample_split_honest by (simp add: net_honest_def)
  have r: "reaches False sample_split sample_split" by (simp add: reaches_def)
  have n: "net_nodes sample_split (sample_id 2) =
      Some (level0_node (sample_identity 2) None (Some (sample_identity 8)))"
    by (simp add: sample_split_def split_start_def)
  from interleavings_keep_order [OF ok r n, of 0 Right "sample_identity 8"] ok r show ?thesis
    by (simp add: level0_node_simps)
qed

text \<open>
  C10. No legitimate link request is ever dropped: in an honest run, every link request in flight is
  either accepted or forwarded by the node it is addressed to, however the messages have been
  interleaved since it was sent.
\<close>

theorem honest_requests_fit:
  assumes "net_honest s" "reaches True s s'" "(origin, i, GetLinkOp req) \<in> set (in_flight s')"
  shows "\<exists>n n' dest ev msg. net_nodes s' i = Some n \<and>
    belongs_in_own_slot n (lreq_level req) (lreq_dir req) (lreq_candidate req) \<and>
    handle_get_link_request n req = (n', Send dest ev msg)"
proof -
  have h: "net_honest s'" by (rule reaches_honest [OF assms(1,2)])
  then have "event_fits s' i (GetLinkOp req)" using assms(3) unfolding net_honest_def by blast
  then obtain n where n: "net_nodes s' i = Some n"
    "belongs (node_core n) (lreq_level req) (lreq_dir req) (lreq_candidate req)"
    by (auto simp: fits_at_def)
  have "ordered_core (node_core n)"
    using h n(1) by (auto simp: net_honest_def net_ok_def node_ok_def)
  then show ?thesis
    using n
    by (cases rule: handle_get_link_request_cases [where req = req])
      (auto simp: belongs_in_own_slot_iff)
qed

theorem honest_requests_fit_witness:
  "\<exists>s' n n' dest ev msg. reaches True sample_split s' \<and> net_nodes s' (sample_id 2) = Some n \<and>
     handle_get_link_request n \<lparr>lreq_nonce = Nonce 0, lreq_candidate = sample_identity 4,
       lreq_dir = Right, lreq_level = 0\<rparr> = (n', Send dest ev msg)"
proof -
  have "can sample_split {sample_identity 2, sample_identity 4, sample_identity 6, sample_identity 8}
      ((\<lambda>_ _. None)(sample_id 2 := (\<lambda>_. None)(Right := Some (sample_identity 8)),
        sample_id 8 := (\<lambda>_. None)(Left := Some (sample_identity 2))))
      ([] @ [get_link (sample_identity 4) (sample_identity 2) Right])"
    using can_start [OF placed_split_start, of "sample_identity 2" "sample_identity 4"
        "sample_identity 6" "sample_identity 8"]
    by (intro can_ask) (simp_all add: sample_split_def)
  then obtain s' where s': "reaches True sample_split s'"
    "in_flight s' = [get_link (sample_identity 4) (sample_identity 2) Right]"
    by (auto simp: can_def placed_def)
  from honest_requests_fit [OF sample_split_honest s'(1)] s' show ?thesis by fastforce
qed



section \<open>Linking over the hub\<close>

text \<open>
  A link request sent to any member on the right side is relayed to the member closest to the
  asking node; the call returns Ok, that member's slot holds the asking node, the mirror slot of
  the asking node holds that member, and no other slot of any table has changed.
\<close>

theorem link_request_reaches_neighbour:
  assumes "oneshot aw" "hub_ok hub" "side_linked hub S d" "u \<notin> S" "node_at hub u = Some n"
    and "slot_at hub u 0 (opposite d) = None"
    and "t \<in> S" "beyond d t u" "card (ahead S d u t) + 1 < k"
  shows "\<exists>x hub'. closest_member S d u x \<and>
    send_link_request aw k hub u t d 0 nonce = Some (hub', Ok ()) \<and>
    (\<forall>i l dir. slot_at hub' i l dir =
       (if l = 0 \<and> i = x \<and> dir = d then identity_at hub u
        else if l = 0 \<and> i = u \<and> dir = opposite d then identity_at hub x
        else slot_at hub i l dir))"
  using oneshot.link_request_answer [OF assms, of nonce] unfolding link_made_def .

theorem link_request_reaches_neighbour_witness:
  "\<exists>hub hub'. two_nodes = Some hub \<and>
     send_link_request std_await 2 hub (sample_id 9) (sample_id 4) Right 0 (Nonce 1) =
       Some (hub', Ok ()) \<and>
     slot_at hub' (sample_id 4) 0 Right = identity_at hub (sample_id 9)"
proof -
  obtain hub where hub: "two_nodes = Some hub" "hub_ok hub" "graph_linked hub {sample_id 4}"
    "joining hub {sample_id 4} (sample_id 9)" using two_nodes_ready by blast
  obtain n where n: "node_at hub (sample_id 9) = Some n" using hub(4) by (auto simp: joining_def)
  have side: "side_linked hub {sample_id 4} Right" using hub(3) by (simp add: graph_linked_sides)
  have empty: "slot_at hub (sample_id 9) 0 (opposite Right) = None"
    using hub(4) by (cases "slot_at hub (sample_id 9) 0 Left") (auto simp: joining_def)
  have "ahead {sample_id 4} Right (sample_id 9) (sample_id 4) = {}" by (auto simp: ahead_def)
  then obtain x hub' where x: "closest_member {sample_id 4} Right (sample_id 9) x"
    "send_link_request std_await 2 hub (sample_id 9) (sample_id 4) Right 0 (Nonce 1) =
       Some (hub', Ok ())"
    "slot_at hub' x 0 Right = identity_at hub (sample_id 9)"
    using link_request_reaches_neighbour [OF std.oneshot_axioms hub(2) side _ n empty,
        of "sample_id 4" 2 "Nonce 1"] by auto
  then have "x = sample_id 4" by (simp add: closest_member_def)
  with x hub(1) show ?thesis by blast
qed

text \<open>
  C14. A node that is already linked and runs stage 1 again through another member is refused: the
  search resolves its own identifier, the call returns that error, and no table has changed.
\<close>

theorem rejoin_refused:
  assumes "oneshot aw" "hub_ok hub" "graph_linked hub S" "u \<in> S" "introducer \<in> S" "introducer \<noteq> u"
    and "max_level < LOOKUP_TABLE_LEVELS" "card S + 1 < k"
  shows "\<exists>hub'. join_stage1_link_level0 aw k hub u introducer max_level nonces =
      Some (hub', Err (Msg ''stage-1 search resolved a node with this node's own id, another node already holds it'')) \<and>
    (\<forall>i. table_at hub' i = table_at hub i)"
  by (rule oneshot.join_stage1_refuses [OF assms])

theorem rejoin_refused_witness:
  "\<exists>hub hub'. graph_linked hub {sample_id 9, sample_id 4} \<and>
     join_stage1_link_level0 std_await 4 hub (sample_id 9) (sample_id 4) 0
       (Nonce 1, Nonce 2, Nonce 3, Nonce 4) =
     Some (hub', Err (Msg ''stage-1 search resolved a node with this node's own id, another node already holds it''))"
proof -
  obtain hub where hub: "hub_ok hub" "graph_linked hub {sample_id 4}"
    "joining hub {sample_id 4} (sample_id 9)" using two_nodes_ready by blast
  obtain hub2 where "joined hub hub2 {sample_id 4} (sample_id 9)"
    using oneshot.join_stage1_joins [OF std.oneshot_axioms hub, of "sample_id 4" 0 3
        "(Nonce 1, Nonce 2, Nonce 3, Nonce 4)"] by (auto simp: size_defs)
  then have h2: "hub_ok hub2" "graph_linked hub2 {sample_id 9, sample_id 4}"
    by (auto simp: joined_def)
  from rejoin_refused [OF std.oneshot_axioms h2, of "sample_id 9" "sample_id 4" 0 4
      "(Nonce 1, Nonce 2, Nonce 3, Nonce 4)"] h2(2)
  show ?thesis by (auto simp: size_defs)
qed

section \<open>Textual forms\<close>

text \<open>
  C25. Identifiers and membership vectors print as hex and parse back to themselves, distinct values
  print differently, and parsing accepts exactly the hex strings of at most 32 bytes.
\<close>

theorem string_round_trip:
  assumes "hex_codec hex_encode hex_decode"
  shows "from_string hex_decode (id_display hex_encode i) = Ok i \<and>
    mv_from_string hex_decode (mv_display hex_encode v) = Ok v \<and>
    (id_display hex_encode i = id_display hex_encode j \<longleftrightarrow> i = j) \<and>
    (is_ok (from_string hex_decode s) \<longleftrightarrow>
       (\<exists>bs. hex_decode s = Ok bs \<and> length bs \<le> IDENTIFIER_SIZE_BYTES)) \<and>
    (is_ok (mv_from_string hex_decode s) \<longleftrightarrow>
       (\<exists>bs. hex_decode s = Ok bs \<and> length bs \<le> IDENTIFIER_SIZE_BYTES))"
  using printed_bytes.of_string_display [OF identifier_printed [OF assms]]
    printed_bytes.of_string_display [OF mem_vec_printed [OF assms]]
    printed_bytes.display_inject [OF identifier_printed [OF assms]]
    printed_bytes.of_string_ok_iff [OF identifier_printed [OF assms]]
    printed_bytes.of_string_ok_iff [OF mem_vec_printed [OF assms]]
  by blast

theorem string_round_trip_witness:
  "from_string plain_decode (id_display plain_encode (sample_id 7)) = Ok (sample_id 7)"
  using string_round_trip [OF plain.hex_codec_axioms] by blast

end
